(* ===== verification/Prelude.thy ===== *)
theory Prelude
  imports Main "HOL-Library.Word" "HOL-Library.Monad_Syntax" "HOL-Library.Multiset"
begin

text \<open>
  Shared vocabulary of the development.

  A kernel routine that can fail is a function into \<^typ>\<open>'a option\<close>: \<^term>\<open>None\<close> means that
  the call does not return to its caller, because an \<open>assert()\<close> failed, because \<open>panic()\<close> was
  reached, or because the C code would touch memory outside the object it works on.  Error codes
  that the C code returns (\<open>-EBADF\<close> and the like) are ordinary values.

  Unsigned 32-bit quantities are natural numbers; wherever an addition or subtraction of the C
  code can leave the range, the model uses \<open>add32\<close>, \<open>sub32\<close> and \<open>mul32\<close>, which wrap.
\<close>

named_theorems kdefs \<open>elementary operations of the model: assertions, array accesses, wrapping arithmetic\<close>

subsection \<open>Assertions and array accesses\<close>

definition assertK :: "bool \<Rightarrow> unit option" where
  "assertK b = (if b then Some () else None)"

definition rd :: "'a list \<Rightarrow> nat \<Rightarrow> 'a option" where
  "rd xs i = (if i < length xs then Some (xs ! i) else None)"

definition wr :: "'a list \<Rightarrow> nat \<Rightarrow> 'a \<Rightarrow> 'a list option" where
  "wr xs i v = (if i < length xs then Some (xs[i := v]) else None)"

text \<open>\<open>for\<close> loops whose body cannot leave the loop early: the body runs for each index in turn.\<close>

primrec foreach :: "('i \<Rightarrow> 's \<Rightarrow> 's option) \<Rightarrow> 'i list \<Rightarrow> 's \<Rightarrow> 's option" where
  "foreach f [] s = Some s"
| "foreach f (i # is) s = do { s' \<leftarrow> f i s; foreach f is s' }"

subsection \<open>Unsigned 32-bit arithmetic\<close>

abbreviation (input) W32 :: nat where "W32 \<equiv> 4294967296"

definition add32 :: "nat \<Rightarrow> nat \<Rightarrow> nat" where
  "add32 a b = (a + b) mod W32"

definition sub32 :: "nat \<Rightarrow> nat \<Rightarrow> nat" where
  "sub32 a b = (a + (W32 - b mod W32)) mod W32"

definition mul32 :: "nat \<Rightarrow> nat \<Rightarrow> nat" where
  "mul32 a b = (a * b) mod W32"

definition s32 :: "nat \<Rightarrow> int" where
  "s32 a = (if a < 2147483648 then int a else int a - 4294967296)"

definition u32 :: "int \<Rightarrow> nat" where
  "u32 i = nat (i mod 4294967296)"

subsection \<open>Lemmas\<close>

lemma assertK_simps [simp]:
  "assertK True = Some ()" "assertK False = None"
  by (simp_all add: assertK_def)

lemma assertK_eq_Some [simp]: "assertK b = Some u \<longleftrightarrow> b"
  by (simp add: assertK_def)

lemma bind_assertK [simp]:
  "assertK b \<bind> f = (if b then f () else None)"
  by (simp add: assertK_def)

lemma rd_Some [simp]: "i < length xs \<Longrightarrow> rd xs i = Some (xs ! i)"
  by (simp add: rd_def)

lemma rd_None [simp]: "length xs \<le> i \<Longrightarrow> rd xs i = None"
  by (simp add: rd_def)

lemma wr_Some [simp]: "i < length xs \<Longrightarrow> wr xs i v = Some (xs[i := v])"
  by (simp add: wr_def)

lemma wr_None [simp]: "length xs \<le> i \<Longrightarrow> wr xs i v = None"
  by (simp add: wr_def)

lemma rd_eq_Some_iff: "rd xs i = Some v \<longleftrightarrow> i < length xs \<and> v = xs ! i"
  by (auto simp: rd_def)

lemma wr_eq_Some_iff: "wr xs i v = Some ys \<longleftrightarrow> i < length xs \<and> ys = xs[i := v]"
  by (auto simp: wr_def)

lemma foreach_unit: "(\<And>i. i \<in> set is \<Longrightarrow> f i () = Some ()) \<Longrightarrow> foreach f is () = Some ()"
  by (induction "is") auto

lemma foreach_append: "foreach f (xs @ ys) s = do { s' \<leftarrow> foreach f xs s; foreach f ys s' }"
  by (induction xs arbitrary: s) auto

lemma add32_small [simp]: "a + b < W32 \<Longrightarrow> add32 a b = a + b"
  by (simp add: add32_def)

lemma sub32_small [simp]: "b \<le> a \<Longrightarrow> a < W32 \<Longrightarrow> sub32 a b = a - b"
proof -
  assume "b \<le> a" "a < W32"
  then have "a + (W32 - b mod W32) = (a - b) + W32" by simp
  then show ?thesis using \<open>a < W32\<close> unfolding sub32_def by (metis mod_add_self2 mod_less less_imp_diff_less)
qed

lemma mul32_small [simp]: "a * b < W32 \<Longrightarrow> mul32 a b = a * b"
  by (simp add: mul32_def)

lemma add32_less [simp]: "add32 a b < W32"
  by (simp add: add32_def)

lemma sub32_less [simp]: "sub32 a b < W32"
  by (simp add: sub32_def)

lemma s32_small [simp]: "a < 2147483648 \<Longrightarrow> s32 a = int a"
  by (simp add: s32_def)

lemma take_list_update_beyond [simp]: "n \<le> i \<Longrightarrow> take n (xs[i := v]) = take n xs"
  by (rule nth_equalityI) auto

lemma take_Suc_update [simp]:
  "n < length xs \<Longrightarrow> take (Suc n) (xs[n := v]) = take n xs @ [v]"
  by (simp add: take_Suc_conv_app_nth)

lemma drop_take_Cons:
  "i < n \<Longrightarrow> n \<le> length xs \<Longrightarrow> drop i (take n xs) = xs ! i # drop (Suc i) (take n xs)"
  by (simp add: Cons_nth_drop_Suc[symmetric])

lemma drop_take_update [simp]:
  "i < j \<Longrightarrow> drop j (take n (xs[i := v])) = drop j (take n xs)"
  by (simp add: drop_take)

end
