(* ===== verification/Ordered_Array.thy ===== *)
theory Ordered_Array
  imports Prelude
begin

text \<open>
  The ordered array of \<open>src/kernel/ordered_array.c\<close>: a fixed-capacity array of pointers that is
  kept ordered by a predicate.  The predicate is a C function that reads memory, so the model
  passes the memory \<open>'m\<close> it is evaluated in to the operation that calls it.
\<close>

subsection \<open>Data\<close>

type_synonym type_t = nat

record 'm ordered_array_t =
  oa_array :: "type_t list"
  oa_size :: nat
  oa_max_size :: nat
  oa_less_than :: "('m \<Rightarrow> type_t \<Rightarrow> type_t \<Rightarrow> bool) option"

definition standard_lessthan_predicate :: "'m \<Rightarrow> type_t \<Rightarrow> type_t \<Rightarrow> bool" where
  "standard_lessthan_predicate m a b = (a < b)"

subsection \<open>Operations\<close>

text \<open>The array of \<open>create_ordered_array\<close> has one element more than \<open>max_size\<close>; that element is
  not cleared by the \<open>memset\<close> and holds whatever the allocator returned (\<open>junk\<close>).\<close>

definition create_ordered_array ::
  "type_t \<Rightarrow> nat \<Rightarrow> ('m \<Rightarrow> type_t \<Rightarrow> type_t \<Rightarrow> bool) option \<Rightarrow> 'm ordered_array_t" where
  "create_ordered_array junk max_size lt =
    \<lparr> oa_array = replicate max_size 0 @ [junk], oa_size = 0, oa_max_size = max_size, oa_less_than = lt \<rparr>"

definition place_ordered_array ::
  "nat \<Rightarrow> ('m \<Rightarrow> type_t \<Rightarrow> type_t \<Rightarrow> bool) option \<Rightarrow> 'm ordered_array_t" where
  "place_ordered_array max_size lt =
    \<lparr> oa_array = replicate max_size 0, oa_size = 0, oa_max_size = max_size, oa_less_than = lt \<rparr>"

function insert_scan :: "(type_t \<Rightarrow> bool) \<Rightarrow> type_t list \<Rightarrow> nat \<Rightarrow> nat \<Rightarrow> nat option" where
  "insert_scan p xs n i =
    (if i < n then do { x \<leftarrow> rd xs i; if p x then insert_scan p xs n (i + 1) else Some i }
     else Some i)"
  by pat_completeness auto
termination
  by (relation "measure (\<lambda>(p, xs, n, i). n - i)") auto

function insert_shift :: "type_t list \<Rightarrow> nat \<Rightarrow> nat \<Rightarrow> type_t \<Rightarrow> type_t list option" where
  "insert_shift xs n i tmp =
    (if i < n then do {
       tmp2 \<leftarrow> rd xs (i + 1);
       xs' \<leftarrow> wr xs (i + 1) tmp;
       insert_shift xs' n (i + 1) tmp2 }
     else Some xs)"
  by pat_completeness auto
termination
  by (relation "measure (\<lambda>(xs, n, i, tmp). n - i)") auto

definition insert_ordered_array ::
  "'m \<Rightarrow> type_t \<Rightarrow> 'm ordered_array_t \<Rightarrow> 'm ordered_array_t option" where
  "insert_ordered_array m item a = do {
     lt \<leftarrow> oa_less_than a;
     assertK (add32 (oa_size a) 1 \<le> oa_max_size a);
     i \<leftarrow> insert_scan (\<lambda>x. lt m x item) (oa_array a) (oa_size a) 0;
     xs \<leftarrow> (if i = oa_size a then wr (oa_array a) (oa_size a) item
           else do {
             tmp \<leftarrow> rd (oa_array a) i;
             xs1 \<leftarrow> wr (oa_array a) i item;
             insert_shift xs1 (oa_size a) i tmp });
     Some (a\<lparr> oa_array := xs, oa_size := add32 (oa_size a) 1 \<rparr>) }"

definition lookup_ordered_array :: "nat \<Rightarrow> 'm ordered_array_t \<Rightarrow> type_t option" where
  "lookup_ordered_array i a = do { assertK (i < oa_size a); rd (oa_array a) i }"

definition update_ordered_array :: "nat \<Rightarrow> type_t \<Rightarrow> 'm ordered_array_t \<Rightarrow> 'm ordered_array_t option" where
  "update_ordered_array i item a = do {
     assertK (i < oa_size a);
     xs \<leftarrow> wr (oa_array a) i item;
     Some (a\<lparr> oa_array := xs \<rparr>) }"

text \<open>The loop of \<open>indexof_ordered_array\<close> (and of \<open>remove_ordered_array_item\<close>): \<open>limit\<close> is the
  loop bound, \<open>(sint32)size\<close> in the first and \<open>size\<close> in the second.\<close>

function find_from :: "type_t \<Rightarrow> 'm ordered_array_t \<Rightarrow> int \<Rightarrow> nat \<Rightarrow> nat option option" where
  "find_from item a limit i =
    (if int i < limit then do {
       x \<leftarrow> lookup_ordered_array i a;
       if x = item then Some (Some i) else find_from item a limit (i + 1) }
     else Some None)"
  by pat_completeness auto
termination
  by (relation "measure (\<lambda>(item, a, limit, i). nat (limit - int i))") auto

definition indexof_ordered_array :: "type_t \<Rightarrow> 'm ordered_array_t \<Rightarrow> int option" where
  "indexof_ordered_array item a = do {
     r \<leftarrow> find_from item a (s32 (oa_size a)) 0;
     Some (case r of Some i \<Rightarrow> int i | None \<Rightarrow> -1) }"

function remove_shift :: "type_t list \<Rightarrow> nat \<Rightarrow> nat \<Rightarrow> type_t list option" where
  "remove_shift xs n i =
    (if i < n then do {
       x \<leftarrow> rd xs (i + 1);
       xs' \<leftarrow> wr xs i x;
       remove_shift xs' n (i + 1) }
     else Some xs)"
  by pat_completeness auto
termination
  by (relation "measure (\<lambda>(xs, n, i). n - i)") auto

definition remove_ordered_array :: "nat \<Rightarrow> 'm ordered_array_t \<Rightarrow> 'm ordered_array_t option" where
  "remove_ordered_array i a = do {
     xs \<leftarrow> remove_shift (oa_array a) (oa_size a) i;
     Some (a\<lparr> oa_array := xs, oa_size := sub32 (oa_size a) 1 \<rparr>) }"

definition remove_ordered_array_item :: "type_t \<Rightarrow> 'm ordered_array_t \<Rightarrow> 'm ordered_array_t option" where
  "remove_ordered_array_item item a = do {
     r \<leftarrow> find_from item a (int (oa_size a)) 0;
     (case r of Some i \<Rightarrow> remove_ordered_array i a | None \<Rightarrow> Some a) }"

declare insert_scan.simps [simp del] insert_shift.simps [simp del]
  remove_shift.simps [simp del] find_from.simps [simp del]

subsection \<open>Abstraction to lists\<close>

definition oa_contents :: "'m ordered_array_t \<Rightarrow> type_t list" where
  "oa_contents a = take (oa_size a) (oa_array a)"

definition oa_ok :: "'m ordered_array_t \<Rightarrow> bool" where
  "oa_ok a \<longleftrightarrow> oa_size a \<le> oa_max_size a \<and> oa_max_size a \<le> length (oa_array a) \<and> oa_max_size a < W32"

definition insert_before :: "(type_t \<Rightarrow> bool) \<Rightarrow> type_t \<Rightarrow> type_t list \<Rightarrow> type_t list" where
  "insert_before p x xs = takeWhile p xs @ x # dropWhile p xs"

lemma length_oa_contents [simp]: "oa_ok a \<Longrightarrow> length (oa_contents a) = oa_size a"
  by (auto simp: oa_contents_def oa_ok_def)

lemma mset_insert_before [simp]: "mset (insert_before p x xs) = add_mset x (mset xs)"
  unfolding insert_before_def
  by (metis add_mset_add_single mset_append takeWhile_dropWhile_id union_mset_add_mset_right mset.simps(2))

lemma insert_scan_eq:
  "n \<le> length xs \<Longrightarrow> i \<le> n \<Longrightarrow>
   insert_scan p xs n i = Some (i + length (takeWhile p (drop i (take n xs))))"
proof (induction p xs n i rule: insert_scan.induct)
  case (1 p xs n i)
  show ?case
  proof (cases "i < n")
    case True
    then have "drop i (take n xs) = xs ! i # drop (Suc i) (take n xs)"
      using 1(2) by (simp add: Cons_nth_drop_Suc[symmetric])
    then show ?thesis using True 1 by (subst insert_scan.simps) simp
  next
    case False
    then show ?thesis using 1 by (subst insert_scan.simps) simp
  qed
qed

lemma insert_shift_eq:
  "n < length xs \<Longrightarrow> i \<le> n \<Longrightarrow>
   \<exists>ys. insert_shift xs n i tmp = Some ys \<and> length ys = length xs \<and>
     take (Suc n) ys = take (Suc i) xs @ (if i < n then tmp # drop (Suc i) (take n xs) else [])"
proof (induction xs n i tmp rule: insert_shift.induct)
  case (1 xs n i tmp)
  show ?case
  proof (cases "i < n")
    case True
    have "\<exists>ys. insert_shift (xs[Suc i := tmp]) n (Suc i) (xs ! Suc i) = Some ys \<and> length ys = length xs \<and>
     take (Suc n) ys = take (Suc (Suc i)) (xs[Suc i := tmp]) @
       (if Suc i < n then xs ! Suc i # drop (Suc (Suc i)) (take n (xs[Suc i := tmp])) else [])"
      using 1(1)[of "xs ! Suc i" "xs[Suc i := tmp]"] True 1(2) by (auto split: if_splits)
    moreover have "drop (Suc i) (take n xs) =
       (if Suc i < n then xs ! Suc i # drop (Suc (Suc i)) (take n xs) else [])"
      using 1(2) by (simp add: Cons_nth_drop_Suc[symmetric])
    moreover have "drop (Suc (Suc i)) (take n (xs[Suc i := tmp])) = drop (Suc (Suc i)) (take n xs)"
      by (simp add: drop_take)
    ultimately show ?thesis using True 1(2)
      by (subst insert_shift.simps) (auto split: if_splits)
  next
    case False
    then show ?thesis using 1(2,3) by (subst insert_shift.simps) simp
  qed
qed

lemma remove_shift_eq:
  "n < length xs \<Longrightarrow> i \<le> n \<Longrightarrow>
   \<exists>ys. remove_shift xs n i = Some ys \<and> length ys = length xs \<and>
     (\<forall>j < n. ys ! j = (if j < i then xs ! j else xs ! Suc j))"
proof (induction xs n i rule: remove_shift.induct)
  case (1 xs n i)
  show ?case
  proof (cases "i < n")
    case True
    have "\<exists>ys. remove_shift (xs[i := xs ! Suc i]) n (Suc i) = Some ys \<and> length ys = length xs \<and>
     (\<forall>j < n. ys ! j = (if j < Suc i then xs[i := xs ! Suc i] ! j else xs[i := xs ! Suc i] ! Suc j))"
      using 1(1)[of "xs ! Suc i" "xs[i := xs ! Suc i]"] True 1(2) by simp
    then show ?thesis using True 1(2)
      by (subst remove_shift.simps) (force simp: nth_list_update less_Suc_eq)
  next
    case False
    then show ?thesis using 1(2,3) by (subst remove_shift.simps) simp
  qed
qed

lemma find_from_eq:
  "oa_ok a \<Longrightarrow> n = oa_size a \<Longrightarrow> i \<le> n \<Longrightarrow>
   find_from item a (int n) i =
     Some (if item \<in> set (drop i (oa_contents a))
           then Some (i + length (takeWhile (\<lambda>x. x \<noteq> item) (drop i (oa_contents a)))) else None)"
proof (induction item a "int n" i rule: find_from.induct)
  case (1 item a i)
  show ?case
  proof (cases "i < n")
    case True
    then have "drop i (oa_contents a) = oa_array a ! i # drop (Suc i) (oa_contents a)"
      using 1(2,3) unfolding oa_contents_def oa_ok_def by (simp add: Cons_nth_drop_Suc[symmetric])
    moreover have "lookup_ordered_array i a = Some (oa_array a ! i)"
      using True 1(2,3) by (auto simp: lookup_ordered_array_def oa_ok_def)
    ultimately show ?thesis using True 1 by (subst find_from.simps) auto
  next
    case False
    then show ?thesis using 1 by (subst find_from.simps) (simp add: oa_contents_def)
  qed
qed

lemma lookup_ordered_array_eq:
  "oa_ok a \<Longrightarrow> lookup_ordered_array i a = rd (oa_contents a) i"
  by (auto simp: lookup_ordered_array_def oa_contents_def oa_ok_def rd_def)

lemma insert_ordered_array_eq:
  assumes "oa_ok a" "oa_less_than a = Some lt" "oa_size a < oa_max_size a"
  shows "\<exists>a'. insert_ordered_array m x a = Some a' \<and> oa_ok a' \<and> oa_less_than a' = Some lt \<and>
    oa_max_size a' = oa_max_size a \<and> length (oa_array a') = length (oa_array a) \<and>
    oa_contents a' = insert_before (\<lambda>y. lt m y x) x (oa_contents a)"
proof -
  let ?n = "oa_size a" and ?p = "\<lambda>y. lt m y x"
  let ?k = "length (takeWhile ?p (oa_contents a))"
  have k: "?k \<le> ?n" using assms(1) length_takeWhile_le[of ?p "oa_contents a"] by simp
  have n: "?n < length (oa_array a)" "add32 ?n 1 = Suc ?n" using assms by (auto simp: oa_ok_def)
  have scan: "insert_scan ?p (oa_array a) ?n 0 = Some ?k"
    using n by (subst insert_scan_eq) (auto simp: oa_contents_def)
  have tw: "takeWhile ?p (oa_contents a) = take ?k (oa_array a)"
    using takeWhile_eq_take[of ?p "oa_contents a"] k by (simp add: oa_contents_def)
  have dw: "dropWhile ?p (oa_contents a) = drop ?k (take ?n (oa_array a))"
    using dropWhile_eq_drop[of ?p "oa_contents a"] by (simp add: oa_contents_def)
  show ?thesis
  proof (cases "?k = ?n")
    case True
    have "insert_before ?p x (oa_contents a) = take ?n (oa_array a) @ [x]"
      unfolding insert_before_def tw[unfolded True] dw[unfolded True] by simp
    then show ?thesis using True n scan assms
      by (simp add: insert_ordered_array_def oa_ok_def oa_contents_def)
  next
    case False
    then have lt: "?k < ?n" using k by simp
    obtain ys where ys: "insert_shift ((oa_array a)[?k := x]) ?n ?k (oa_array a ! ?k) = Some ys"
      "length ys = length (oa_array a)"
      "take (Suc ?n) ys = take (Suc ?k) ((oa_array a)[?k := x]) @ oa_array a ! ?k # drop (Suc ?k) (take ?n ((oa_array a)[?k := x]))"
      using insert_shift_eq[of ?n "(oa_array a)[?k := x]" ?k "oa_array a ! ?k"] n lt by auto
    have "oa_array a ! ?k # drop (Suc ?k) (take ?n ((oa_array a)[?k := x])) = dropWhile ?p (oa_contents a)"
      using lt n unfolding dw by (simp add: drop_take_Cons[OF lt])
    then show ?thesis using lt n scan assms ys tw
      by (simp add: insert_ordered_array_def oa_ok_def oa_contents_def insert_before_def)
  qed
qed

lemma remove_ordered_array_eq:
  assumes "oa_ok a" "oa_size a < length (oa_array a)" "i < oa_size a"
  shows "\<exists>a'. remove_ordered_array i a = Some a' \<and> oa_ok a' \<and> oa_less_than a' = oa_less_than a \<and>
    oa_max_size a' = oa_max_size a \<and> length (oa_array a') = length (oa_array a) \<and>
    oa_contents a' = take i (oa_contents a) @ drop (Suc i) (oa_contents a)"
proof -
  obtain ys where ys: "remove_shift (oa_array a) (oa_size a) i = Some ys" "length ys = length (oa_array a)"
    "\<forall>j < oa_size a. ys ! j = (if j < i then oa_array a ! j else oa_array a ! Suc j)"
    using remove_shift_eq[of "oa_size a" "oa_array a" i] assms by auto
  have "take (oa_size a - 1) ys = take i (oa_contents a) @ drop (Suc i) (oa_contents a)"
    using ys(2) ys(3)[rule_format] assms
    by (intro nth_equalityI) (auto simp: oa_contents_def nth_append min_def split: if_split_asm)
  then show ?thesis using ys assms by (auto simp: remove_ordered_array_def oa_ok_def oa_contents_def)
qed

lemma remove1_takeWhile:
  "x \<in> set xs \<Longrightarrow> k = length (takeWhile (\<lambda>y. y \<noteq> x) xs) \<Longrightarrow> take k xs @ drop (Suc k) xs = remove1 x xs"
  by (induction xs arbitrary: k) auto

lemma remove_ordered_array_item_eq:
  assumes "oa_ok a" "oa_size a < length (oa_array a)"
  shows "\<exists>a'. remove_ordered_array_item x a = Some a' \<and> oa_ok a' \<and> oa_less_than a' = oa_less_than a \<and>
    oa_max_size a' = oa_max_size a \<and> length (oa_array a') = length (oa_array a) \<and>
    oa_contents a' = remove1 x (oa_contents a)"
proof (cases "x \<in> set (oa_contents a)")
  case True
  let ?k = "length (takeWhile (\<lambda>y. y \<noteq> x) (oa_contents a))"
  have "?k < length (oa_contents a)" using True
    by (metis (mono_tags, lifting) length_takeWhile_le nat_less_le set_takeWhileD takeWhile_eq_take take_all_iff)
  then have "?k < oa_size a" using assms by simp
  then show ?thesis using remove_ordered_array_eq[OF assms, of ?k] remove1_takeWhile[OF True refl] True assms
    by (auto simp: remove_ordered_array_item_def find_from_eq)
next
  case False
  then show ?thesis using assms
    by (auto simp: remove_ordered_array_item_def find_from_eq remove1_idem)
qed

subsection \<open>The contract of an index of pointers\<close>

text \<open>What the heap relies on: an index holds a multiset of pointers, adding and removing an entry
  succeeds as long as there is room, and positions \<open>0, ..., count - 1\<close> enumerate the entries.\<close>

locale pointer_index =
  fixes usable :: "'i \<Rightarrow> bool" and room :: "'i \<Rightarrow> nat" and contents :: "'i \<Rightarrow> type_t list"
    and add :: "'m \<Rightarrow> type_t \<Rightarrow> 'i \<Rightarrow> 'i option" and del :: "type_t \<Rightarrow> 'i \<Rightarrow> 'i option"
    and get :: "nat \<Rightarrow> 'i \<Rightarrow> type_t option" and count :: "'i \<Rightarrow> nat"
  assumes add_law: "usable i \<Longrightarrow> 0 < room i \<Longrightarrow>
      \<exists>i'. add m x i = Some i' \<and> usable i' \<and> Suc (room i') = room i \<and>
           mset (contents i') = add_mset x (mset (contents i))"
    and del_law: "usable i \<Longrightarrow> 0 < room i \<Longrightarrow> x \<in> set (contents i) \<Longrightarrow>
      \<exists>i'. del x i = Some i' \<and> usable i' \<and> room i' = Suc (room i) \<and>
           mset (contents i') = mset (contents i) - {#x#}"
    and get_law: "usable i \<Longrightarrow> get k i = rd (contents i) k"
    and count_law: "usable i \<Longrightarrow> count i = length (contents i)"
begin

lemma foreach_get:
  assumes "usable i" "\<And>x u. x \<in> set (contents i) \<Longrightarrow> f x u = Some ()"
  shows "foreach (\<lambda>k u. do { x \<leftarrow> get k i; f x u }) [0..<count i] () = Some ()"
  using assms by (intro foreach_unit) (auto simp: get_law count_law)

lemma get_mem: "usable i \<Longrightarrow> k < count i \<Longrightarrow> \<exists>x. get k i = Some x \<and> x \<in> set (contents i)"
  by (auto simp: get_law count_law)

lemma get_surj: "usable i \<Longrightarrow> x \<in> set (contents i) \<Longrightarrow> \<exists>k < count i. get k i = Some x"
  by (auto simp: get_law count_law in_set_conv_nth)

lemma del_add:
  assumes "usable i" "1 < room i"
  shows "\<exists>i' i''. add m x i = Some i' \<and> del x i' = Some i'' \<and> usable i'' \<and>
    mset (contents i'') = mset (contents i)"
proof -
  obtain i' where i': "add m x i = Some i'" "usable i'" "Suc (room i') = room i"
    "mset (contents i') = add_mset x (mset (contents i))"
    using add_law[of i m x] assms by auto
  then have "x \<in> set (contents i')"
    using set_mset_mset[of "contents i'"] by (metis insert_iff set_mset_add_mset_insert)
  then show ?thesis using i' assms del_law[of i' x] by auto
qed

end

definition oa_usable :: "'m ordered_array_t \<Rightarrow> bool" where
  "oa_usable a \<longleftrightarrow> oa_ok a \<and> oa_less_than a \<noteq> None"

definition oa_room :: "'m ordered_array_t \<Rightarrow> nat" where
  "oa_room a = oa_max_size a - oa_size a"

interpretation oa: pointer_index oa_usable oa_room oa_contents insert_ordered_array
  remove_ordered_array_item lookup_ordered_array oa_size
proof
  fix i :: "'m ordered_array_t" and m x
  assume i: "oa_usable i" "0 < oa_room i"
  then obtain lt where lt: "oa_less_than i = Some lt" by (auto simp: oa_usable_def)
  obtain i' where i': "insert_ordered_array m x i = Some i'" "oa_ok i'" "oa_less_than i' = Some lt"
    "oa_max_size i' = oa_max_size i" "oa_contents i' = insert_before (\<lambda>y. lt m y x) x (oa_contents i)"
    using insert_ordered_array_eq[of i lt m x] i lt by (auto simp: oa_usable_def oa_room_def)
  have "oa_size i' = Suc (oa_size i)"
    using i' i length_oa_contents[of i] length_oa_contents[of i'] mset_insert_before
    by (metis oa_usable_def size_add_mset size_mset)
  then show "\<exists>i'. insert_ordered_array m x i = Some i' \<and> oa_usable i' \<and> Suc (oa_room i') = oa_room i \<and>
      mset (oa_contents i') = add_mset x (mset (oa_contents i))"
    using i' i by (auto simp: oa_usable_def oa_room_def)
next
  fix i :: "'m ordered_array_t" and x
  assume i: "oa_usable i" "0 < oa_room i" "x \<in> set (oa_contents i)"
  have lt: "oa_size i < length (oa_array i)" using i by (auto simp: oa_usable_def oa_room_def oa_ok_def)
  obtain i' where i': "remove_ordered_array_item x i = Some i'" "oa_ok i'" "oa_less_than i' = oa_less_than i"
    "oa_max_size i' = oa_max_size i" "oa_contents i' = remove1 x (oa_contents i)"
    using remove_ordered_array_item_eq[of i x] i lt by (auto simp: oa_usable_def)
  have "Suc (oa_size i') = oa_size i"
    using i' i length_oa_contents[of i] length_oa_contents[of i'] length_remove1[of x "oa_contents i"]
      length_pos_if_in_set[of x "oa_contents i"]
    by (auto simp: oa_usable_def)
  then show "\<exists>i'. remove_ordered_array_item x i = Some i' \<and> oa_usable i' \<and> oa_room i' = Suc (oa_room i) \<and>
      mset (oa_contents i') = mset (oa_contents i) - {#x#}"
    using i' i by (auto simp: oa_usable_def oa_room_def oa_ok_def mset_remove1)
qed (auto simp: oa_usable_def lookup_ordered_array_eq)

end
