(* ===== verification/Kmem.thy ===== *)
theory Kmem
  imports Prelude
begin

text \<open>
  Byte-addressed memory.  The heap of the kernel keeps its headers and footers at arbitrary
  (not even word-aligned) addresses inside the memory it hands out, so its model works on bytes:
  a 32-bit load or store touches four consecutive bytes, least significant byte first.
\<close>

type_synonym mem = "nat \<Rightarrow> 8 word"

subsection \<open>Loads and stores\<close>

definition ld8 :: "mem \<Rightarrow> nat \<Rightarrow> nat" where
  "ld8 m a = unat (m a)"

definition st8 :: "mem \<Rightarrow> nat \<Rightarrow> nat \<Rightarrow> mem" where
  "st8 m a v = m(a := word_of_nat v)"

definition ld32 :: "mem \<Rightarrow> nat \<Rightarrow> nat" where
  "ld32 m a = ld8 m a + 256 * ld8 m (a + 1) + 65536 * ld8 m (a + 2) + 16777216 * ld8 m (a + 3)"

definition st32 :: "mem \<Rightarrow> nat \<Rightarrow> nat \<Rightarrow> mem" where
  "st32 m a v = st8 (st8 (st8 (st8 m a v) (a + 1) (v div 256)) (a + 2) (v div 65536)) (a + 3) (v div 16777216)"

text \<open>\<open>memcpy\<close> of \<open>src/lib/memcpy.s\<close>: a forward copy.\<close>

primrec memcpy :: "mem \<Rightarrow> nat \<Rightarrow> nat \<Rightarrow> nat \<Rightarrow> mem" where
  "memcpy m dst src 0 = m"
| "memcpy m dst src (Suc n) = memcpy (m(dst := m src)) (dst + 1) (src + 1) n"

subsection \<open>Laws\<close>

lemma ld8_less [simp]: "ld8 m a < 256"
  using unsigned_less[of "m a"] by (simp add: ld8_def)

lemma ld8_st8: "ld8 (st8 m a v) b = (if a = b then v mod 256 else ld8 m b)"
  by (simp add: ld8_def st8_def unat_of_nat)

lemma ld8_st32_other: "b < a \<or> a + 4 \<le> b \<Longrightarrow> ld8 (st32 m a v) b = ld8 m b"
  by (auto simp: st32_def ld8_st8)

lemma ld32_less [simp]: "ld32 m a < W32"
  using ld8_less[of m a] ld8_less[of m "a + 1"] ld8_less[of m "a + 2"] ld8_less[of m "a + 3"]
  unfolding ld32_def by linarith

lemma bytes_of_u32:
  fixes v :: nat
  assumes "v < W32"
  shows "v mod 256 + 256 * (v div 256 mod 256) + 65536 * (v div 65536 mod 256)
    + 16777216 * (v div 16777216 mod 256) = v"
proof -
  have a: "v div 65536 = v div 256 div 256" "v div 16777216 = v div 256 div 256 div 256"
    by (simp_all add: div_mult2_eq[symmetric])
  have "v div 256 div 256 div 256 < 256" using assms by (simp add: div_mult2_eq[symmetric])
  then have "v div 256 div 256 div 256 mod 256 = v div 256 div 256 div 256" by simp
  then show ?thesis unfolding a
    using div_mult_mod_eq[of v 256] div_mult_mod_eq[of "v div 256" 256]
      div_mult_mod_eq[of "v div 256 div 256" 256] by linarith
qed

lemma ld32_st32_same [simp]: "v < W32 \<Longrightarrow> ld32 (st32 m a v) a = v"
  using bytes_of_u32[of v] by (simp add: ld32_def st32_def ld8_st8)

lemma ld32_st32_other: "b + 4 \<le> a \<or> a + 4 \<le> b \<Longrightarrow> ld32 (st32 m a v) b = ld32 m b"
  by (auto simp: ld32_def ld8_st32_other)

lemma ld32_st8_other: "b + 4 \<le> a \<or> a < b \<Longrightarrow> ld32 (st8 m a v) b = ld32 m b"
  by (auto simp: ld32_def ld8_st8)

lemma st8_apply_other: "b \<noteq> a \<Longrightarrow> st8 m a v b = m b"
  by (simp add: st8_def)

lemma st32_apply_other: "b < a \<or> a + 4 \<le> b \<Longrightarrow> st32 m a v b = m b"
  by (auto simp: st32_def st8_def)

lemma loads:
  "b + 4 \<le> a \<Longrightarrow> ld32 (st32 m a v) b = ld32 m b"
  "a + 4 \<le> b \<Longrightarrow> ld32 (st32 m a v) b = ld32 m b"
  "b + 4 \<le> a \<Longrightarrow> ld32 (st8 m a w) b = ld32 m b"
  "a < b \<Longrightarrow> ld32 (st8 m a w) b = ld32 m b"
  "b < a \<Longrightarrow> ld8 (st32 m a v) b = ld8 m b"
  "a + 4 \<le> b \<Longrightarrow> ld8 (st32 m a v) b = ld8 m b"
  "b < a \<Longrightarrow> ld8 (st8 m a w) b = ld8 m b"
  "a < b \<Longrightarrow> ld8 (st8 m a w) b = ld8 m b"
  "ld8 (st8 m a w) a = w mod 256"
  "b < a \<Longrightarrow> st32 m a v b = m b"
  "a + 4 \<le> b \<Longrightarrow> st32 m a v b = m b"
  "b < a \<Longrightarrow> st8 m a w b = m b"
  "a < b \<Longrightarrow> st8 m a w b = m b"
  by (simp_all add: ld32_st32_other ld32_st8_other ld8_st32_other ld8_st8 st32_apply_other st8_apply_other)

lemma ld32_cong: "(\<And>i. a \<le> i \<Longrightarrow> i < a + 4 \<Longrightarrow> m i = m' i) \<Longrightarrow> ld32 m a = ld32 m' a"
  by (simp add: ld32_def ld8_def)

text \<open>A forward copy to a higher address keeps the first \<open>dst - src\<close> bytes right even when the
  two ranges overlap.\<close>

lemma memcpy_outside:
  "b < dst \<or> dst + n \<le> b \<Longrightarrow> memcpy m dst src n b = m b"
  by (induction n arbitrary: m dst src) auto

lemma memcpy_forward:
  "src + k \<le> dst \<Longrightarrow> k \<le> n \<Longrightarrow> i < k \<Longrightarrow> memcpy m dst src n (dst + i) = m (src + i)"
proof (induction n arbitrary: m dst src k i)
  case (Suc n)
  show ?case
  proof (cases i)
    case 0
    then show ?thesis by (simp add: memcpy_outside)
  next
    case (Suc j)
    then have "memcpy (m(dst := m src)) (dst + 1) (src + 1) n ((dst + 1) + j) = (m(dst := m src)) ((src + 1) + j)"
      using Suc.prems by (intro Suc.IH[of _ "k - 1"]) auto
    then show ?thesis using Suc Suc.prems by auto
  qed
qed simp

lemma memcpy_disjoint:
  "(\<And>j. j < k \<Longrightarrow> src + j < dst \<or> dst + n \<le> src + j) \<Longrightarrow> k \<le> n \<Longrightarrow> i < k \<Longrightarrow> memcpy m dst src n (dst + i) = m (src + i)"
proof (induction n arbitrary: m dst src k i)
  case (Suc n)
  show ?case
  proof (cases i)
    case 0
    then show ?thesis by (simp add: memcpy_outside)
  next
    case (Suc j)
    have "memcpy (m(dst := m src)) (dst + 1) (src + 1) n ((dst + 1) + j) = (m(dst := m src)) ((src + 1) + j)"
    proof (rule Suc.IH[of "k - 1"])
      fix l assume "l < k - 1"
      then have "src + Suc l < dst \<or> dst + Suc n \<le> src + Suc l" by (intro Suc.prems(1)) simp
      then show "src + 1 + l < dst + 1 \<or> dst + 1 + n \<le> src + 1 + l" by auto
    qed (use Suc Suc.prems(2,3) in auto)
    then show ?thesis using Suc Suc.prems(1)[of i] Suc.prems(3) by auto
  qed
qed simp

end
