(* ===== verification/Heap.thy ===== *)
theory Heap
  imports Ordered_Array Kmem
begin

text \<open>
  The kernel heap of \<open>src/kernel/heap.c\<close> and \<open>src/include/kernel/heap.h\<close>.  Every area starts with
  a 12-byte header (size, type, magic) and ends with an 8-byte footer (magic, header pointer); both
  live in the byte memory \<open>kmem\<close>.  Two ordered arrays index the free and the used areas.  The
  index arrays occupy memory below \<open>start_address\<close>, which no area overlaps; they are kept as
  lists in the record.

  The kernel creates exactly one heap, \<open>kheap\<close> (\<open>init_paging\<close> in \<open>src/kernel/vmm.c\<close>), so the
  conditionals on \<open>heap == kheap\<close> are modelled by their \<open>kheap\<close> branch.  The functions run with
  interrupts disabled; console and serial output is left out, and so is the back trace that the
  leak tracer stores.  The calls into the virtual memory manager go through \<open>vm_ops\<close>.
\<close>

subsection \<open>Data\<close>

abbreviation (input) HEAP_MAGIC :: nat where "HEAP_MAGIC \<equiv> 2882400018"
abbreviation (input) AREA_USED :: nat where "AREA_USED \<equiv> 0"
abbreviation (input) AREA_FREE :: nat where "AREA_FREE \<equiv> 1"
abbreviation (input) PAGE_SIZE :: nat where "PAGE_SIZE \<equiv> 4096"
abbreviation (input) HEAP_INDEX_SIZE :: nat where "HEAP_INDEX_SIZE \<equiv> 65536"
abbreviation (input) KHEAP_START :: nat where "KHEAP_START \<equiv> 3221225472"
abbreviation (input) KHEAP_MAX_ADDR :: nat where "KHEAP_MAX_ADDR \<equiv> 3489656832"
abbreviation (input) KHEAP_INITIAL_SIZE :: nat where "KHEAP_INITIAL_SIZE \<equiv> 589824"
abbreviation (input) KHEAP_MIN_GROWTH :: nat where "KHEAP_MIN_GROWTH \<equiv> 32768"
abbreviation (input) KHEAP_MAX_WASTE :: nat where "KHEAP_MAX_WASTE \<equiv> 1179648"
abbreviation (input) sizeof_heap_t :: nat where "sizeof_heap_t \<equiv> 60"
abbreviation (input) sizeof_page_directory_t :: nat where "sizeof_page_directory_t \<equiv> 8196"
abbreviation (input) sizeof_leak_info :: nat where "sizeof_leak_info \<equiv> 108"
abbreviation (input) MAX_TRACED_ALLOCATIONS :: nat where "MAX_TRACED_ALLOCATIONS \<equiv> 1024"

record heap_t =
  start_address :: nat
  end_address :: nat
  min_address :: nat
  max_address :: nat
  supervisor :: bool
  readonly :: bool
  free_index :: "mem ordered_array_t"
  used_index :: "mem ordered_array_t"
  rightmost_area :: nat

record leak_info =
  li_allocation :: nat
  li_allocator_pid :: nat
  li_allocator_name :: string
  li_size :: nat

record 'v vm_ops =
  vmo_alloc_kernel :: "nat \<Rightarrow> nat \<Rightarrow> bool \<Rightarrow> mem \<times> 'v \<Rightarrow> (mem \<times> 'v) option"
  vmo_free :: "nat \<Rightarrow> mem \<times> 'v \<Rightarrow> (mem \<times> 'v) option"
  vmo_get_phys :: "nat \<Rightarrow> 'v \<Rightarrow> nat option"

record 'v kst =
  kmem :: mem
  kheap :: heap_t
  kheap_set :: bool
  placement_address :: nat
  leak :: "(nat \<times> leak_info list) option"
  task_id :: nat
  task_name :: string
  vm :: 'v

definition hdr_size :: "mem \<Rightarrow> nat \<Rightarrow> nat" where "hdr_size m h = ld32 m h"
definition hdr_type :: "mem \<Rightarrow> nat \<Rightarrow> nat" where "hdr_type m h = ld8 m (h + 4)"
definition hdr_magic :: "mem \<Rightarrow> nat \<Rightarrow> nat" where "hdr_magic m h = ld32 m (h + 8)"
definition ftr_magic :: "mem \<Rightarrow> nat \<Rightarrow> nat" where "ftr_magic m f = ld32 m f"
definition ftr_header :: "mem \<Rightarrow> nat \<Rightarrow> nat" where "ftr_header m f = ld32 m (f + 4)"

definition set_hdr_size :: "nat \<Rightarrow> nat \<Rightarrow> mem \<Rightarrow> mem" where "set_hdr_size h v m = st32 m h v"
definition set_hdr_type :: "nat \<Rightarrow> nat \<Rightarrow> mem \<Rightarrow> mem" where "set_hdr_type h v m = st8 m (h + 4) v"
definition set_hdr_magic :: "nat \<Rightarrow> nat \<Rightarrow> mem \<Rightarrow> mem" where "set_hdr_magic h v m = st32 m (h + 8) v"
definition set_ftr_magic :: "nat \<Rightarrow> nat \<Rightarrow> mem \<Rightarrow> mem" where "set_ftr_magic f v m = st32 m f v"
definition set_ftr_header :: "nat \<Rightarrow> nat \<Rightarrow> mem \<Rightarrow> mem" where "set_ftr_header f v m = st32 m (f + 4) v"

definition FOOTER_FROM_HEADER :: "mem \<Rightarrow> nat \<Rightarrow> nat" where
  "FOOTER_FROM_HEADER m h = sub32 (add32 h (hdr_size m h)) 8"

definition IS_PAGE_ALIGNED :: "nat \<Rightarrow> bool" where
  "IS_PAGE_ALIGNED x \<longleftrightarrow> x mod PAGE_SIZE = 0"

definition area_header_t_less_than :: "mem \<Rightarrow> nat \<Rightarrow> nat \<Rightarrow> bool" where
  "area_header_t_less_than m a b = (hdr_size m a < hdr_size m b)"

subsection \<open>Areas\<close>

definition do_asserts_for_index ::
  "mem \<Rightarrow> mem ordered_array_t \<Rightarrow> nat \<Rightarrow> nat \<Rightarrow> nat \<Rightarrow> unit option" where
  "do_asserts_for_index m index header_to_create footer_to_create sz = do {
     assertK (header_to_create \<noteq> 0);
     assertK (footer_to_create \<noteq> 0);
     assertK (sz > 20);
     foreach (\<lambda>i u. do {
       found_header \<leftarrow> lookup_ordered_array i index;
       let found_footer = FOOTER_FROM_HEADER m found_header;
       assertK (found_header \<noteq> header_to_create);
       assertK (found_footer \<noteq> footer_to_create);
       assertK (found_header \<noteq> footer_to_create);
       assertK (found_footer \<noteq> header_to_create);
       assertK (hdr_magic m found_header = HEAP_MAGIC);
       assertK (ftr_magic m found_footer = HEAP_MAGIC);
       assertK (ftr_header m found_footer = found_header);
       if header_to_create < found_header then assertK (add32 header_to_create sz \<le> found_header)
       else if header_to_create > found_header then
         assertK (add32 found_header (hdr_size m found_header) \<le> header_to_create)
       else Some () }) [0..<oa_size index] () }"

definition create_area :: "nat \<Rightarrow> nat \<Rightarrow> nat \<Rightarrow> 'v kst \<Rightarrow> (nat \<times> 'v kst) option" where
  "create_area address sz type st = (let heap = kheap st in do {
     assertK (type = AREA_USED \<or> type = AREA_FREE);
     assertK (sz > 20);
     assertK (address \<ge> start_address heap \<and> add32 address sz \<le> end_address heap);
     let header_to_create = address;
     let footer_to_create = sub32 (add32 address sz) 8;
     do_asserts_for_index (kmem st) (free_index heap) header_to_create footer_to_create sz;
     do_asserts_for_index (kmem st) (used_index heap) header_to_create footer_to_create sz;
     let m1 = set_hdr_type header_to_create type (set_hdr_magic header_to_create HEAP_MAGIC
                (set_hdr_size header_to_create sz (kmem st)));
     let m2 = set_ftr_header footer_to_create header_to_create
                (set_ftr_magic footer_to_create HEAP_MAGIC m1);
     let heap' = (if header_to_create > rightmost_area heap
                  then heap\<lparr> rightmost_area := header_to_create \<rparr> else heap);
     Some (header_to_create, st\<lparr> kmem := m2, kheap := heap' \<rparr>) })"

definition page_offset :: "nat \<Rightarrow> nat" where
  "page_offset location =
    (if IS_PAGE_ALIGNED (add32 location 12) then 0 else PAGE_SIZE - add32 location 12 mod PAGE_SIZE)"

fun hole_scan :: "mem \<Rightarrow> mem ordered_array_t \<Rightarrow> nat \<Rightarrow> bool \<Rightarrow> nat list \<Rightarrow> nat option" where
  "hole_scan m index sz page_align [] = Some 0"
| "hole_scan m index sz page_align (i # is) = do {
     header \<leftarrow> lookup_ordered_array i index;
     assertK (hdr_magic m header = HEAP_MAGIC);
     assertK (hdr_type m header = AREA_FREE);
     assertK (ftr_magic m (FOOTER_FROM_HEADER m header) = HEAP_MAGIC);
     assertK (ftr_header m (FOOTER_FROM_HEADER m header) = header);
     if hdr_size m header \<ge> sz \<and>
        (page_align \<longrightarrow> s32 (hdr_size m header) - s32 (page_offset header) \<ge> s32 sz)
     then Some header
     else hole_scan m index sz page_align is }"

text \<open>\<open>NULL\<close> is the address 0.\<close>

definition find_smallest_hole :: "nat \<Rightarrow> bool \<Rightarrow> 'v kst \<Rightarrow> nat option" where
  "find_smallest_hole sz page_align st =
     hole_scan (kmem st) (free_index (kheap st)) sz page_align [0..<oa_size (free_index (kheap st))]"

subsection \<open>Growing and shrinking the heap\<close>

definition expand_size :: "nat \<Rightarrow> nat" where
  "expand_size size_to_add =
    (let s1 = (if size_to_add < KHEAP_MIN_GROWTH then KHEAP_MIN_GROWTH else size_to_add)
     in if s1 mod PAGE_SIZE \<noteq> 0 then add32 (s1 - s1 mod PAGE_SIZE) PAGE_SIZE else s1)"

definition heap_expand :: "'v vm_ops \<Rightarrow> nat \<Rightarrow> 'v kst \<Rightarrow> 'v kst option" where
  "heap_expand ops size_to_add st = (let heap = kheap st in do {
     let s2 = expand_size size_to_add;
     let s3 = (if add32 (start_address heap) s2 > max_address heap
               then sub32 (sub32 (max_address heap) (start_address heap))
                          (sub32 (end_address heap) (start_address heap))
               else s2);
     assertK (add32 (start_address heap) s3 \<le> max_address heap);
     assertK (add32 (start_address heap) s3 > start_address heap);
     let new_end0 = add32 (end_address heap) s3;
     let new_end = (if IS_PAGE_ALIGNED new_end0 then new_end0 else new_end0 - new_end0 mod PAGE_SIZE);
     let s4 = (if IS_PAGE_ALIGNED new_end0 then s3
               else sub32 s3 (sub32 (add32 (end_address heap) s3) new_end));
     assertK (IS_PAGE_ALIGNED (start_address heap));
     assertK (IS_PAGE_ALIGNED new_end);
     assertK (add32 (end_address heap) s4 = new_end);
     assertK (new_end > end_address heap);
     (m', v') \<leftarrow> vmo_alloc_kernel ops (add32 (end_address heap) PAGE_SIZE) (add32 new_end PAGE_SIZE)
                   (\<not> readonly heap) (kmem st, vm st);
     Some (st\<lparr> kmem := m', vm := v', kheap := heap\<lparr> end_address := new_end \<rparr> \<rparr>) })"

partial_function (option) free_pages ::
  "'v vm_ops \<Rightarrow> nat \<Rightarrow> nat \<Rightarrow> mem \<times> 'v \<Rightarrow> (mem \<times> 'v) option" where
  "free_pages ops addr new_end mv =
    (if addr > new_end
     then do { mv' \<leftarrow> vmo_free ops addr mv; free_pages ops (sub32 addr PAGE_SIZE) new_end mv' }
     else Some mv)"

definition heap_contract :: "'v vm_ops \<Rightarrow> nat \<Rightarrow> 'v kst \<Rightarrow> 'v kst option" where
  "heap_contract ops bytes_to_shrink st = (let heap = kheap st in
     if bytes_to_shrink < 512 * 1024 then Some st else do {
     let old_size = sub32 (end_address heap) (start_address heap);
     let new_size0 = sub32 old_size bytes_to_shrink;
     let new_size = (if new_size0 < KHEAP_INITIAL_SIZE then KHEAP_INITIAL_SIZE else new_size0);
     let ne0 = add32 (start_address heap) new_size;
     let new_end = (if IS_PAGE_ALIGNED ne0 then ne0 else add32 (ne0 - ne0 mod PAGE_SIZE) PAGE_SIZE);
     foreach (\<lambda>i u. do {
       found_header \<leftarrow> lookup_ordered_array i (used_index heap);
       assertK (\<not> add32 found_header (hdr_size (kmem st) found_header) > new_end) })
       [0..<oa_size (used_index heap)] ();
     assertK (IS_PAGE_ALIGNED new_end);
     (m', v') \<leftarrow> free_pages ops (end_address heap) new_end (kmem st, vm st);
     Some (st\<lparr> kmem := m', vm := v', kheap := heap\<lparr> end_address := new_end \<rparr> \<rparr>) })"

subsection \<open>Allocation\<close>

definition insert_free :: "nat \<Rightarrow> 'v kst \<Rightarrow> 'v kst option" where
  "insert_free x st = do {
     i \<leftarrow> insert_ordered_array (kmem st) x (free_index (kheap st));
     Some (st\<lparr> kheap := (kheap st)\<lparr> free_index := i \<rparr> \<rparr>) }"

definition insert_used :: "nat \<Rightarrow> 'v kst \<Rightarrow> 'v kst option" where
  "insert_used x st = do {
     i \<leftarrow> insert_ordered_array (kmem st) x (used_index (kheap st));
     Some (st\<lparr> kheap := (kheap st)\<lparr> used_index := i \<rparr> \<rparr>) }"

definition remove_free :: "nat \<Rightarrow> 'v kst \<Rightarrow> 'v kst option" where
  "remove_free x st = do {
     i \<leftarrow> remove_ordered_array_item x (free_index (kheap st));
     Some (st\<lparr> kheap := (kheap st)\<lparr> free_index := i \<rparr> \<rparr>) }"

definition remove_used :: "nat \<Rightarrow> 'v kst \<Rightarrow> 'v kst option" where
  "remove_used x st = do {
     i \<leftarrow> remove_ordered_array_item x (used_index (kheap st));
     Some (st\<lparr> kheap := (kheap st)\<lparr> used_index := i \<rparr> \<rparr>) }"

text \<open>A new footer for the area whose header is \<open>h\<close>, at the place its size gives.\<close>

definition write_footer :: "nat \<Rightarrow> mem \<Rightarrow> mem" where
  "write_footer h m = (let f = FOOTER_FROM_HEADER m h in set_ftr_header f h (set_ftr_magic f HEAP_MAGIC m))"

text \<open>The branch of \<open>heap_alloc\<close> that runs when no hole is big enough, up to the retry.\<close>

definition heap_grow :: "'v vm_ops \<Rightarrow> nat \<Rightarrow> 'v kst \<Rightarrow> 'v kst option" where
  "heap_grow ops sz st = do {
     let old_heap_size = sub32 (end_address (kheap st)) (start_address (kheap st));
     st1 \<leftarrow> heap_expand ops sz st;
     let new_heap_size = sub32 (end_address (kheap st1)) (start_address (kheap st1));
     let r = rightmost_area (kheap st1);
     let m = kmem st1;
     if r \<noteq> 0 \<and> hdr_type m r = AREA_FREE then do {
       let m1 = set_ftr_magic (FOOTER_FROM_HEADER m r) 0 m;
       let m2 = set_hdr_size r (add32 (hdr_size m1 r) (sub32 new_heap_size old_heap_size)) m1;
       Some (st1\<lparr> kmem := write_footer r m2 \<rparr>) }
     else do {
       assertK (r \<noteq> 0);
       assertK (hdr_type m r = AREA_USED);
       let new_header = add32 r (hdr_size m r);
       (h, st2) \<leftarrow> create_area new_header (sub32 new_heap_size old_heap_size) AREA_FREE st1;
       insert_free new_header st2 } }"

text \<open>The page alignment of the chosen hole; the result is the address of the area to use.\<close>

definition alloc_align :: "nat \<Rightarrow> nat \<Rightarrow> 'v kst \<Rightarrow> (nat \<times> 'v kst) option" where
  "alloc_align sz area st = (let m = kmem st; offset = page_offset area; cached_size = hdr_size m area in do {
     assertK (hdr_size m area > offset);
     assertK (sub32 (hdr_size m area) offset \<ge> sz);
     st1 \<leftarrow> (if offset > 20 then do {
               (h, st0) \<leftarrow> create_area area offset AREA_FREE st;
               insert_free area st0 }
             else (let test_footer = sub32 area 8; test_header = ftr_header m test_footer in
               if ftr_magic m test_footer = HEAP_MAGIC \<and> hdr_magic m test_header = HEAP_MAGIC
               then (let m1 = set_ftr_magic test_footer 0 m;
                         m2 = set_hdr_size test_header (add32 (hdr_size m1 test_header) offset) m1
                     in Some (st\<lparr> kmem := write_footer test_header m2 \<rparr>))
               else Some st));
     let area' = add32 area offset;
     let st2 = st1\<lparr> kmem := set_hdr_size area' (sub32 cached_size offset) (kmem st1) \<rparr>;
     assertK (IS_PAGE_ALIGNED (add32 area' 12));
     assertK (hdr_size (kmem st2) area' \<ge> sz);
     Some (area', st2) })"

fun trace_slot :: "leak_info list \<Rightarrow> nat \<Rightarrow> string \<Rightarrow> nat \<Rightarrow> nat \<Rightarrow> leak_info list option" where
  "trace_slot [] pid name p sz = None"
| "trace_slot (e # es) pid name p sz =
    (if li_allocation e = 0
     then do {
       assertK (li_allocator_pid e = 0);
       Some (\<lparr> li_allocation = p, li_allocator_pid = pid, li_allocator_name = take 31 name, li_size = sz \<rparr> # es) }
     else do { es' \<leftarrow> trace_slot es pid name p sz; Some (e # es') })"

definition trace_alloc :: "nat \<Rightarrow> nat \<Rightarrow> 'v kst \<Rightarrow> 'v kst option" where
  "trace_alloc p sz st = (case leak st of
      None \<Rightarrow> Some st
    | Some (l, es) \<Rightarrow> do {
        es' \<leftarrow> trace_slot es (task_id st) (task_name st) p sz;
        Some (st\<lparr> leak := Some (l, es') \<rparr>) })"

definition dword_align :: "nat \<Rightarrow> nat" where
  "dword_align a = (if a mod 4 \<noteq> 0 then add32 (a - a mod 4) 4 else a)"

text \<open>The rest of \<open>heap_alloc\<close>: split off what is left over, write the area, index and trace it.\<close>

definition alloc_finish :: "nat \<Rightarrow> nat \<Rightarrow> 'v kst \<Rightarrow> (nat \<times> 'v kst) option" where
  "alloc_finish sz area st = (let asize = hdr_size (kmem st) area in do {
     (sz', st1) \<leftarrow> (if sub32 asize sz \<ge> 16 + 20 then do {
                   let free_space_header = add32 area sz;
                   (h, st0) \<leftarrow> create_area free_space_header (sub32 asize sz) AREA_FREE st;
                   st0' \<leftarrow> insert_free free_space_header st0;
                   Some (sz, st0') }
                 else Some (add32 sz (sub32 asize sz), st));
     (h, st2) \<leftarrow> create_area area sz' AREA_USED st1;
     st3 \<leftarrow> insert_used area st2;
     let ret = dword_align (add32 area 12);
     st4 \<leftarrow> trace_alloc ret sz' st3;
     Some (ret, st4) })"

definition alloc_in_hole :: "nat \<Rightarrow> bool \<Rightarrow> nat \<Rightarrow> 'v kst \<Rightarrow> (nat \<times> 'v kst) option" where
  "alloc_in_hole sz page_align area st = do {
     st1 \<leftarrow> remove_free area st;
     (area', st2) \<leftarrow> (if page_align \<and> \<not> IS_PAGE_ALIGNED (add32 area 12) then alloc_align sz area st1
                     else Some (area, st1));
     alloc_finish sz area' st2 }"

lemma heap_expand_end:
  "heap_expand ops sz st = Some st' \<Longrightarrow>
   end_address (kheap st) < end_address (kheap st') \<and> end_address (kheap st') < W32"
proof -
  assume a: "heap_expand ops sz st = Some st'"
  have b: "x - x mod PAGE_SIZE < W32" if "x < W32" for x :: nat
    using that by simp
  show ?thesis using a
    by (auto simp: heap_expand_def Let_def bind_eq_Some_conv b split: if_split_asm intro: b)
qed

lemma create_area_end:
  "create_area a sz t st = Some (h, st') \<Longrightarrow> end_address (kheap st') = end_address (kheap st)"
  by (auto simp: create_area_def Let_def bind_eq_Some_conv split: if_split_asm)

lemma heap_grow_end:
  "heap_grow ops sz st = Some st' \<Longrightarrow>
   end_address (kheap st) < end_address (kheap st') \<and> end_address (kheap st') < W32"
  by (auto simp: heap_grow_def insert_free_def Let_def bind_eq_Some_conv
      dest!: heap_expand_end create_area_end split: if_split_asm)

function heap_alloc :: "'v vm_ops \<Rightarrow> nat \<Rightarrow> bool \<Rightarrow> 'v kst \<Rightarrow> (nat \<times> 'v kst) option" where
  "heap_alloc ops sz0 page_align st = (let sz = (if page_align then add32 sz0 20 else add32 (add32 sz0 20) 3) in do {
     area \<leftarrow> find_smallest_hole sz page_align st;
     if area = 0 then do {
       st' \<leftarrow> heap_grow ops sz st;
       heap_alloc ops sz page_align st' }
     else alloc_in_hole sz page_align area st })"
  by pat_completeness auto
termination
  by (relation "measure (\<lambda>(ops, sz, pa, st). W32 - end_address (kheap st))")
    (auto dest!: heap_grow_end)

declare heap_alloc.simps [simp del]

subsection \<open>Freeing\<close>

text \<open>The search for the header below a pointer.  The counter that is meant to bound the loop is
  never incremented, so the loop runs until it meets a magic number.\<close>

partial_function (option) find_header :: "mem \<Rightarrow> nat \<Rightarrow> nat option" where
  "find_header m h = (if hdr_magic m h \<noteq> HEAP_MAGIC then find_header m (sub32 h 1) else Some h)"

text \<open>The outer option is the panic or failed assertion, the inner one the result \<open>false\<close>.\<close>

definition find_area_and_validate :: "nat \<Rightarrow> 'v kst \<Rightarrow> (nat \<times> nat) option option" where
  "find_area_and_validate p st =
    (if p > max_address (kheap st) \<or> p < start_address (kheap st) then Some None
     else do {
       header \<leftarrow> find_header (kmem st) (sub32 p 12);
       let footer = FOOTER_FROM_HEADER (kmem st) header;
       assertK (hdr_magic (kmem st) header = HEAP_MAGIC);
       assertK (hdr_type (kmem st) header = AREA_USED);
       assertK (ftr_magic (kmem st) footer = HEAP_MAGIC);
       assertK (ftr_header (kmem st) footer = header);
       Some (Some (header, footer)) })"

fun untrace_slot :: "leak_info list \<Rightarrow> nat \<Rightarrow> leak_info list option" where
  "untrace_slot [] p = Some []"
| "untrace_slot (e # es) p =
    (if li_allocation e = p
     then do {
       assertK (li_allocator_pid e \<noteq> 0);
       Some (\<lparr> li_allocation = 0, li_allocator_pid = 0, li_allocator_name = [], li_size = 0 \<rparr> # es) }
     else do { es' \<leftarrow> untrace_slot es p; Some (e # es') })"

definition trace_free :: "nat \<Rightarrow> 'v kst \<Rightarrow> 'v kst option" where
  "trace_free p st = (case leak st of
      None \<Rightarrow> Some st
    | Some (l, es) \<Rightarrow> do { es' \<leftarrow> untrace_slot es p; Some (st\<lparr> leak := Some (l, es') \<rparr>) })"

text \<open>Both merges return the header of the resulting area, its footer and the new value of
  \<open>add_to_index\<close>.\<close>

definition unify_left :: "nat \<Rightarrow> nat \<Rightarrow> 'v kst \<Rightarrow> (nat \<times> bool \<times> 'v kst) option" where
  "unify_left header footer st = (let m = kmem st; left_area_footer = sub32 header 8;
       left_area_header = ftr_header m left_area_footer in
     if left_area_footer \<ge> start_address (kheap st) \<and> ftr_magic m left_area_footer = HEAP_MAGIC \<and>
        hdr_magic m left_area_header = HEAP_MAGIC \<and> hdr_type m left_area_header = AREA_FREE
     then do {
       let m1 = set_hdr_size left_area_header (add32 (hdr_size m left_area_header) (hdr_size m header)) m;
       assertK (FOOTER_FROM_HEADER m1 left_area_header = footer);
       let m2 = set_ftr_magic left_area_footer 0 (set_hdr_magic header 0
                  (set_ftr_header footer left_area_header m1));
       let heap' = (if header = rightmost_area (kheap st)
                    then (kheap st)\<lparr> rightmost_area := left_area_header \<rparr> else kheap st);
       Some (left_area_header, False, st\<lparr> kmem := m2, kheap := heap' \<rparr>) }
     else Some (header, True, st))"

definition unify_right :: "nat \<Rightarrow> nat \<Rightarrow> 'v kst \<Rightarrow> 'v kst option" where
  "unify_right header footer st = (let m = kmem st; right_area_header = add32 footer 8;
       right_area_footer = FOOTER_FROM_HEADER m right_area_header in
     if hdr_magic m right_area_header = HEAP_MAGIC \<and> hdr_type m right_area_header = AREA_FREE \<and>
        ftr_magic m right_area_footer = HEAP_MAGIC \<and> ftr_header m right_area_footer = right_area_header
     then do {
       st1 \<leftarrow> remove_free right_area_header st;
       let m1 = set_hdr_size header (add32 (hdr_size m header) (hdr_size m right_area_header)) m;
       let m2 = set_hdr_magic right_area_header 0 (set_ftr_magic footer 0 m1);
       let heap' = (if rightmost_area (kheap st1) = right_area_header
                    then (kheap st1)\<lparr> rightmost_area := header \<rparr> else kheap st1);
       assertK (right_area_footer = FOOTER_FROM_HEADER m2 header);
       Some (st1\<lparr> kmem := set_hdr_type header AREA_FREE (set_ftr_header right_area_footer header m2),
                  kheap := heap' \<rparr>) }
     else Some st)"

definition shrink_tail :: "'v vm_ops \<Rightarrow> 'v kst \<Rightarrow> 'v kst option" where
  "shrink_tail ops st = (let m = kmem st; r = rightmost_area (kheap st) in
     if hdr_type m r = AREA_FREE \<and> hdr_size m r \<ge> KHEAP_MAX_WASTE
     then do {
       let f = FOOTER_FROM_HEADER m r;
       assertK (hdr_magic m r = HEAP_MAGIC);
       assertK (ftr_magic m f = HEAP_MAGIC);
       assertK (ftr_header m f = r);
       let bytes_to_shrink = sub32 (hdr_size m r) 1048576;
       let old_heap_size = sub32 (end_address (kheap st)) (start_address (kheap st));
       st1 \<leftarrow> heap_contract ops bytes_to_shrink st;
       let new_heap_size = sub32 (end_address (kheap st1)) (start_address (kheap st1));
       let bytes_shrunk = sub32 old_heap_size new_heap_size;
       if bytes_shrunk > 0
       then (let m1 = set_hdr_size r (sub32 (hdr_size (kmem st1) r) bytes_shrunk) (kmem st1)
             in Some (st1\<lparr> kmem := write_footer r m1 \<rparr>))
       else Some st1 }
     else Some st)"

definition heap_free :: "'v vm_ops \<Rightarrow> nat \<Rightarrow> 'v kst \<Rightarrow> 'v kst option" where
  "heap_free ops p st = (if p = 0 then Some st else do {
     r \<leftarrow> find_area_and_validate p st;
     (case r of
        None \<Rightarrow> Some st
      | Some (header, footer) \<Rightarrow> do {
          st1 \<leftarrow> trace_free p st;
          st2 \<leftarrow> remove_used header st1;
          let st3 = st2\<lparr> kmem := set_hdr_type header AREA_FREE (kmem st2) \<rparr>;
          (header', add_to_index, st4) \<leftarrow> unify_left header footer st3;
          st5 \<leftarrow> unify_right header' footer st4;
          st6 \<leftarrow> (if add_to_index then insert_free header' st5 else Some st5);
          shrink_tail ops st6 }) })"

subsection \<open>Creation and the kernel's entry points\<close>

definition kmalloc_int :: "'v vm_ops \<Rightarrow> nat \<Rightarrow> bool \<Rightarrow> bool \<Rightarrow> 'v kst \<Rightarrow> (nat \<times> nat option \<times> 'v kst) option" where
  "kmalloc_int ops sz align want_phys st =
    (if kheap_set st then do {
       (addr, st1) \<leftarrow> heap_alloc ops sz align st;
       phys \<leftarrow> (if want_phys then do {
                  assertK (\<not> (\<not> align \<or> (align \<and> sz > PAGE_SIZE \<and> sz \<noteq> sizeof_page_directory_t)));
                  ph \<leftarrow> vmo_get_phys ops addr (vm st1);
                  Some (Some ph) }
               else Some None);
       assertK (align \<longrightarrow> IS_PAGE_ALIGNED addr);
       Some (addr, phys, st1) }
     else do {
       let pa = placement_address st;
       let pa1 = (if align \<and> \<not> IS_PAGE_ALIGNED pa then add32 (pa - pa mod PAGE_SIZE) PAGE_SIZE
                  else dword_align pa);
       assertK (pa1 mod 4 = 0);
       assertK (align \<longrightarrow> IS_PAGE_ALIGNED pa1);
       Some (pa1, if want_phys then Some pa1 else None, st\<lparr> placement_address := add32 pa1 sz \<rparr>) })"

definition kmalloc :: "'v vm_ops \<Rightarrow> nat \<Rightarrow> 'v kst \<Rightarrow> (nat \<times> 'v kst) option" where
  "kmalloc ops sz st = map_option (\<lambda>(a, ph, st'). (a, st')) (kmalloc_int ops sz False False st)"

definition kmalloc_a :: "'v vm_ops \<Rightarrow> nat \<Rightarrow> 'v kst \<Rightarrow> (nat \<times> 'v kst) option" where
  "kmalloc_a ops sz st = map_option (\<lambda>(a, ph, st'). (a, st')) (kmalloc_int ops sz True False st)"

definition kmalloc_p :: "'v vm_ops \<Rightarrow> nat \<Rightarrow> 'v kst \<Rightarrow> (nat \<times> nat option \<times> 'v kst) option" where
  "kmalloc_p ops sz st = kmalloc_int ops sz False True st"

definition kmalloc_ap :: "'v vm_ops \<Rightarrow> nat \<Rightarrow> 'v kst \<Rightarrow> (nat \<times> nat option \<times> 'v kst) option" where
  "kmalloc_ap ops sz st = kmalloc_int ops sz True True st"

definition kfree :: "'v vm_ops \<Rightarrow> nat \<Rightarrow> 'v kst \<Rightarrow> 'v kst option" where
  "kfree ops p st = do { assertK (\<not> p \<ge> end_address (kheap st)); heap_free ops p st }"

definition krealloc :: "'v vm_ops \<Rightarrow> nat \<Rightarrow> nat \<Rightarrow> 'v kst \<Rightarrow> (nat \<times> 'v kst) option" where
  "krealloc ops p new_size0 st = (if p = 0 \<or> new_size0 = 0 then Some (0, st) else do {
     r \<leftarrow> find_area_and_validate p st;
     (case r of
        None \<Rightarrow> Some (0, st)
      | Some (header, footer) \<Rightarrow> do {
          assertK (header \<noteq> 0);
          assertK (footer \<noteq> 0);
          let hs = hdr_size (kmem st) header;
          if sub32 hs 23 \<ge> new_size0 then Some (p, st) else do {
            let new_size = (if new_size0 \<le> hs then hs else new_size0);
            (p2, st1) \<leftarrow> kmalloc ops new_size st;
            let st2 = st1\<lparr> kmem := memcpy (kmem st1) p2 p (hdr_size (kmem st1) header) \<rparr>;
            st3 \<leftarrow> kfree ops p st2;
            Some (p2, st3) } }) })"

definition kheap_is_valid :: "nat \<Rightarrow> 'v kst \<Rightarrow> bool option" where
  "kheap_is_valid p st = (if p = 0 then Some False
     else do { r \<leftarrow> find_area_and_validate p st; Some (r \<noteq> None) })"

definition kheap_used_bytes :: "'v kst \<Rightarrow> nat option" where
  "kheap_used_bytes st = (if \<not> kheap_set st then Some 0 else
     foreach (\<lambda>i used. do {
       header \<leftarrow> lookup_ordered_array i (used_index (kheap st));
       Some (add32 used (hdr_size (kmem st) header)) }) [0..<oa_size (used_index (kheap st))] 0)"

definition validate_index :: "mem \<Rightarrow> mem ordered_array_t \<Rightarrow> nat \<Rightarrow> unit option" where
  "validate_index m index type = foreach (\<lambda>i u. do {
     found_header \<leftarrow> lookup_ordered_array i index;
     let found_footer = FOOTER_FROM_HEADER m found_header;
     assertK (hdr_type m found_header = type);
     assertK (hdr_magic m found_header = HEAP_MAGIC);
     assertK (ftr_magic m found_footer = HEAP_MAGIC);
     assertK (ftr_header m found_footer = found_header) }) [0..<oa_size index] ()"

definition validate_heap_index :: "'v kst \<Rightarrow> unit option" where
  "validate_heap_index st = do {
     validate_index (kmem st) (used_index (kheap st)) AREA_USED;
     validate_index (kmem st) (free_index (kheap st)) AREA_FREE }"

text \<open>The leak table is an allocation of its own (the first component of \<open>leak\<close> is its address);
  its entries are kept as a list.  \<open>stop_leak_trace\<close> prints the number of leaks and of leaked bytes,
  which the model returns.\<close>

definition no_leak :: leak_info where
  "no_leak = \<lparr> li_allocation = 0, li_allocator_pid = 0, li_allocator_name = [], li_size = 0 \<rparr>"

definition start_leak_trace :: "'v vm_ops \<Rightarrow> 'v kst \<Rightarrow> 'v kst option" where
  "start_leak_trace ops st = (case leak st of
      Some l \<Rightarrow> Some st
    | None \<Rightarrow> do {
        (p, st1) \<leftarrow> kmalloc ops (sizeof_leak_info * MAX_TRACED_ALLOCATIONS) st;
        Some (st1\<lparr> leak := Some (p, replicate MAX_TRACED_ALLOCATIONS no_leak) \<rparr>) })"

definition stop_leak_trace :: "'v vm_ops \<Rightarrow> 'v kst \<Rightarrow> (nat \<times> nat \<times> 'v kst) option" where
  "stop_leak_trace ops st = (case leak st of
      None \<Rightarrow> Some (0, 0, st)
    | Some (p, es) \<Rightarrow> do {
        let found = filter (\<lambda>e. li_allocation e \<noteq> 0) es;
        st1 \<leftarrow> kfree ops p st;
        Some (length found, foldl (\<lambda>b e. add32 b (li_size e)) 0 found, st1\<lparr> leak := None \<rparr>) })"

definition heap_create :: "'v vm_ops \<Rightarrow> nat \<Rightarrow> nat \<Rightarrow> bool \<Rightarrow> bool \<Rightarrow> 'v kst \<Rightarrow> (nat \<times> 'v kst) option" where
  "heap_create ops initial_size0 max_addr superv ro st0 = do {
     (heap_ptr, st) \<leftarrow> kmalloc_a ops sizeof_heap_t st0;
     assertK (heap_ptr \<noteq> 0);
     (m', v') \<leftarrow> vmo_alloc_kernel ops KHEAP_START (KHEAP_START + KHEAP_INITIAL_SIZE + PAGE_SIZE) True
                   (kmem st, vm st);
     let start1 = add32 (add32 KHEAP_START (HEAP_INDEX_SIZE * 4)) (HEAP_INDEX_SIZE * 4);
     let initial_size = sub32 initial_size0 (HEAP_INDEX_SIZE * 4 * 2);
     let start = (if IS_PAGE_ALIGNED start1 then start1 else add32 (start1 - start1 mod PAGE_SIZE) PAGE_SIZE);
     let end_addr = add32 start initial_size;
     assertK (IS_PAGE_ALIGNED end_addr);
     let footer_to_create = sub32 (add32 start initial_size) 8;
     let m1 = set_hdr_type start AREA_FREE (set_hdr_magic start HEAP_MAGIC (set_hdr_size start initial_size m'));
     let m2 = set_ftr_header footer_to_create start (set_ftr_magic footer_to_create HEAP_MAGIC m1);
     fi \<leftarrow> insert_ordered_array m2 start (place_ordered_array HEAP_INDEX_SIZE (Some area_header_t_less_than));
     Some (heap_ptr, st\<lparr> kmem := m2, vm := v', kheap :=
       \<lparr> start_address = start, end_address = end_addr, min_address = KHEAP_START, max_address = max_addr,
         supervisor = superv, readonly = ro, free_index = fi,
         used_index = place_ordered_array HEAP_INDEX_SIZE (Some area_header_t_less_than),
         rightmost_area = start \<rparr> \<rparr>) }"

end
