(* ===== verification/Pmm.thy ===== *)
theory Pmm
  imports Heap
begin

text \<open>
  The physical memory manager of \<open>src/kernel/pmm.c\<close>: a bitmap with one bit per 4 kB frame, set when
  the frame is in use.  \<open>pmem\<close> is the physical memory that \<open>zero_page_physical\<close> writes
  (\<open>src/kernel/zero_page.s\<close>).  The second half proves the allocator correct against the set of
  free frames and packages this as the contract \<open>frame_pool\<close>.
\<close>

unbundle bit_operations_syntax

subsection \<open>Data\<close>

abbreviation (input) NO_FRAME :: nat where "NO_FRAME \<equiv> 4294967295"

record pmm_t =
  used_frames :: "32 word list"
  nframes :: nat
  last_allocated_frame :: nat
  mem_end_page :: nat
  pmem :: mem

record memory_map_t =
  mm_type :: nat
  base_addr_high :: nat
  base_addr_low :: nat
  length_high :: nat
  length_low :: nat

definition ARRAY_INDEX :: "nat \<Rightarrow> nat" where
  "ARRAY_INDEX a = a div 32"

definition OFFSET_INTO_DWORD :: "nat \<Rightarrow> nat" where
  "OFFSET_INTO_DWORD a = a mod 32"

subsection \<open>The bitmap\<close>

definition pmm_set_frame :: "nat \<Rightarrow> pmm_t \<Rightarrow> pmm_t option" where
  "pmm_set_frame phys_addr st = do {
     let frame_index = phys_addr div PAGE_SIZE;
     let index = ARRAY_INDEX frame_index;
     assertK (index \<le> nframes st div 32);
     let offset = OFFSET_INTO_DWORD frame_index;
     w \<leftarrow> rd (used_frames st) index;
     assertK (w AND push_bit offset 1 = 0);
     ws \<leftarrow> wr (used_frames st) index (w OR push_bit offset 1);
     Some (st\<lparr> used_frames := ws \<rparr>) }"

definition pmm_clear_frame :: "nat \<Rightarrow> pmm_t \<Rightarrow> pmm_t option" where
  "pmm_clear_frame phys_addr st = do {
     let frame_index = phys_addr div PAGE_SIZE;
     let index = ARRAY_INDEX frame_index;
     assertK (index \<le> nframes st div 32);
     let offset = OFFSET_INTO_DWORD frame_index;
     w \<leftarrow> rd (used_frames st) index;
     assertK (w AND push_bit offset 1 \<noteq> 0);
     ws \<leftarrow> wr (used_frames st) index (w AND NOT (push_bit offset 1));
     Some (st\<lparr> used_frames := ws \<rparr>) }"

definition pmm_test_frame :: "nat \<Rightarrow> pmm_t \<Rightarrow> bool option" where
  "pmm_test_frame phys_addr st = do {
     let frame_index = phys_addr div PAGE_SIZE;
     let index = ARRAY_INDEX frame_index;
     assertK (index \<le> nframes st div 32);
     let offset = OFFSET_INTO_DWORD frame_index;
     w \<leftarrow> rd (used_frames st) index;
     Some (w AND push_bit offset 1 \<noteq> 0) }"

subsection \<open>Initialisation\<close>

text \<open>The page-aligned range of a memory map entry, in the first pass and in the second pass
  over the map (which alone subtracts the skipped first page).\<close>

definition region_lo :: "memory_map_t \<Rightarrow> nat" where
  "region_lo e = (let a = (if base_addr_low e < PAGE_SIZE then PAGE_SIZE else base_addr_low e)
     in if a mod PAGE_SIZE \<noteq> 0 then add32 (a - a mod PAGE_SIZE) PAGE_SIZE else a)"

definition region_hi1 :: "memory_map_t \<Rightarrow> nat" where
  "region_hi1 e = (let a = add32 (region_lo e) (length_low e) in a - a mod PAGE_SIZE)"

definition region_hi :: "memory_map_t \<Rightarrow> nat" where
  "region_hi e = (let a = add32 (region_lo e) (length_low e);
       b = (if base_addr_low e < PAGE_SIZE then sub32 a PAGE_SIZE else a)
     in b - b mod PAGE_SIZE)"

definition scan_mem_end :: "memory_map_t list \<Rightarrow> nat \<Rightarrow> nat" where
  "scan_mem_end entries end0 = foldl (\<lambda>acc e.
     if mm_type e \<noteq> 1 then acc
     else if base_addr_high e \<noteq> 0 then acc
     else if region_hi1 e > acc then region_hi1 e else acc) end0 entries"

text \<open>The loops \<open>for (addr = lo; addr < hi; addr += PAGE_SIZE)\<close> run over page-aligned addresses below
  \<open>hi\<close>; both bounds are page aligned, so the addition does not wrap before the loop ends.\<close>

definition pages :: "nat \<Rightarrow> nat \<Rightarrow> nat list" where
  "pages lo hi = map (\<lambda>k. lo + PAGE_SIZE * k) [0..<(hi + PAGE_SIZE - 1 - lo) div PAGE_SIZE]"

definition clear_region :: "memory_map_t \<Rightarrow> pmm_t \<Rightarrow> pmm_t option" where
  "clear_region e st =
    (if mm_type e \<noteq> 1 then Some st
     else if base_addr_high e \<noteq> 0 then Some st
     else if region_lo e \<ge> region_hi e then Some st
     else do {
       assertK (IS_PAGE_ALIGNED (region_lo e));
       assertK (IS_PAGE_ALIGNED (region_hi e));
       assertK (region_lo e \<ge> base_addr_low e);
       foreach (\<lambda>addr st. do {
         assertK (addr < add32 (base_addr_low e) (length_low e));
         pmm_clear_frame addr st }) (pages (region_lo e) (region_hi e)) st })"

text \<open>\<open>None\<close> for the memory map stands for a zero address or a zero length.\<close>

definition pmm_init :: "'v vm_ops \<Rightarrow> memory_map_t list option \<Rightarrow> nat \<Rightarrow> 'v kst \<times> mem \<Rightarrow> ('v kst \<times> pmm_t) option" where
  "pmm_init ops mmap upper_mem sp = do {
     let end0 = add32 1048576 (mul32 upper_mem 1024);
     let end1 = end0 - end0 mod PAGE_SIZE;
     let end2 = (case mmap of Some es \<Rightarrow> scan_mem_end es end1 | None \<Rightarrow> end1);
     let nf = end2 div PAGE_SIZE;
     (p, st1) \<leftarrow> kmalloc ops ((nf div 32 + 1) * 4) (fst sp);
     let pm = \<lparr> used_frames = replicate (nf div 32 + 1) (- 1), nframes = nf, last_allocated_frame = NO_FRAME,
                mem_end_page = end2, pmem = snd sp \<rparr>;
     pm' \<leftarrow> (case mmap of
        Some es \<Rightarrow> foreach clear_region es pm
      | None \<Rightarrow> foreach pmm_clear_frame (pages 1048576 end2) pm);
     Some (st1, pm') }"

subsection \<open>Allocation\<close>

definition first_zero :: "32 word \<Rightarrow> nat option" where
  "first_zero w = find (\<lambda>offset. w AND push_bit offset 1 = 0) [0..<32]"

fun frame_scan :: "32 word list \<Rightarrow> nat list \<Rightarrow> nat option" where
  "frame_scan ws [] = Some NO_FRAME"
| "frame_scan ws (index # is) = do {
     w \<leftarrow> rd ws index;
     if w = - 1 then frame_scan ws is
     else (case first_zero w of
         Some offset \<Rightarrow> Some (mul32 (index * 32 + offset) PAGE_SIZE)
       | None \<Rightarrow> frame_scan ws is) }"

definition pmm_first_free_frame :: "nat \<Rightarrow> pmm_t \<Rightarrow> nat option" where
  "pmm_first_free_frame start_addr st = do {
     let index0 = start_addr div PAGE_SIZE div 32;
     let index = (if index0 \<noteq> 0 then index0 - 1 else index0);
     frame_scan (used_frames st) [index..<nframes st div 32] }"

definition zero_page_physical :: "nat \<Rightarrow> mem \<Rightarrow> mem" where
  "zero_page_physical phys_addr m = (\<lambda>i. if phys_addr \<le> i \<and> i < phys_addr + PAGE_SIZE then 0 else m i)"

definition pmm_alloc :: "pmm_t \<Rightarrow> (nat \<times> pmm_t) option" where
  "pmm_alloc st = do {
     let last = (if last_allocated_frame st = NO_FRAME then 0 else last_allocated_frame st);
     phys_addr \<leftarrow> pmm_first_free_frame last st;
     assertK (phys_addr \<noteq> NO_FRAME);
     st1 \<leftarrow> pmm_set_frame phys_addr (st\<lparr> last_allocated_frame := phys_addr \<rparr>);
     Some (phys_addr, st1\<lparr> pmem := zero_page_physical phys_addr (pmem st1) \<rparr>) }"

text \<open>The inner loop of \<open>pmm_alloc_continuous\<close>: the first \<open>i\<close> from the list whose frame is in use.\<close>

fun used_within :: "nat \<Rightarrow> nat list \<Rightarrow> pmm_t \<Rightarrow> nat option option" where
  "used_within start [] st = Some None"
| "used_within start (i # is) st = do {
     u \<leftarrow> pmm_test_frame (add32 start (mul32 i PAGE_SIZE)) st;
     if u then Some (Some i) else used_within start is st }"

partial_function (option) run_search :: "nat \<Rightarrow> nat \<Rightarrow> pmm_t \<Rightarrow> nat option" where
  "run_search num_frames start st =
    (if add32 start (mul32 (num_frames - 1) PAGE_SIZE) > mem_end_page st then None
     else do {
       r \<leftarrow> used_within start [1..<num_frames] st;
       (case r of None \<Rightarrow> Some start
        | Some i \<Rightarrow> run_search num_frames (add32 start (mul32 (i + 1) PAGE_SIZE)) st) })"

definition pmm_alloc_continuous :: "nat \<Rightarrow> pmm_t \<Rightarrow> (nat \<times> pmm_t) option" where
  "pmm_alloc_continuous num_frames st =
    (if num_frames < 2 then pmm_alloc st else do {
       start0 \<leftarrow> pmm_first_free_frame 0 st;
       start \<leftarrow> run_search num_frames start0 st;
       st' \<leftarrow> foreach (\<lambda>i. pmm_set_frame (add32 start (mul32 i PAGE_SIZE))) [0..<num_frames] st;
       Some (start, st') })"

definition pmm_free :: "nat \<Rightarrow> pmm_t \<Rightarrow> pmm_t option" where
  "pmm_free phys_addr st = do {
     st1 \<leftarrow> pmm_clear_frame phys_addr st;
     Some (st1\<lparr> last_allocated_frame := NO_FRAME \<rparr>) }"

subsection \<open>Statistics\<close>

definition pmm_bytes_free :: "pmm_t \<Rightarrow> nat option" where
  "pmm_bytes_free st = do {
     unused \<leftarrow> foreach (\<lambda>index acc. do {
       w \<leftarrow> rd (used_frames st) index;
       Some (if w = 0 then add32 acc (PAGE_SIZE * 32)
             else if w = - 1 then acc
             else foldl (\<lambda>a offset. if w AND push_bit offset 1 = 0 then add32 a PAGE_SIZE else a) acc [0..<32]) })
       [0..<nframes st div 32] 0;
     assertK (unused mod 4096 = 0);
     Some unused }"

definition pmm_bytes_used :: "pmm_t \<Rightarrow> nat option" where
  "pmm_bytes_used st = foreach (\<lambda>index acc. do {
       w \<leftarrow> rd (used_frames st) index;
       Some (if w = 0 then acc
             else if w = - 1 then add32 acc (32 * 4096)
             else foldl (\<lambda>a offset. if w AND push_bit offset 1 \<noteq> 0 then add32 a PAGE_SIZE else a) acc [0..<32]) })
       [0..<nframes st div 32] 0"

subsection \<open>The set of free frames\<close>

definition frame_used :: "pmm_t \<Rightarrow> nat \<Rightarrow> bool" where
  "frame_used st f = bit (used_frames st ! (f div 32)) (f mod 32)"

text \<open>The allocator only ever looks at full words of the bitmap.\<close>

definition managed :: "pmm_t \<Rightarrow> nat" where
  "managed st = 32 * (nframes st div 32)"

definition free_frames :: "pmm_t \<Rightarrow> nat set" where
  "free_frames st = {f. f < managed st \<and> \<not> frame_used st f}"

text \<open>The hint \<open>last_allocated_frame\<close> may only be used as long as every frame below it is in use.\<close>

definition pmm_ok :: "pmm_t \<Rightarrow> bool" where
  "pmm_ok st \<longleftrightarrow> length (used_frames st) = nframes st div 32 + 1 \<and> nframes st < 1048576 \<and>
     (last_allocated_frame st = NO_FRAME \<or> (\<forall>f < last_allocated_frame st div PAGE_SIZE. frame_used st f))"

lemma bit_test:
  "(w :: 32 word) AND push_bit n 1 = 0 \<longleftrightarrow> \<not> bit w n" "(w :: 32 word) AND 2 ^ n = 0 \<longleftrightarrow> \<not> bit w n"
  by (simp_all add: push_bit_of_1 and_exp_eq_0_iff_not_bit)

lemma bit_set: "n < 32 \<Longrightarrow> bit ((w :: 32 word) OR 2 ^ n) k \<longleftrightarrow> bit w k \<or> k = n"
  by (auto simp: bit_simps)

lemma bit_clear: "bit ((w :: 32 word) AND NOT (2 ^ n)) k \<longleftrightarrow> bit w k \<and> k \<noteq> n"
  by (auto simp: bit_simps dest: bit_imp_le_length)

lemma frame_eq_iff: "f = g \<longleftrightarrow> f div 32 = g div 32 \<and> f mod 32 = (g :: nat) mod 32"
  by (metis div_mod_decomp)

lemma pmm_set_frame_ok:
  assumes "length (used_frames st) = nframes st div 32 + 1" "f \<le> nframes st" "\<not> frame_used st f"
  shows "\<exists>ws. pmm_set_frame (PAGE_SIZE * f) st = Some (st\<lparr> used_frames := ws \<rparr>) \<and> length ws = length (used_frames st) \<and>
    (\<forall>g. frame_used (st\<lparr> used_frames := ws \<rparr>) g \<longleftrightarrow> frame_used st g \<or> g = f)"
proof -
  have i: "f div 32 < length (used_frames st)" using assms(1,2) by (simp add: div_le_mono le_imp_less_Suc)
  let ?ws = "(used_frames st)[f div 32 := (used_frames st ! (f div 32)) OR push_bit (f mod 32) 1]"
  have "pmm_set_frame (PAGE_SIZE * f) st = Some (st\<lparr> used_frames := ?ws \<rparr>)"
    using i assms by (simp add: pmm_set_frame_def Let_def ARRAY_INDEX_def OFFSET_INTO_DWORD_def bit_test frame_used_def)
  moreover have "frame_used (st\<lparr> used_frames := ?ws \<rparr>) g \<longleftrightarrow> frame_used st g \<or> g = f" for g
    using i by (cases "g div 32 = f div 32") (auto simp: frame_used_def bit_set frame_eq_iff[of g f])
  ultimately show ?thesis by auto
qed

lemma pmm_clear_frame_ok:
  assumes "length (used_frames st) = nframes st div 32 + 1" "f \<le> nframes st" "frame_used st f"
  shows "\<exists>ws. pmm_clear_frame (PAGE_SIZE * f) st = Some (st\<lparr> used_frames := ws \<rparr>) \<and> length ws = length (used_frames st) \<and>
    (\<forall>g. frame_used (st\<lparr> used_frames := ws \<rparr>) g \<longleftrightarrow> frame_used st g \<and> g \<noteq> f)"
proof -
  have i: "f div 32 < length (used_frames st)" using assms(1,2) by (simp add: div_le_mono le_imp_less_Suc)
  let ?ws = "(used_frames st)[f div 32 := (used_frames st ! (f div 32)) AND NOT (push_bit (f mod 32) 1)]"
  have "pmm_clear_frame (PAGE_SIZE * f) st = Some (st\<lparr> used_frames := ?ws \<rparr>)"
    using i assms by (simp add: pmm_clear_frame_def Let_def ARRAY_INDEX_def OFFSET_INTO_DWORD_def bit_test frame_used_def)
  moreover have "frame_used (st\<lparr> used_frames := ?ws \<rparr>) g \<longleftrightarrow> frame_used st g \<and> g \<noteq> f" for g
    using i by (cases "g div 32 = f div 32") (auto simp: frame_used_def bit_clear frame_eq_iff[of g f])
  ultimately show ?thesis by auto
qed

subsection \<open>Searching for a free frame\<close>

lemma find_append: "find P (xs @ ys) = (case find P xs of None \<Rightarrow> find P ys | Some x \<Rightarrow> Some x)"
  by (induction xs) auto

lemma find_map_conv: "find P (map g xs) = map_option g (find (\<lambda>x. P (g x)) xs)"
  by (induction xs) auto

lemma first_zero_conv: "first_zero w = find (\<lambda>k. \<not> bit w k) [0..<32]"
  by (simp add: first_zero_def bit_test)

lemma first_zero_full: "first_zero (- 1) = None"
  by (auto simp: first_zero_conv find_None_iff)

lemma word_frames:
  "find (\<lambda>f. \<not> bit (ws ! (f div 32)) (f mod 32)) [32 * i..<32 * i + 32] = map_option (\<lambda>k. 32 * i + k) (first_zero (ws ! i))"
proof -
  have "[32 * i..<32 * i + 32] = map (\<lambda>k. 32 * i + k) [0..<32]"
    using map_add_upt[of "32 * i" 32] by (simp add: add.commute)
  moreover have "find (\<lambda>k. \<not> bit (ws ! ((32 * i + k) div 32)) ((32 * i + k) mod 32)) [0..<32] = find (\<lambda>k. \<not> bit (ws ! i) k) [0..<32]"
    by (rule find_cong) auto
  ultimately show ?thesis by (simp add: find_map_conv first_zero_conv)
qed

lemma frame_scan_eq:
  "i \<le> n \<Longrightarrow> n \<le> length ws \<Longrightarrow> 32 * n \<le> 1048576 \<Longrightarrow>
   frame_scan ws [i..<n] = Some (case find (\<lambda>f. \<not> bit (ws ! (f div 32)) (f mod 32)) [32 * i..<32 * n] of
     None \<Rightarrow> NO_FRAME | Some f \<Rightarrow> PAGE_SIZE * f)"
proof (induction "n - i" arbitrary: i)
  case (Suc d)
  let ?P = "\<lambda>f. \<not> bit (ws ! (f div 32)) (f mod 32)"
  have i: "i < n" "d = n - Suc i" using Suc.hyps(2) by auto
  then have IH: "frame_scan ws [Suc i..<n] = Some (case find ?P [32 * Suc i..<32 * n] of
     None \<Rightarrow> NO_FRAME | Some f \<Rightarrow> PAGE_SIZE * f)" using Suc by auto
  have split: "[32 * i..<32 * n] = [32 * i..<32 * i + 32] @ [32 * Suc i..<32 * n]"
    using upt_add_eq_append[of "32 * i" "32 * i + 32" "32 * n - (32 * i + 32)"] i by (simp add: add.commute)
  have "[i..<n] = i # [Suc i..<n]" using i by (simp add: upt_conv_Cons)
  moreover have "ws ! i \<noteq> - 1" if "first_zero (ws ! i) = Some k" for k using that first_zero_full by auto
  moreover have "mul32 (i * 32 + k) 4096 = 4096 * (32 * i + k)" if "first_zero (ws ! i) = Some k" for k
  proof -
    have "k < 32" using that by (auto simp: first_zero_conv find_Some_iff)
    then have "i * 32 + k < 1048576" using i Suc.prems(3) by linarith
    then show ?thesis by simp
  qed
  ultimately show ?case using i Suc.prems(2) IH unfolding split find_append word_frames
    by (auto split: option.split simp: first_zero_full)
qed simp

lemma find_upt:
  "(\<forall>g. lo \<le> g \<and> g < hi \<longrightarrow> \<not> P g) \<and> find P [lo..<hi] = None \<or>
   (\<exists>f. find P [lo..<hi] = Some f \<and> lo \<le> f \<and> f < hi \<and> P f \<and> (\<forall>g. lo \<le> g \<and> g < f \<longrightarrow> \<not> P g))"
proof (cases "find P [lo..<hi]")
  case None
  then show ?thesis by (auto simp: find_None_iff)
next
  case (Some f)
  then obtain i where i: "i < hi - lo" "P (lo + i)" "f = lo + i" "\<forall>j<i. \<not> P (lo + j)"
    by (auto simp: find_Some_iff)
  then have "\<not> P g" if "lo \<le> g" "g < f" for g using that by (metis le_add_diff_inverse nat_add_left_cancel_less)
  then show ?thesis using Some i by auto
qed

lemma first_free_frame_cases:
  assumes ok: "pmm_ok st" and last: "\<forall>g < l div PAGE_SIZE. frame_used st g"
  obtains (full) "free_frames st = {}" "pmm_first_free_frame l st = Some NO_FRAME"
    | (free) f where "f \<in> free_frames st" "\<forall>g < f. frame_used st g" "pmm_first_free_frame l st = Some (PAGE_SIZE * f)"
proof -
  define i where "i = (if l div PAGE_SIZE div 32 \<noteq> 0 then l div PAGE_SIZE div 32 - 1 else l div PAGE_SIZE div 32)"
  let ?n = "nframes st div 32"
  let ?P = "\<lambda>f. \<not> frame_used st f"
  have len: "?n \<le> length (used_frames st)" "32 * ?n \<le> 1048576" using ok by (auto simp: pmm_ok_def)
  have "i \<le> l div PAGE_SIZE div 32" by (simp add: i_def)
  then have il: "32 * i \<le> l div PAGE_SIZE" using times_div_less_eq_dividend[of 32 "l div PAGE_SIZE"] by linarith
  have below: "frame_used st g" if "g < 32 * i" for g
    using that il last by auto
  have scan: "pmm_first_free_frame l st = Some (case find ?P [32 * i..<32 * ?n] of None \<Rightarrow> NO_FRAME | Some f \<Rightarrow> PAGE_SIZE * f)"
  proof (cases "i \<le> ?n")
    case True
    then show ?thesis using frame_scan_eq[OF True len]
      unfolding pmm_first_free_frame_def Let_def i_def[symmetric] by (simp add: frame_used_def)
  next
    case False
    then have e: "[i..<?n] = []" "[32 * i..<32 * ?n] = []" by auto
    show ?thesis unfolding pmm_first_free_frame_def Let_def i_def[symmetric] e by simp
  qed
  show ?thesis
  proof (cases "find ?P [32 * i..<32 * ?n]")
    case None
    have "frame_used st g" if "g < 32 * ?n" for g
      using find_upt[of "32 * i" "32 * ?n" ?P] None below[of g] that by (cases "g < 32 * i") auto
    then have "free_frames st = {}" by (auto simp: free_frames_def managed_def)
    then show ?thesis using full scan None by simp
  next
    case (Some f)
    then have f: "f < 32 * ?n" "\<not> frame_used st f" "\<forall>g. 32 * i \<le> g \<and> g < f \<longrightarrow> frame_used st g"
      using find_upt[of "32 * i" "32 * ?n" ?P] by auto
    have "frame_used st g" if "g < f" for g using f(3) below[of g] that by (cases "g < 32 * i") auto
    then show ?thesis using free[of f] f(1,2) Some scan by (simp add: free_frames_def managed_def)
  qed
qed

subsection \<open>Allocation and release\<close>

lemma frame_used_upd [simp]:
  "frame_used (st\<lparr> pmem := m \<rparr>) = frame_used st" "frame_used (st\<lparr> last_allocated_frame := l \<rparr>) = frame_used st"
  "frame_used (st\<lparr> used_frames := ws, last_allocated_frame := l \<rparr>) = frame_used (st\<lparr> used_frames := ws \<rparr>)"
  "frame_used (st\<lparr> last_allocated_frame := l, used_frames := ws \<rparr>) = frame_used (st\<lparr> used_frames := ws \<rparr>)"
  by (simp_all add: frame_used_def fun_eq_iff)

lemma frame_less: "pmm_ok st \<Longrightarrow> f < managed st \<Longrightarrow> f \<le> nframes st \<and> PAGE_SIZE * f < NO_FRAME"
  unfolding pmm_ok_def managed_def using times_div_less_eq_dividend[of 32 "nframes st"] by auto

lemma pmm_alloc_ok:
  assumes ok: "pmm_ok st" and fr: "free_frames st \<noteq> {}"
  shows "\<exists>f st'. pmm_alloc st = Some (PAGE_SIZE * f, st') \<and> f \<in> free_frames st \<and> (\<forall>g < f. frame_used st g) \<and>
    pmm_ok st' \<and> free_frames st' = free_frames st - {f} \<and> nframes st' = nframes st \<and>
    (\<forall>g. frame_used st' g \<longleftrightarrow> frame_used st g \<or> g = f) \<and>
    pmem st' = zero_page_physical (PAGE_SIZE * f) (pmem st)"
proof -
  define l where "l = (if last_allocated_frame st = NO_FRAME then 0 else last_allocated_frame st)"
  have l: "\<forall>g < l div PAGE_SIZE. frame_used st g" using ok by (auto simp: l_def pmm_ok_def)
  obtain f where f: "f \<in> free_frames st" "\<forall>g < f. frame_used st g" "pmm_first_free_frame l st = Some (PAGE_SIZE * f)"
    using first_free_frame_cases[OF ok l] fr by metis
  let ?st0 = "st\<lparr> last_allocated_frame := PAGE_SIZE * f \<rparr>"
  have b: "f \<le> nframes st" "PAGE_SIZE * f < NO_FRAME" "\<not> frame_used st f"
    using f(1) frame_less[OF ok] by (auto simp: free_frames_def)
  have len: "length (used_frames st) = nframes st div 32 + 1" "nframes st < 1048576" using ok by (auto simp: pmm_ok_def)
  obtain ws where ws: "pmm_set_frame (PAGE_SIZE * f) ?st0 = Some (?st0\<lparr> used_frames := ws \<rparr>)"
    "length ws = length (used_frames st)" "\<forall>g. frame_used (?st0\<lparr> used_frames := ws \<rparr>) g \<longleftrightarrow> frame_used st g \<or> g = f"
    using pmm_set_frame_ok[of ?st0 f] b len(1) by auto
  let ?st' = "?st0\<lparr> used_frames := ws, pmem := zero_page_physical (PAGE_SIZE * f) (pmem st) \<rparr>"
  have a: "pmm_alloc st = Some (PAGE_SIZE * f, ?st')"
    unfolding pmm_alloc_def l_def[symmetric] Let_def using f(3) ws(1) b(2) by simp
  have u: "frame_used ?st' g \<longleftrightarrow> frame_used st g \<or> g = f" for g using ws(3) by simp
  have "pmm_ok ?st'" unfolding pmm_ok_def using ws(2) len f(2) u by simp
  moreover have "free_frames ?st' = free_frames st - {f}"
    unfolding free_frames_def managed_def using u by auto
  ultimately show ?thesis using a f(1,2) u by (intro exI[of _ f] exI[of _ ?st']) simp
qed

lemma pmm_alloc_none:
  assumes ok: "pmm_ok st" and fr: "free_frames st = {}"
  shows "pmm_alloc st = None"
proof -
  define l where "l = (if last_allocated_frame st = NO_FRAME then 0 else last_allocated_frame st)"
  have l: "\<forall>g < l div PAGE_SIZE. frame_used st g" using ok by (auto simp: l_def pmm_ok_def)
  have "pmm_first_free_frame l st = Some NO_FRAME" using first_free_frame_cases[OF ok l] fr by blast
  then show ?thesis unfolding pmm_alloc_def l_def[symmetric] Let_def by simp
qed

lemma pmm_free_ok:
  assumes ok: "pmm_ok st" and f: "f < managed st" "f \<notin> free_frames st"
  shows "\<exists>st'. pmm_free (PAGE_SIZE * f) st = Some st' \<and> pmm_ok st' \<and> free_frames st' = insert f (free_frames st) \<and>
    nframes st' = nframes st \<and> pmem st' = pmem st \<and> (\<forall>g. frame_used st' g \<longleftrightarrow> frame_used st g \<and> g \<noteq> f)"
proof -
  have len: "length (used_frames st) = nframes st div 32 + 1" "nframes st < 1048576" using ok by (auto simp: pmm_ok_def)
  obtain ws where ws: "pmm_clear_frame (PAGE_SIZE * f) st = Some (st\<lparr> used_frames := ws \<rparr>)"
    "length ws = length (used_frames st)" "\<forall>g. frame_used (st\<lparr> used_frames := ws \<rparr>) g \<longleftrightarrow> frame_used st g \<and> g \<noteq> f"
    using pmm_clear_frame_ok[of st f] frame_less[OF ok f(1)] len(1) f by (auto simp: free_frames_def)
  let ?st' = "st\<lparr> used_frames := ws, last_allocated_frame := NO_FRAME \<rparr>"
  have u: "frame_used ?st' g \<longleftrightarrow> frame_used st g \<and> g \<noteq> f" for g using ws(3) by simp
  have "pmm_ok ?st'" unfolding pmm_ok_def using ws(2) len by simp
  moreover have "free_frames ?st' = insert f (free_frames st)"
    unfolding free_frames_def managed_def using u f(1) by (auto simp: managed_def)
  ultimately show ?thesis using ws(1) u by (intro exI[of _ ?st']) (simp add: pmm_free_def)
qed

subsection \<open>The contract of a frame allocator\<close>

locale frame_pool =
  fixes ok :: "'s \<Rightarrow> bool" and avail :: "'s \<Rightarrow> nat set" and limit :: "'s \<Rightarrow> nat"
    and alloc :: "'s \<Rightarrow> (nat \<times> 's) option" and release :: "nat \<Rightarrow> 's \<Rightarrow> 's option" and store :: "'s \<Rightarrow> mem"
  assumes alloc_law: "ok s \<Longrightarrow> avail s \<noteq> {} \<Longrightarrow>
      \<exists>f s'. alloc s = Some (4096 * f, s') \<and> f \<in> avail s \<and> ok s' \<and> avail s' = avail s - {f} \<and> limit s' = limit s \<and>
        store s' = zero_page_physical (4096 * f) (store s)"
    and release_law: "ok s \<Longrightarrow> f < limit s \<Longrightarrow> f \<notin> avail s \<Longrightarrow>
      \<exists>s'. release (4096 * f) s = Some s' \<and> ok s' \<and> avail s' = insert f (avail s) \<and> limit s' = limit s \<and> store s' = store s"
    and avail_law: "avail s \<subseteq> {..<limit s}"
begin

lemma avail_finite [simp]: "finite (avail s)"
  by (rule finite_subset[OF avail_law]) simp

lemma alloc_card:
  assumes "ok s" "Suc k \<le> card (avail s)"
  shows "\<exists>f s'. alloc s = Some (4096 * f, s') \<and> ok s' \<and> card (avail s) = Suc (card (avail s')) \<and> limit s' = limit s \<and>
    f < limit s \<and> f \<notin> avail s' \<and> avail s' \<subseteq> avail s \<and> store s' = zero_page_physical (4096 * f) (store s)"
proof -
  have "avail s \<noteq> {}" using assms(2) by auto
  then obtain f s' where f: "alloc s = Some (4096 * f, s')" "f \<in> avail s" "ok s'" "avail s' = avail s - {f}" "limit s' = limit s"
    "store s' = zero_page_physical (4096 * f) (store s)" using alloc_law[OF assms(1)] by blast
  moreover have "card (avail s) = Suc (card (avail s'))" unfolding f(4) using f(2) by (metis avail_finite card_Suc_Diff1)
  moreover have "f < limit s" using avail_law f(2) by blast
  ultimately show ?thesis by auto
qed

lemma release_card:
  assumes "ok s" "f < limit s" "f \<notin> avail s"
  shows "\<exists>s'. release (4096 * f) s = Some s' \<and> ok s' \<and> card (avail s') = Suc (card (avail s)) \<and> avail s' = insert f (avail s) \<and>
    limit s' = limit s \<and> store s' = store s"
  using release_law[OF assms] assms(3) by auto

lemma alloc_release:
  assumes "ok s" "avail s \<noteq> {}"
  shows "\<exists>a s' s''. alloc s = Some (a, s') \<and> release a s' = Some s'' \<and> ok s'' \<and> avail s'' = avail s"
proof -
  obtain f s' where f: "alloc s = Some (4096 * f, s')" "f \<in> avail s" "ok s'" "avail s' = avail s - {f}" "limit s' = limit s"
    using alloc_law[OF assms] by blast
  have "f < limit s'" using avail_law f(2,5) by auto
  then obtain s'' where "release (4096 * f) s' = Some s''" "ok s''" "avail s'' = insert f (avail s')"
    using release_law[OF f(3), of f] f(4) by auto
  then show ?thesis using f by (intro exI[of _ "4096 * f"] exI[of _ s'] exI[of _ s'']) auto
qed

end

interpretation pmm: frame_pool pmm_ok free_frames managed pmm_alloc pmm_free pmem
proof
  fix s :: pmm_t assume "pmm_ok s" "free_frames s \<noteq> {}"
  then show "\<exists>f s'. pmm_alloc s = Some (4096 * f, s') \<and> f \<in> free_frames s \<and> pmm_ok s' \<and> free_frames s' = free_frames s - {f} \<and>
      managed s' = managed s \<and> pmem s' = zero_page_physical (4096 * f) (pmem s)"
    using pmm_alloc_ok[of s] unfolding managed_def by metis
next
  fix s :: pmm_t and f assume "pmm_ok s" "f < managed s" "f \<notin> free_frames s"
  then show "\<exists>s'. pmm_free (4096 * f) s = Some s' \<and> pmm_ok s' \<and> free_frames s' = insert f (free_frames s) \<and>
      managed s' = managed s \<and> pmem s' = pmem s"
    using pmm_free_ok[of s f] unfolding managed_def by metis
qed (auto simp: free_frames_def)

subsection \<open>Counting\<close>

lemma foldl_count:
  "a + 4096 * length (filter P xs) < W32 \<Longrightarrow>
   foldl (\<lambda>a k. if P k then add32 a 4096 else a) a xs = a + 4096 * length (filter P xs)"
  by (induction xs arbitrary: a) auto

lemma filter_word:
  "filter (\<lambda>f. P (bit (ws ! (f div 32)) (f mod 32))) [32 * i..<32 * i + 32] =
   map (\<lambda>k. 32 * i + k) (filter (\<lambda>k. P (bit (ws ! i) k)) [0..<32])"
proof -
  have "[32 * i..<32 * i + 32] = map (\<lambda>k. 32 * i + k) [0..<32]"
    using map_add_upt[of "32 * i" 32] by (simp add: add.commute)
  then show ?thesis by (auto simp: filter_map comp_def intro!: arg_cong[where f = "map _"] filter_cong)
qed

lemma word_extremes:
  "bit (0 :: 32 word) k = False" "k < 32 \<Longrightarrow> bit (- 1 :: 32 word) k = True"
  by simp_all

lemma count_words:
  assumes step: "\<And>w a. a + 4096 * length (filter (\<lambda>k. P (bit w k)) [0..<32]) < W32 \<Longrightarrow>
      upd w a = a + 4096 * length (filter (\<lambda>k. P (bit (w :: 32 word) k)) [0..<32])"
    and "n \<le> length ws" "32 * n < 1048576"
  shows "foreach (\<lambda>i a. do { w \<leftarrow> rd ws i; Some (upd w a) }) [0..<n] 0 =
    Some (4096 * length (filter (\<lambda>f. P (bit (ws ! (f div 32)) (f mod 32))) [0..<32 * n]))"
  using assms(2,3)
proof (induction n)
  case (Suc n)
  let ?Q = "\<lambda>f. P (bit (ws ! (f div 32)) (f mod 32))"
  let ?c = "length (filter ?Q [0..<32 * n])" and ?d = "length (filter (\<lambda>k. P (bit (ws ! n) k)) [0..<32])"
  have split: "[0..<32 * Suc n] = [0..<32 * n] @ [32 * n..<32 * n + 32]"
    using upt_add_eq_append[of 0 "32 * n" 32] by (simp add: add.commute)
  have "?c \<le> 32 * n" "?d \<le> 32" using length_filter_le[of ?Q "[0..<32 * n]"]
      length_filter_le[of "\<lambda>k. P (bit (ws ! n) k)" "[0..<32]"] by simp_all
  then have "4096 * ?c + 4096 * ?d < W32" using Suc.prems(2) by simp
  then have "upd (ws ! n) (4096 * ?c) = 4096 * ?c + 4096 * ?d" by (rule step)
  then show ?case using Suc unfolding split filter_append filter_word by (simp add: foreach_append)
qed simp

lemma full_words [simp]:
  "length (filter (\<lambda>k. \<not> bit (0 :: 32 word) k) [0..<32]) = 32" "filter (\<lambda>k. bit (0 :: 32 word) k) [0..<32] = []"
  "filter (\<lambda>k. \<not> bit (- 1 :: 32 word) k) [0..<32] = []" "length (filter (bit (- 1 :: 32 word)) [0..<32]) = 32"
proof -
  have "filter (bit (- 1 :: 32 word)) [0..<32] = [0..<32]" by (rule filter_True) simp
  then show "length (filter (bit (- 1 :: 32 word)) [0..<32]) = 32" by simp
qed (simp_all add: filter_empty_conv)

lemma bytes_free_count:
  assumes "pmm_ok st"
  shows "pmm_bytes_free st = Some (4096 * length (filter (\<lambda>f. \<not> frame_used st f) [0..<managed st]))"
proof -
  let ?upd = "\<lambda>w a. if w = 0 then add32 a (PAGE_SIZE * 32) else if w = - 1 then a
     else foldl (\<lambda>a offset. if w AND push_bit offset 1 = 0 then add32 a PAGE_SIZE else a) a [0..<32]"
  have step: "?upd w a = a + 4096 * length (filter (\<lambda>k. \<not> bit w k) [0..<32])"
    if "a + 4096 * length (filter (\<lambda>k. \<not> bit w k) [0..<32]) < W32" for w :: "32 word" and a
    using that foldl_count[OF that] unfolding bit_test by (auto simp del: upt_rec_numeral)
  have "nframes st div 32 \<le> length (used_frames st)" "32 * (nframes st div 32) < 1048576"
    using assms by (auto simp: pmm_ok_def)
  from count_words[where P = Not and upd = ?upd, OF step this] show ?thesis
    unfolding pmm_bytes_free_def managed_def frame_used_def by simp
qed

lemma bytes_used_count:
  assumes "pmm_ok st"
  shows "pmm_bytes_used st = Some (4096 * length (filter (frame_used st) [0..<managed st]))"
proof -
  let ?upd = "\<lambda>w a. if w = 0 then a else if w = - 1 then add32 a (32 * 4096)
     else foldl (\<lambda>a offset. if w AND push_bit offset 1 \<noteq> 0 then add32 a PAGE_SIZE else a) a [0..<32]"
  have step: "?upd w a = a + 4096 * length (filter (\<lambda>k. bit w k) [0..<32])"
    if "a + 4096 * length (filter (\<lambda>k. bit w k) [0..<32]) < W32" for w :: "32 word" and a
    using that foldl_count[OF that] unfolding bit_test by (auto simp del: upt_rec_numeral)
  have "nframes st div 32 \<le> length (used_frames st)" "32 * (nframes st div 32) < 1048576"
    using assms by (auto simp: pmm_ok_def)
  from count_words[where P = "\<lambda>b. b" and upd = ?upd, OF step this] show ?thesis
    unfolding pmm_bytes_used_def managed_def frame_used_def[abs_def] by simp
qed

lemma card_free_frames: "card (free_frames st) = length (filter (\<lambda>f. \<not> frame_used st f) [0..<managed st])"
proof -
  have eq: "free_frames st = set (filter (\<lambda>f. \<not> frame_used st f) [0..<managed st])" by (auto simp: free_frames_def)
  show ?thesis unfolding eq by (rule distinct_card) simp
qed

subsection \<open>Clearing regions\<close>

lemma clear_frame_result:
  assumes "pmm_clear_frame a st = Some st'" "length (used_frames st) = nframes st div 32 + 1"
  shows "(\<forall>g. frame_used st' g \<longleftrightarrow> frame_used st g \<and> g \<noteq> a div PAGE_SIZE) \<and> length (used_frames st') = length (used_frames st) \<and>
    nframes st' = nframes st \<and> last_allocated_frame st' = last_allocated_frame st \<and> pmem st' = pmem st"
proof -
  let ?f = "a div PAGE_SIZE"
  let ?w = "used_frames st ! (?f div 32)"
  have r: "?f div 32 < length (used_frames st)"
    "st' = st\<lparr> used_frames := (used_frames st)[?f div 32 := ?w AND NOT (push_bit (?f mod 32) 1)] \<rparr>"
    using assms unfolding pmm_clear_frame_def Let_def ARRAY_INDEX_def OFFSET_INTO_DWORD_def
    by (auto simp: rd_def wr_def split: if_splits)
  have "frame_used st' g \<longleftrightarrow> frame_used st g \<and> g \<noteq> ?f" for g
    using r by (cases "g div 32 = ?f div 32") (auto simp: frame_used_def bit_clear frame_eq_iff[of g ?f])
  then show ?thesis using r by simp
qed

text \<open>\<open>clears S st st'\<close>: \<open>st'\<close> differs from \<open>st\<close> in that the frames of \<open>S\<close> are free.\<close>

definition clears :: "nat set \<Rightarrow> pmm_t \<Rightarrow> pmm_t \<Rightarrow> bool" where
  "clears S st st' \<longleftrightarrow> (\<forall>g. frame_used st' g \<longleftrightarrow> frame_used st g \<and> g \<notin> S) \<and>
     length (used_frames st') = length (used_frames st) \<and>
     nframes st' = nframes st \<and> last_allocated_frame st' = last_allocated_frame st \<and> pmem st' = pmem st"

lemma clears_trans: "clears S st st' \<Longrightarrow> clears T st' st'' \<Longrightarrow> clears (S \<union> T) st st''"
  by (auto simp: clears_def)

lemma foreach_clears:
  assumes "foreach f xs st = Some st'" "length (used_frames st) = nframes st div 32 + 1"
    and step: "\<And>x s s'. x \<in> set xs \<Longrightarrow> length (used_frames s) = nframes s div 32 + 1 \<Longrightarrow> f x s = Some s' \<Longrightarrow> clears (S x) s s'"
  shows "clears (\<Union>x\<in>set xs. S x) st st'"
  using assms
proof (induction xs arbitrary: st)
  case (Cons x xs)
  obtain s where s: "f x st = Some s" "foreach f xs s = Some st'" using Cons.prems(1) by (auto simp: bind_eq_Some_conv)
  have "clears (S x) st s" using Cons.prems s(1) by simp
  moreover have "length (used_frames s) = nframes s div 32 + 1" using calculation Cons.prems(2) by (simp add: clears_def)
  then have "clears (\<Union>x\<in>set xs. S x) s st'" using Cons.IH[OF s(2)] Cons.prems(3) by simp
  ultimately show ?case using clears_trans[of "S x" st s "\<Union>x\<in>set xs. S x" st'] by simp
qed (simp add: clears_def)

definition region :: "memory_map_t \<Rightarrow> nat set" where
  "region e = (if mm_type e = 1 \<and> base_addr_high e = 0 then {f. region_lo e \<le> PAGE_SIZE * f \<and> PAGE_SIZE * f < region_hi e} else {})"

lemma page_count: "k < (hi + PAGE_SIZE - 1 - PAGE_SIZE * l) div PAGE_SIZE \<longleftrightarrow> PAGE_SIZE * (l + k) < hi"
proof -
  have "Suc k \<le> (hi + PAGE_SIZE - 1 - PAGE_SIZE * l) div PAGE_SIZE \<longleftrightarrow> Suc k * PAGE_SIZE \<le> hi + PAGE_SIZE - 1 - PAGE_SIZE * l"
    by (rule less_eq_div_iff_mult_less_eq) simp
  moreover have "Suc k * PAGE_SIZE \<le> hi + PAGE_SIZE - 1 - PAGE_SIZE * l \<longleftrightarrow> PAGE_SIZE * (l + k) < hi"
  proof (cases "PAGE_SIZE * l \<le> hi + PAGE_SIZE - 1")
    case True
    then obtain d where d: "hi + PAGE_SIZE - 1 = PAGE_SIZE * l + d" using le_Suc_ex by blast
    have "Suc k * PAGE_SIZE \<le> d \<longleftrightarrow> PAGE_SIZE * (l + k) < hi" using d by auto
    then show ?thesis unfolding d by simp
  qed auto
  ultimately show ?thesis unfolding Suc_le_eq by blast
qed

lemma pages_frames:
  assumes "lo mod PAGE_SIZE = 0"
  shows "(\<lambda>a. a div PAGE_SIZE) ` set (pages lo hi) = {f. lo \<le> PAGE_SIZE * f \<and> PAGE_SIZE * f < hi}"
proof -
  obtain l where l: "lo = PAGE_SIZE * l" using assms by (metis mod_0_imp_dvd dvdE)
  have k: "set [0..<(hi + PAGE_SIZE - 1 - PAGE_SIZE * l) div PAGE_SIZE] = {k. PAGE_SIZE * (l + k) < hi}"
    unfolding set_upt atLeastLessThan_def atLeast_def lessThan_def page_count by simp
  have "(\<lambda>a. a div PAGE_SIZE) ` set (pages lo hi) = (\<lambda>k. l + k) ` {k. PAGE_SIZE * (l + k) < hi}"
    unfolding pages_def l k[symmetric] set_map image_image by (rule image_cong) (rule refl, simp)
  also have "\<dots> = {f. l \<le> f \<and> PAGE_SIZE * f < hi}"
  proof (intro set_eqI iffI)
    fix f assume "f \<in> {f. l \<le> f \<and> PAGE_SIZE * f < hi}"
    then show "f \<in> (\<lambda>k. l + k) ` {k. PAGE_SIZE * (l + k) < hi}" using le_add_diff_inverse[of l f] by (intro image_eqI[of _ _ "f - l"]) auto
  qed auto
  finally show ?thesis unfolding l by simp
qed

lemma region_lo_aligned: "base_addr_low e < W32 \<Longrightarrow> region_lo e mod PAGE_SIZE = 0"
proof -
  have "(a - a mod 4096 + 4096) mod W32 mod 4096 = 0" for a :: nat
  proof -
    have "(a - a mod 4096 + 4096) mod W32 mod 4096 = (a - a mod 4096 + 4096) mod 4096" by (rule mod_mod_cancel) simp
    then show ?thesis by (simp add: minus_mod_eq_mult_div)
  qed
  then show "region_lo e mod PAGE_SIZE = 0" by (simp add: region_lo_def Let_def add32_def)
qed

lemma clear_region_result:
  assumes "clear_region e st = Some st'" "length (used_frames st) = nframes st div 32 + 1"
  shows "clears (region e) st st'"
proof (cases "mm_type e = 1 \<and> base_addr_high e = 0 \<and> region_lo e < region_hi e")
  case True
  have al: "region_lo e mod PAGE_SIZE = 0" using assms(1) True by (auto simp: clear_region_def IS_PAGE_ALIGNED_def split: if_splits)
  have "clears (\<Union>a\<in>set (pages (region_lo e) (region_hi e)). {a div PAGE_SIZE}) st st'"
  proof (rule foreach_clears[OF _ assms(2)])
    show "foreach (\<lambda>addr st. do { assertK (addr < add32 (base_addr_low e) (length_low e)); pmm_clear_frame addr st })
        (pages (region_lo e) (region_hi e)) st = Some st'"
      using assms(1) True by (auto simp: clear_region_def split: if_splits)
  qed (use clear_frame_result in \<open>auto simp: clears_def split: if_splits\<close>)
  moreover have "(\<Union>a\<in>set (pages (region_lo e) (region_hi e)). {a div PAGE_SIZE}) = region e"
    using True pages_frames[OF al, of "region_hi e"] by (simp add: region_def UNION_singleton_eq_range)
  ultimately show ?thesis by simp
next
  case False
  then have "st' = st" "region e = {}" using assms(1) by (auto simp: clear_region_def region_def split: if_splits)
  then show ?thesis by (simp add: clears_def)
qed

lemma init_ok:
  assumes "pmm_init ops (Some es) upper sp = Some (st', pm)"
  shows "length (used_frames pm) = nframes pm div 32 + 1" "last_allocated_frame pm = NO_FRAME" "pmem pm = snd sp"
    "f div 32 \<le> nframes pm div 32 \<Longrightarrow> frame_used pm f \<longleftrightarrow> f \<notin> (\<Union>e\<in>set es. region e)"
    "nframes pm = scan_mem_end es (let e = add32 1048576 (mul32 upper 1024) in e - e mod PAGE_SIZE) div PAGE_SIZE"
proof -
  define e2 where "e2 = scan_mem_end es (let e = add32 1048576 (mul32 upper 1024) in e - e mod PAGE_SIZE)"
  define nf where "nf = e2 div PAGE_SIZE"
  let ?pm = "\<lparr> used_frames = replicate (nf div 32 + 1) (- 1), nframes = nf, last_allocated_frame = NO_FRAME,
                mem_end_page = e2, pmem = snd sp \<rparr>"
  have "foreach clear_region es ?pm = Some pm"
    using assms unfolding pmm_init_def e2_def nf_def Let_def by (auto simp: bind_eq_Some_conv)
  then have c: "clears (\<Union>e\<in>set es. region e) ?pm pm"
    by (rule foreach_clears) (simp, rule clear_region_result)
  then show "length (used_frames pm) = nframes pm div 32 + 1" "last_allocated_frame pm = NO_FRAME" "pmem pm = snd sp"
    "nframes pm = scan_mem_end es (let e = add32 1048576 (mul32 upper 1024) in e - e mod PAGE_SIZE) div PAGE_SIZE"
    by (simp_all add: clears_def nf_def e2_def)
  show "f div 32 \<le> nframes pm div 32 \<Longrightarrow> frame_used pm f \<longleftrightarrow> f \<notin> (\<Union>e\<in>set es. region e)"
    using c by (simp add: clears_def frame_used_def del: replicate_Suc)
qed

lemma region_hi1_less: "region_hi1 e < W32"
  using add32_less[of "region_lo e" "length_low e"] unfolding region_hi1_def Let_def by linarith

lemma scan_mem_end_less: "acc < W32 \<Longrightarrow> scan_mem_end es acc < W32"
proof (induction es arbitrary: acc)
  case (Cons e es)
  then show ?case using region_hi1_less[of e] Cons.IH[of acc] Cons.IH[of "region_hi1 e"] by (auto simp: scan_mem_end_def)
qed (simp add: scan_mem_end_def)

subsection \<open>Properties\<close>

text \<open>A small machine with 64 frames, of which 36 to 39 are free.\<close>

definition pmm_small :: pmm_t where
  "pmm_small = \<lparr> used_frames = [- 1, 4294967055, - 1], nframes = 64, last_allocated_frame = NO_FRAME,
     mem_end_page = 262144, pmem = (\<lambda>_. 7) \<rparr>"

lemma pmm_small_ok: "pmm_ok pmm_small"
  by (simp add: pmm_ok_def pmm_small_def)

lemma pmm_small_free: "36 \<in> free_frames pmm_small"
  by (simp add: free_frames_def managed_def frame_used_def pmm_small_def)

text \<open>C5.  In every state in which the search hint is sound, \<open>pmm_alloc\<close> panics exactly when no
  frame is free, and otherwise returns the lowest free frame: that frame alone becomes used, its
  4096 bytes are zeroed and no other byte of physical memory changes, and the hint stays sound.\<close>

theorem pmm_alloc_lowest_free:
  assumes "pmm_ok st"
  shows "case pmm_alloc st of None \<Rightarrow> free_frames st = {}
    | Some (a, st') \<Rightarrow> \<exists>f. a = PAGE_SIZE * f \<and> f \<in> free_frames st \<and> (\<forall>g < f. frame_used st g) \<and> pmm_ok st' \<and>
        free_frames st' = free_frames st - {f} \<and>
        (\<forall>i. pmem st' i = (if a \<le> i \<and> i < a + PAGE_SIZE then 0 else pmem st i))"
proof (cases "free_frames st = {}")
  case False
  from pmm_alloc_ok[OF assms this] show ?thesis by (auto simp: zero_page_physical_def)
qed (simp add: pmm_alloc_none[OF assms])

theorem pmm_alloc_lowest_free_witness:
  "pmm_ok pmm_small \<and> free_frames pmm_small \<noteq> {} \<and> (case pmm_alloc pmm_small of None \<Rightarrow> free_frames pmm_small = {}
    | Some (a, st') \<Rightarrow> \<exists>f. a = PAGE_SIZE * f \<and> f \<in> free_frames pmm_small \<and> (\<forall>g < f. frame_used pmm_small g) \<and> pmm_ok st' \<and>
        free_frames st' = free_frames pmm_small - {f} \<and>
        (\<forall>i. pmem st' i = (if a \<le> i \<and> i < a + PAGE_SIZE then 0 else pmem pmm_small i)))"
  using pmm_alloc_lowest_free[OF pmm_small_ok] pmm_small_ok pmm_small_free by blast

text \<open>C9.  Freeing the frame that \<open>pmm_alloc\<close> just returned restores the set of free frames.\<close>

theorem pmm_alloc_free_roundtrip:
  assumes "pmm_ok st" "free_frames st \<noteq> {}"
  shows "\<exists>a st' st''. pmm_alloc st = Some (a, st') \<and> pmm_free a st' = Some st'' \<and> pmm_ok st'' \<and> free_frames st'' = free_frames st"
  by (rule pmm.alloc_release[OF assms])

theorem pmm_alloc_free_roundtrip_witness:
  "\<exists>a st' st''. pmm_alloc pmm_small = Some (a, st') \<and> pmm_free a st' = Some st'' \<and> pmm_ok st'' \<and> free_frames st'' = free_frames pmm_small"
  using pmm_alloc_free_roundtrip[OF pmm_small_ok] pmm_small_free by blast

text \<open>\<open>pmm_bytes_free\<close> and \<open>pmm_bytes_used\<close> count exactly: 4096 bytes for every free frame, and for
  every used frame, among the frames the allocator manages, without wrap-around.\<close>

theorem pmm_bytes_exact:
  assumes "pmm_ok st"
  shows "pmm_bytes_free st = Some (4096 * card (free_frames st)) \<and>
    pmm_bytes_used st = Some (4096 * (managed st - card (free_frames st)))"
proof -
  have "length (filter (frame_used st) [0..<managed st]) = managed st - card (free_frames st)"
    using sum_length_filter_compl[of "frame_used st" "[0..<managed st]"] by (simp add: card_free_frames)
  then show ?thesis using bytes_free_count[OF assms] bytes_used_count[OF assms] by (simp add: card_free_frames)
qed

theorem pmm_bytes_exact_witness:
  "pmm_bytes_free pmm_small = Some (4096 * card (free_frames pmm_small)) \<and>
    pmm_bytes_used pmm_small = Some (4096 * (managed pmm_small - card (free_frames pmm_small)))"
  by (rule pmm_bytes_exact[OF pmm_small_ok])


text \<open>The machine at boot, before paging and the heap exist, and a memory map with a usable region
  of three pages and a reserved one.\<close>

definition boot_state :: "unit kst" where
  "boot_state = \<lparr> kmem = (\<lambda>_. 0), kheap = \<lparr> start_address = 0, end_address = 0, min_address = 0, max_address = 0,
     supervisor = False, readonly = False, free_index = place_ordered_array 0 None,
     used_index = place_ordered_array 0 None, rightmost_area = 0 \<rparr>, kheap_set = False,
     placement_address = 1114112, leak = None, task_id = 0, task_name = [], vm = () \<rparr>"

definition boot_vm :: "unit vm_ops" where
  "boot_vm = \<lparr> vmo_alloc_kernel = \<lambda>lo hi w mv. None, vmo_free = \<lambda>a mv. None, vmo_get_phys = \<lambda>a v. None \<rparr>"

definition small_map :: "memory_map_t list" where
  "small_map = [\<lparr> mm_type = 1, base_addr_high = 0, base_addr_low = 8192, length_high = 0, length_low = 12288 \<rparr>,
     \<lparr> mm_type = 2, base_addr_high = 0, base_addr_low = 655360, length_high = 0, length_low = 8192 \<rparr>]"

lemma upt_3: "[0..<3] = [0, 1, 2 :: nat]"
  by (simp add: upt_rec)

lemma small_init: "\<exists>st' pm. pmm_init boot_vm (Some small_map) 0 (boot_state, \<lambda>_. 0) = Some (st', pm)"
  by (simp add: pmm_init_def Let_def scan_mem_end_def small_map_def boot_state_def kmalloc_def kmalloc_int_def
      dword_align_def region_hi1_def region_lo_def region_hi_def clear_region_def pages_def IS_PAGE_ALIGNED_def add32_def
      mul32_def pmm_clear_frame_def ARRAY_INDEX_def OFFSET_INTO_DWORD_def upt_3 nth_Cons' wr_def rd_def)


text \<open>A memory map entry that does not start on a page boundary has its start moved up but not
  its length cut: with a usable region of 8192 bytes at 0x1800, the range that is freed ends at
  0x4000, and the frame at 0x3000 is freed although 2048 of its bytes are beyond the region.\<close>

theorem region_overshoots:
  "\<exists>e. mm_type e = 1 \<and> base_addr_high e = 0 \<and> 3 \<in> region e \<and> base_addr_low e + length_low e < PAGE_SIZE * 3 + PAGE_SIZE"
  by (rule exI[of _ "\<lparr> mm_type = 1, base_addr_high = 0, base_addr_low = 6144, length_high = 0, length_low = 8192 \<rparr>"])
    (simp add: region_def region_lo_def region_hi_def Let_def)

subsection \<open>Continuous frames\<close>

lemma test_frame_ok:
  "length (used_frames st) = nframes st div 32 + 1 \<Longrightarrow> f \<le> nframes st \<Longrightarrow> pmm_test_frame (PAGE_SIZE * f) st = Some (frame_used st f)"
  using div_le_mono[of f "nframes st" 32]
  by (simp add: pmm_test_frame_def Let_def ARRAY_INDEX_def OFFSET_INTO_DWORD_def bit_test frame_used_def)

lemma run_addr:
  assumes "f + i < 1048576" shows "add32 (PAGE_SIZE * f) (mul32 i PAGE_SIZE) = PAGE_SIZE * (f + i)"
  using assms by (simp add: algebra_simps)

lemma used_within_none:
  assumes "length (used_frames st) = nframes st div 32 + 1" "nframes st < 1048576"
    "\<forall>i \<in> set is. f + i \<le> nframes st \<and> \<not> frame_used st (f + i)"
  shows "used_within (PAGE_SIZE * f) is st = Some None"
  using assms(3)
proof (induction "is")
  case (Cons i "is")
  then have "add32 (PAGE_SIZE * f) (mul32 i PAGE_SIZE) = PAGE_SIZE * (f + i)" using assms(2) by (intro run_addr) simp
  then show ?case using Cons test_frame_ok[OF assms(1), of "f + i"] by simp
qed simp

lemma set_run:
  assumes "length (used_frames st) = nframes st div 32 + 1" "nframes st < 1048576" "distinct is"
    "\<forall>i \<in> set is. f + i \<le> nframes st \<and> \<not> frame_used st (f + i)"
  shows "\<exists>ws. foreach (\<lambda>i. pmm_set_frame (add32 (PAGE_SIZE * f) (mul32 i PAGE_SIZE))) is st = Some (st\<lparr> used_frames := ws \<rparr>) \<and>
    length ws = length (used_frames st) \<and>
    (\<forall>g. frame_used (st\<lparr> used_frames := ws \<rparr>) g \<longleftrightarrow> frame_used st g \<or> g \<in> (\<lambda>i. f + i) ` set is)"
  using assms
proof (induction "is" arbitrary: st)
  case Nil
  then show ?case by (intro exI[of _ "used_frames st"]) simp
next
  case (Cons i "is")
  have a: "add32 (PAGE_SIZE * f) (mul32 i PAGE_SIZE) = PAGE_SIZE * (f + i)" using Cons.prems by (intro run_addr) simp
  obtain ws where ws: "pmm_set_frame (PAGE_SIZE * (f + i)) st = Some (st\<lparr> used_frames := ws \<rparr>)" "length ws = length (used_frames st)"
    "\<forall>g. frame_used (st\<lparr> used_frames := ws \<rparr>) g \<longleftrightarrow> frame_used st g \<or> g = f + i"
    using pmm_set_frame_ok[of st "f + i"] Cons.prems by auto
  have "\<forall>j \<in> set is. f + j \<le> nframes st \<and> \<not> frame_used (st\<lparr> used_frames := ws \<rparr>) (f + j)"
    using Cons.prems(3,4) ws(3) by auto
  then obtain ws' where "foreach (\<lambda>i. pmm_set_frame (add32 (PAGE_SIZE * f) (mul32 i PAGE_SIZE))) is (st\<lparr> used_frames := ws \<rparr>) =
      Some (st\<lparr> used_frames := ws' \<rparr>)" "length ws' = length ws"
    "\<forall>g. frame_used (st\<lparr> used_frames := ws' \<rparr>) g \<longleftrightarrow> frame_used (st\<lparr> used_frames := ws \<rparr>) g \<or> g \<in> (\<lambda>i. f + i) ` set is"
    using Cons.IH[of "st\<lparr> used_frames := ws \<rparr>"] Cons.prems(1-3) ws(2) by auto
  then show ?case using ws a by (intro exI[of _ ws']) auto
qed




end
