(* ===== verification/Heap_Inv.thy ===== *)
theory Heap_Inv
  imports Heap
begin

text \<open>
  The invariant of the kernel heap and the proofs that allocation and freeing keep it.  The areas
  tile the interval from \<open>start_address\<close> to \<open>end_address\<close>: each has an intact header and footer, the
  next one starts where it ends, and the two indexes list exactly the free and the used areas.
\<close>

subsection \<open>Areas and tilings\<close>

type_synonym area = "nat \<times> nat \<times> bool"

definition area_ok :: "mem \<Rightarrow> nat \<Rightarrow> nat \<Rightarrow> bool \<Rightarrow> bool" where
  "area_ok m x s f \<longleftrightarrow> 20 < s \<and> hdr_size m x = s \<and> hdr_type m x = (if f then AREA_FREE else AREA_USED) \<and>
     hdr_magic m x = HEAP_MAGIC \<and> ftr_magic m (x + s - 8) = HEAP_MAGIC \<and> ftr_header m (x + s - 8) = x"

fun tiles :: "mem \<Rightarrow> nat \<Rightarrow> area list \<Rightarrow> nat \<Rightarrow> bool" where
  "tiles m a [] e = (a = e)"
| "tiles m a ((x, s, f) # as) e = (x = a \<and> area_ok m x s f \<and> tiles m (a + s) as e)"

definition free_addrs :: "area list \<Rightarrow> nat list" where
  "free_addrs as = map fst (filter (\<lambda>(x, s, f). f) as)"

definition used_addrs :: "area list \<Rightarrow> nat list" where
  "used_addrs as = map fst (filter (\<lambda>(x, s, f). \<not> f) as)"

lemma addrs_simps [simp]:
  "free_addrs [] = []" "used_addrs [] = []"
  "free_addrs ((x, s, f) # as) = (if f then x # free_addrs as else free_addrs as)"
  "used_addrs ((x, s, f) # as) = (if f then used_addrs as else x # used_addrs as)"
  "free_addrs (as @ bs) = free_addrs as @ free_addrs bs"
  "used_addrs (as @ bs) = used_addrs as @ used_addrs bs"
  by (auto simp: free_addrs_def used_addrs_def)

lemma set_addrs:
  "x \<in> set (free_addrs as) \<longleftrightarrow> (\<exists>s. (x, s, True) \<in> set as)"
  "x \<in> set (used_addrs as) \<longleftrightarrow> (\<exists>s. (x, s, False) \<in> set as)"
  by (force simp: free_addrs_def used_addrs_def)+

lemma tiles_append: "tiles m a (as @ bs) e \<longleftrightarrow> (\<exists>b. tiles m a as b \<and> tiles m b bs e)"
  by (induction as arbitrary: a) auto

lemma tiles_mono: "tiles m a as e \<Longrightarrow> a \<le> e"
  by (induction as arbitrary: a) (auto, fastforce)

lemma tiles_member:
  "tiles m a as e \<Longrightarrow> (x, s, f) \<in> set as \<Longrightarrow> a \<le> x \<and> x + s \<le> e \<and> area_ok m x s f"
proof (induction as arbitrary: a)
  case (Cons c as)
  obtain y t g where c: "c = (y, t, g)" by (cases c)
  show ?case
  proof (cases "(x, s, f) = c")
    case True
    then show ?thesis using Cons.prems c tiles_mono by fastforce
  next
    case False
    then show ?thesis using Cons c by fastforce
  qed
qed simp

lemma area_ok_cong:
  assumes "\<And>i. x \<le> i \<Longrightarrow> i < x + s \<Longrightarrow> m i = m' i"
  shows "area_ok m x s f = area_ok m' x s f"
proof (cases "20 < s")
  case True
  have "ld32 m i = ld32 m' i" if "x \<le> i" "i + 4 \<le> x + s" for i
    using assms that by (intro ld32_cong) auto
  moreover have "ld8 m (x + 4) = ld8 m' (x + 4)"
    using assms[of "x + 4"] True by (simp add: ld8_def)
  ultimately show ?thesis using True
    by (simp add: area_ok_def hdr_size_def hdr_type_def hdr_magic_def ftr_magic_def ftr_header_def)
qed (simp add: area_ok_def)

lemma tiles_cong:
  "(\<And>i. a \<le> i \<Longrightarrow> i < e \<Longrightarrow> m i = m' i) \<Longrightarrow> tiles m a as e \<Longrightarrow> tiles m' a as e"
proof (induction as arbitrary: a)
  case (Cons c as)
  obtain y t g where c: "c = (y, t, g)" by (cases c)
  have t: "y = a" "area_ok m a t g" "tiles m (a + t) as e" using Cons.prems(2) c by auto
  have "a + t \<le> e" using t tiles_mono by blast
  then have "area_ok m' a t g" using area_ok_cong[of a t m m' g] Cons.prems(1) t by auto
  moreover have "tiles m' (a + t) as e" using Cons t \<open>a + t \<le> e\<close> by auto
  ultimately show ?case using c t by simp
qed simp

lemma tiles_append_Cons:
  "tiles m a (pre @ (x, s, f) # post) e \<longleftrightarrow>
   tiles m a pre x \<and> area_ok m x s f \<and> tiles m (x + s) post e"
  by (auto simp: tiles_append)

subsection \<open>Writing areas\<close>

lemmas fields = hdr_size_def hdr_type_def hdr_magic_def ftr_magic_def ftr_header_def
  set_hdr_size_def set_hdr_type_def set_hdr_magic_def set_ftr_magic_def set_ftr_header_def

definition write_area :: "nat \<Rightarrow> nat \<Rightarrow> nat \<Rightarrow> mem \<Rightarrow> mem" where
  "write_area a s t m = (let f = a + s - 8 in
     set_ftr_header f a (set_ftr_magic f HEAP_MAGIC
       (set_hdr_type a t (set_hdr_magic a HEAP_MAGIC (set_hdr_size a s m)))))"

lemma write_area_ok:
  "20 < s \<Longrightarrow> a + s < W32 \<Longrightarrow> t = (if f then AREA_FREE else AREA_USED) \<Longrightarrow> area_ok (write_area a s t m) a s f"
proof -
  assume a: "20 < s" "a + s < W32" "t = (if f then AREA_FREE else AREA_USED)"
  obtain b where b: "a + s - 8 = b" "b + 8 = a + s" "a + 12 < b" using a by force
  show ?thesis using a b by (simp add: area_ok_def write_area_def Let_def fields loads)
qed

lemma write_area_apply:
  "i < a \<or> a + s \<le> i \<Longrightarrow> 20 < s \<Longrightarrow> write_area a s t m i = m i"
proof -
  assume a: "20 < s" "i < a \<or> a + s \<le> i"
  obtain b where b: "a + s - 8 = b" "b + 8 = a + s" "a + 12 < b" using a by force
  show ?thesis using a(2)
  proof
    assume "i < a"
    then show ?thesis using b by (simp add: write_area_def Let_def fields loads)
  next
    assume "a + s \<le> i"
    then show ?thesis using b by (simp add: write_area_def Let_def fields loads)
  qed
qed

subsection \<open>The invariant\<close>

definition geom :: "heap_t \<Rightarrow> bool" where
  "geom h \<longleftrightarrow> 4096 \<le> start_address h \<and> start_address h mod PAGE_SIZE = 0 \<and> end_address h mod PAGE_SIZE = 0 \<and>
     start_address h \<le> end_address h \<and> end_address h \<le> 3489660928 \<and>
     end_address h - start_address h < 2147483648"

definition indexed :: "heap_t \<Rightarrow> area list \<Rightarrow> nat multiset \<Rightarrow> bool" where
  "indexed h as M \<longleftrightarrow> oa_usable (free_index h) \<and> oa_usable (used_index h) \<and>
     mset (oa_contents (free_index h)) + M = mset (free_addrs as) \<and>
     mset (oa_contents (used_index h)) = mset (used_addrs as)"

text \<open>\<open>hinv st as M\<close>: the areas of the heap are \<open>as\<close>, and \<open>M\<close> collects the free areas that are
  not (yet) listed in \<open>free_index\<close>; between two calls it is empty.\<close>

definition hinv :: "'v kst \<Rightarrow> area list \<Rightarrow> nat multiset \<Rightarrow> bool" where
  "hinv st as M \<longleftrightarrow> geom (kheap st) \<and> indexed (kheap st) as M \<and>
     tiles (kmem st) (start_address (kheap st)) as (end_address (kheap st)) \<and>
     as \<noteq> [] \<and> rightmost_area (kheap st) = fst (last as) \<and>
     hdr_magic (kmem st) (end_address (kheap st)) \<noteq> HEAP_MAGIC"

definition heap_inv :: "'v kst \<Rightarrow> area list \<Rightarrow> bool" where
  "heap_inv st as \<longleftrightarrow> hinv st as {#}"

text \<open>\<open>ready st pre a s post\<close>: a hole of \<open>s\<close> bytes at \<open>a\<close> is being worked on; everything to its left
  and right is in order.\<close>

definition ready :: "'v kst \<Rightarrow> area list \<Rightarrow> nat \<Rightarrow> nat \<Rightarrow> area list \<Rightarrow> bool" where
  "ready st pre a s post \<longleftrightarrow> geom (kheap st) \<and> indexed (kheap st) (pre @ post) {#} \<and>
     tiles (kmem st) (start_address (kheap st)) pre a \<and>
     tiles (kmem st) (a + s) post (end_address (kheap st)) \<and>
     (if post = [] then rightmost_area (kheap st) \<le> a else rightmost_area (kheap st) = fst (last post)) \<and>
     hdr_magic (kmem st) (end_address (kheap st)) \<noteq> HEAP_MAGIC"

lemma FOOTER_area:
  "area_ok m x s f \<Longrightarrow> x + s < W32 \<Longrightarrow> FOOTER_FROM_HEADER m x = x + s - 8"
  by (simp add: FOOTER_FROM_HEADER_def area_ok_def)

lemma do_asserts_ok:
  assumes "oa_usable idx" "0 < b" "20 < t" "b + t < W32"
    and areas: "\<And>x. x \<in> set (oa_contents idx) \<Longrightarrow>
      \<exists>s f. area_ok m x s f \<and> x + s < W32 \<and> (x + s \<le> b \<or> b + t \<le> x)"
  shows "do_asserts_for_index m idx b (b + t - 8) t = Some ()"
proof -
  have ok: "(let ff = FOOTER_FROM_HEADER m x in do {
       assertK (x \<noteq> b); assertK (ff \<noteq> b + t - 8); assertK (x \<noteq> b + t - 8); assertK (ff \<noteq> b);
       assertK (hdr_magic m x = HEAP_MAGIC); assertK (ftr_magic m ff = HEAP_MAGIC);
       assertK (ftr_header m ff = x);
       if b < x then assertK (add32 b t \<le> x)
       else if b > x then assertK (add32 x (hdr_size m x) \<le> b) else Some () }) = Some ()"
    if x: "x \<in> set (oa_contents idx)" for x
  proof -
    obtain s f where a: "area_ok m x s f" "x + s < W32" "x + s \<le> b \<or> b + t \<le> x"
      using areas[OF x] by blast
    obtain g where g: "x + s - 8 = g" "g + 8 = x + s" using a(1) by (force simp: area_ok_def)
    obtain k where k: "b + t - 8 = k" "k + 8 = b + t" using assms(3) by force
    have ne: "x \<noteq> b" "g \<noteq> k" "x \<noteq> k" "g \<noteq> b" "b < x \<longrightarrow> b + t \<le> x" "\<not> b < x \<longrightarrow> x + s \<le> b"
      using a(3) g(2) k(2) assms(3) a(1)[unfolded area_ok_def, THEN conjunct1] by linarith+
    have "FOOTER_FROM_HEADER m x = g" using FOOTER_area[OF a(1,2)] g by simp
    then show ?thesis using a(1,2) ne assms(4) unfolding k(1) area_ok_def g(1) by simp
  qed
  show ?thesis unfolding do_asserts_for_index_def
    using assms(2-4) oa.foreach_get[OF assms(1) ok] by simp
qed

lemma indexed_set:
  assumes "indexed h as {#}"
  shows "set (oa_contents (free_index h)) = set (free_addrs as)"
    "set (oa_contents (used_index h)) = set (used_addrs as)"
  using assms unfolding indexed_def by (metis add.right_neutral set_mset_mset)+

lemma ready_bounds:
  assumes "ready st pre a s post"
  shows "start_address (kheap st) \<le> a" "a + s \<le> end_address (kheap st)"
    "4096 \<le> start_address (kheap st)" "end_address (kheap st) \<le> 3489660928"
  using assms tiles_mono unfolding ready_def geom_def by blast+

lemma ready_outside:
  assumes "ready st pre a s post" "(x, t, f) \<in> set (pre @ post)"
  shows "area_ok (kmem st) x t f \<and> x + t < W32 \<and> (x + t \<le> a \<or> a + s \<le> x)"
proof -
  have "(x, t, f) \<in> set pre \<or> (x, t, f) \<in> set post" using assms(2) by simp
  then show ?thesis
  proof
    assume "(x, t, f) \<in> set pre"
    then show ?thesis using assms(1) ready_bounds[OF assms(1)] tiles_member[of "kmem st" _ pre a x t f]
      unfolding ready_def by fastforce
  next
    assume "(x, t, f) \<in> set post"
    then show ?thesis using assms(1) ready_bounds[OF assms(1)] tiles_member[of "kmem st" _ post _ x t f]
      unfolding ready_def by fastforce
  qed
qed

lemma ready_mem:
  assumes "ready st pre a s post" "\<And>j. j < a \<or> a + s \<le> j \<Longrightarrow> m j = kmem st j"
  shows "tiles m (start_address (kheap st)) pre a" "tiles m (a + s) post (end_address (kheap st))"
    "hdr_magic m (end_address (kheap st)) \<noteq> HEAP_MAGIC"
  using assms tiles_cong[of _ a "kmem st" m pre] tiles_cong[of "a + s" _ "kmem st" m post]
    ready_bounds(2)[OF assms(1)] ld32_cong[of "end_address (kheap st) + 8" m "kmem st"]
  unfolding ready_def hdr_magic_def by auto

lemma ready_rightmost:
  assumes "ready st pre a s post" "post \<noteq> []"
  shows "a + s \<le> rightmost_area (kheap st)" "rightmost_area (kheap st) = fst (last post)"
proof -
  obtain x z f where "last post = (x, z, f)" "(x, z, f) \<in> set post"
    using assms(2) by (metis last_in_set prod_cases3)
  then show "a + s \<le> rightmost_area (kheap st)" "rightmost_area (kheap st) = fst (last post)"
    using assms tiles_member[of "kmem st" "a + s" post] unfolding ready_def by fastforce+
qed

lemma create_area_ready:
  assumes r: "ready st pre a s post" and b: "a \<le> b" "b + t \<le> a + s" "20 < t"
    and ty: "ty = AREA_USED \<or> ty = AREA_FREE"
  shows "create_area b t ty st = Some (b, st\<lparr> kmem := write_area b t ty (kmem st),
    kheap := (kheap st)\<lparr> rightmost_area := max (rightmost_area (kheap st)) b \<rparr> \<rparr>)"
proof -
  have idx: "indexed (kheap st) (pre @ post) {#}" using r by (simp add: ready_def)
  have bnd: "0 < b" "b + t < W32" "b + t \<le> end_address (kheap st)" "start_address (kheap st) \<le> b"
    using ready_bounds[OF r] b by linarith+
  have out: "\<exists>s f. area_ok (kmem st) x s f \<and> x + s < W32 \<and> (x + s \<le> b \<or> b + t \<le> x)"
    if x: "(x, s', f') \<in> set (pre @ post)" for x s' f'
    using ready_outside[OF r x] b by force
  have "do_asserts_for_index (kmem st) i b (b + t - 8) t = Some ()"
    if i: "i = free_index (kheap st) \<or> i = used_index (kheap st)" for i
  proof (rule do_asserts_ok)
    show "oa_usable i" using i idx by (auto simp: indexed_def)
    fix x assume "x \<in> set (oa_contents i)"
    then obtain s' f' where "(x, s', f') \<in> set (pre @ post)"
      using i indexed_set[OF idx] set_addrs[of x "pre @ post"] by blast
    then show "\<exists>s f. area_ok (kmem st) x s f \<and> x + s < W32 \<and> (x + s \<le> b \<or> b + t \<le> x)" by (rule out)
  qed (use bnd b in auto)
  then show ?thesis using bnd b ty
    by (auto simp: create_area_def Let_def write_area_def max_def)
qed

subsection \<open>Frames\<close>

text \<open>\<open>frame lo hi st st'\<close>: a step changed memory only in \<open>[lo, hi)\<close> and of the heap at most the
  indexes and the rightmost area.\<close>

definition frame :: "nat \<Rightarrow> nat \<Rightarrow> 'v kst \<Rightarrow> 'v kst \<Rightarrow> bool" where
  "frame lo hi st st' \<longleftrightarrow> (\<forall>i. i < lo \<or> hi \<le> i \<longrightarrow> kmem st' i = kmem st i) \<and>
     start_address (kheap st') = start_address (kheap st) \<and> end_address (kheap st') = end_address (kheap st) \<and>
     max_address (kheap st') = max_address (kheap st) \<and> readonly (kheap st') = readonly (kheap st) \<and>
     kheap_set st' = kheap_set st \<and> task_id st' = task_id st \<and> task_name st' = task_name st \<and> vm st' = vm st"

lemma frame_refl [simp]: "frame lo hi st st"
  by (simp add: frame_def)

lemma frame_trans: "frame lo hi st st' \<Longrightarrow> frame lo hi st' st'' \<Longrightarrow> frame lo hi st st''"
  by (simp add: frame_def)

lemma frame_mono: "frame lo hi st st' \<Longrightarrow> lo' \<le> lo \<Longrightarrow> hi \<le> hi' \<Longrightarrow> frame lo' hi' st st'"
  unfolding frame_def by (meson le_trans less_le_trans)

lemma geom_upd [simp]:
  "geom (h\<lparr> rightmost_area := r \<rparr>) = geom h" "geom (h\<lparr> free_index := i \<rparr>) = geom h"
  "geom (h\<lparr> used_index := i \<rparr>) = geom h"
  by (simp_all add: geom_def)

lemma indexed_rightmost [simp]: "indexed (h\<lparr> rightmost_area := r \<rparr>) as M = indexed h as M"
  by (simp add: indexed_def)

lemma indexed_perm:
  "indexed h as M \<Longrightarrow> mset as = mset bs \<Longrightarrow> indexed h bs M"
  unfolding indexed_def free_addrs_def used_addrs_def by (simp add: mset_filter)

lemma insert_free_ok:
  assumes "indexed (kheap st) as {#x#}" "0 < oa_room (free_index (kheap st))"
  shows "\<exists>i. insert_free x st = Some (st\<lparr> kheap := (kheap st)\<lparr> free_index := i \<rparr> \<rparr>) \<and>
    indexed ((kheap st)\<lparr> free_index := i \<rparr>) as {#} \<and> Suc (oa_room i) = oa_room (free_index (kheap st))"
  using oa.add_law[of "free_index (kheap st)" "kmem st" x] assms
  by (auto simp: insert_free_def indexed_def)

lemma insert_used_ok:
  assumes "indexed (kheap st) (pre @ post) {#}" "0 < oa_room (used_index (kheap st))"
  shows "\<exists>i. insert_used x st = Some (st\<lparr> kheap := (kheap st)\<lparr> used_index := i \<rparr> \<rparr>) \<and>
    indexed ((kheap st)\<lparr> used_index := i \<rparr>) (pre @ (x, s, False) # post) {#} \<and>
    Suc (oa_room i) = oa_room (used_index (kheap st))"
  using oa.add_law[of "used_index (kheap st)" "kmem st" x] assms
  by (auto simp: insert_used_def indexed_def)

lemma remove_free_ok:
  assumes "indexed (kheap st) as {#}" "0 < oa_room (free_index (kheap st))" "(x, s, True) \<in> set as"
  shows "\<exists>i. remove_free x st = Some (st\<lparr> kheap := (kheap st)\<lparr> free_index := i \<rparr> \<rparr>) \<and>
    indexed ((kheap st)\<lparr> free_index := i \<rparr>) as {#x#} \<and> oa_room i = Suc (oa_room (free_index (kheap st)))"
proof -
  have "x \<in> set (oa_contents (free_index (kheap st)))"
    using indexed_set(1)[OF assms(1)] assms(3) set_addrs by blast
  then obtain i where i: "remove_ordered_array_item x (free_index (kheap st)) = Some i" "oa_usable i"
    "oa_room i = Suc (oa_room (free_index (kheap st)))"
    "mset (oa_contents i) = mset (oa_contents (free_index (kheap st))) - {#x#}"
    using oa.del_law[of "free_index (kheap st)" x] assms by (auto simp: indexed_def)
  then show ?thesis using assms(1) \<open>x \<in> set _\<close>
    using set_addrs(1)[of x as] assms(3)
    by (intro exI[of _ i]) (auto simp: remove_free_def indexed_def)
qed

lemma remove_used_ok:
  assumes "indexed (kheap st) (pre @ (x, s, False) # post) {#}" "0 < oa_room (used_index (kheap st))"
  shows "\<exists>i. remove_used x st = Some (st\<lparr> kheap := (kheap st)\<lparr> used_index := i \<rparr> \<rparr>) \<and>
    indexed ((kheap st)\<lparr> used_index := i \<rparr>) (pre @ (x, s, True) # post) {#x#} \<and>
    oa_room i = Suc (oa_room (used_index (kheap st)))"
proof -
  have "x \<in> set (oa_contents (used_index (kheap st)))"
    using indexed_set(2)[OF assms(1)] by simp
  then show ?thesis
    using oa.del_law[of "used_index (kheap st)" x] assms
    by (auto simp: remove_used_def indexed_def)
qed

subsection \<open>Allocation inside a hole\<close>

lemma indexed_drop_missing:
  "indexed h (pre @ (x, s, True) # post) {#x#} \<longleftrightarrow> indexed h (pre @ post) {#}"
  by (auto simp: indexed_def)

text \<open>Cutting a free area off the right end, or the left end, of the hole.\<close>

lemma carve_right:
  assumes r: "ready st pre a s post" and t: "20 < t" "t + 20 < s" and room: "0 < oa_room (free_index (kheap st))"
  shows "\<exists>st0 st'. create_area (a + t) (s - t) AREA_FREE st = Some (a + t, st0) \<and>
    insert_free (a + t) st0 = Some st' \<and> ready st' pre a t ((a + t, s - t, True) # post) \<and>
    frame (a + t) (a + s) st st' \<and> leak st' = leak st \<and> used_index (kheap st') = used_index (kheap st) \<and>
    Suc (oa_room (free_index (kheap st'))) = oa_room (free_index (kheap st))"
proof -
  let ?b = "a + t" and ?u = "s - t"
  let ?m = "write_area ?b ?u AREA_FREE (kmem st)"
  let ?st0 = "st\<lparr> kmem := ?m, kheap := (kheap st)\<lparr> rightmost_area := max (rightmost_area (kheap st)) ?b \<rparr> \<rparr>"
  have c: "create_area ?b ?u AREA_FREE st = Some (?b, ?st0)"
    using t by (intro create_area_ready[OF r]) auto
  have bu: "?b + ?u = a + s" using t by simp
  have ix: "indexed (kheap ?st0) (pre @ (?b, ?u, True) # post) {#?b#}"
    using r unfolding ready_def indexed_drop_missing by simp
  then obtain i where i: "insert_free ?b ?st0 = Some (?st0\<lparr> kheap := (kheap ?st0)\<lparr> free_index := i \<rparr> \<rparr>)"
    "indexed ((kheap ?st0)\<lparr> free_index := i \<rparr>) (pre @ (?b, ?u, True) # post) {#}"
    "Suc (oa_room i) = oa_room (free_index (kheap ?st0))"
    using insert_free_ok[OF ix] room by auto
  have same: "?m j = kmem st j" if "j < ?b \<or> a + s \<le> j" for j
    using write_area_apply[of j ?b ?u] that t bu by simp
  have out: "\<And>j. j < a \<or> a + s \<le> j \<Longrightarrow> ?m j = kmem st j" using same t by auto
  note rm = ready_mem[OF r out]
  have "area_ok ?m ?b ?u True"
    using t bu ready_bounds[OF r] by (intro write_area_ok) auto
  moreover have "rightmost_area (kheap ?st0) = fst (last ((?b, ?u, True) # post))"
    using r t ready_rightmost[OF r] by (auto simp: ready_def)
  ultimately have "ready (?st0\<lparr> kheap := (kheap ?st0)\<lparr> free_index := i \<rparr> \<rparr>) pre a t ((?b, ?u, True) # post)"
    using r rm i(2) bu unfolding ready_def by simp
  then show ?thesis using c i same unfolding frame_def by auto
qed

lemma carve_left:
  assumes r: "ready st pre a s post" and t: "20 < t" "t + 20 < s" and room: "0 < oa_room (free_index (kheap st))"
  shows "\<exists>st0 st'. create_area a t AREA_FREE st = Some (a, st0) \<and>
    insert_free a st0 = Some st' \<and> ready st' (pre @ [(a, t, True)]) (a + t) (s - t) post \<and>
    frame a (a + t) st st' \<and> leak st' = leak st \<and> used_index (kheap st') = used_index (kheap st) \<and>
    Suc (oa_room (free_index (kheap st'))) = oa_room (free_index (kheap st))"
proof -
  let ?m = "write_area a t AREA_FREE (kmem st)"
  let ?st0 = "st\<lparr> kmem := ?m, kheap := (kheap st)\<lparr> rightmost_area := max (rightmost_area (kheap st)) a \<rparr> \<rparr>"
  have c: "create_area a t AREA_FREE st = Some (a, ?st0)"
    using t by (intro create_area_ready[OF r]) auto
  have ix: "indexed (kheap ?st0) (pre @ (a, t, True) # post) {#a#}"
    using r unfolding ready_def indexed_drop_missing by simp
  then obtain i where i: "insert_free a ?st0 = Some (?st0\<lparr> kheap := (kheap ?st0)\<lparr> free_index := i \<rparr> \<rparr>)"
    "indexed ((kheap ?st0)\<lparr> free_index := i \<rparr>) (pre @ (a, t, True) # post) {#}"
    "Suc (oa_room i) = oa_room (free_index (kheap ?st0))"
    using insert_free_ok[OF ix] room by auto
  have same: "?m j = kmem st j" if "j < a \<or> a + t \<le> j" for j
    using write_area_apply[of j a t] that t by simp
  have out: "\<And>j. j < a \<or> a + s \<le> j \<Longrightarrow> ?m j = kmem st j" using same t by auto
  note rm = ready_mem[OF r out]
  have "area_ok ?m a t True"
    using t ready_bounds[OF r] by (intro write_area_ok) auto
  moreover have "post \<noteq> [] \<Longrightarrow> rightmost_area (kheap st) = max (rightmost_area (kheap st)) a"
    using ready_rightmost[OF r] by simp
  ultimately have "ready (?st0\<lparr> kheap := (kheap ?st0)\<lparr> free_index := i \<rparr> \<rparr>)
     (pre @ [(a, t, True)]) (a + t) (s - t) post"
    using r rm same i(2) t unfolding ready_def by (auto simp: tiles_append split: if_splits)
  then show ?thesis using c i same unfolding frame_def by auto
qed

text \<open>Filling the hole completes the tiling.\<close>

lemma fill_hole:
  assumes r: "ready st pre a s post" and s: "20 < s"
  shows "\<exists>st'. create_area a s (if f then AREA_FREE else AREA_USED) st = Some (a, st') \<and>
    geom (kheap st') \<and> indexed (kheap st') (pre @ post) {#} \<and>
    tiles (kmem st') (start_address (kheap st')) (pre @ (a, s, f) # post) (end_address (kheap st')) \<and>
    rightmost_area (kheap st') = fst (last (pre @ (a, s, f) # post)) \<and>
    hdr_magic (kmem st') (end_address (kheap st')) \<noteq> HEAP_MAGIC \<and> frame a (a + s) st st' \<and>
    leak st' = leak st \<and> used_index (kheap st') = used_index (kheap st) \<and>
    free_index (kheap st') = free_index (kheap st)"
proof -
  let ?ty = "if f then AREA_FREE else AREA_USED"
  let ?m = "write_area a s ?ty (kmem st)"
  let ?st' = "st\<lparr> kmem := ?m, kheap := (kheap st)\<lparr> rightmost_area := max (rightmost_area (kheap st)) a \<rparr> \<rparr>"
  have c: "create_area a s ?ty st = Some (a, ?st')"
    using s by (intro create_area_ready[OF r]) auto
  have same: "?m j = kmem st j" if "j < a \<or> a + s \<le> j" for j
    using write_area_apply[of j a s] that s by simp
  have out: "\<And>j. j < a \<or> a + s \<le> j \<Longrightarrow> ?m j = kmem st j" using same by auto
  note rm = ready_mem[OF r out]
  have A: "area_ok ?m a s f"
    using s ready_bounds[OF r] by (intro write_area_ok) auto
  have R: "max (rightmost_area (kheap st)) a = fst (last (pre @ (a, s, f) # post))"
    using r ready_rightmost[OF r] by (auto simp: ready_def)
  show ?thesis using c same rm A R r
    by (intro exI[of _ ?st']) (simp add: frame_def ready_def tiles_append_Cons)
qed

definition trace_room :: "'v kst \<Rightarrow> bool" where
  "trace_room st \<longleftrightarrow> (case leak st of None \<Rightarrow> True
     | Some (l, es) \<Rightarrow> (\<exists>e \<in> set es. li_allocation e = 0) \<and>
         (\<forall>e \<in> set es. li_allocation e = 0 \<longrightarrow> li_allocator_pid e = 0))"

lemma trace_slot_ok:
  "\<exists>e \<in> set es. li_allocation e = 0 \<Longrightarrow> \<forall>e \<in> set es. li_allocation e = 0 \<longrightarrow> li_allocator_pid e = 0 \<Longrightarrow>
   \<exists>es'. trace_slot es pid name p sz = Some es'"
proof (induction es)
  case (Cons e es)
  show ?case
  proof (cases "li_allocation e = 0")
    case False
    then obtain es' where "trace_slot es pid name p sz = Some es'" using Cons by auto
    then show ?thesis using False by simp
  qed (use Cons in simp)
qed simp

lemma trace_alloc_ok:
  "trace_room st \<Longrightarrow> \<exists>l. trace_alloc p sz st = Some (st\<lparr> leak := l \<rparr>)"
proof (cases "leak st")
  case (Some le)
  assume "trace_room st"
  then show ?thesis using Some trace_slot_ok[of "snd le" "task_id st" "task_name st" p sz]
    by (cases le) (auto simp: trace_alloc_def trace_room_def)
next
  case None
  have "trace_alloc p sz st = Some (st\<lparr> leak := leak st \<rparr>)" using None by (simp add: trace_alloc_def)
  then show ?thesis by blast
qed

lemma leak_upd [simp]:
  "hinv (st\<lparr> leak := l \<rparr>) as M = hinv st as M" "frame lo hi st (st'\<lparr> leak := l \<rparr>) = frame lo hi st st'"
  by (simp_all add: hinv_def frame_def)

lemma alloc_finish_ok:
  assumes r: "ready st pre a s post" and h: "hdr_size (kmem st) a = s" and sz: "20 < sz" "sz \<le> s"
    and room: "0 < oa_room (free_index (kheap st))" "0 < oa_room (used_index (kheap st))" "trace_room st"
  defines "split \<equiv> 36 \<le> s - sz"
  shows "\<exists>st'. alloc_finish sz a st = Some (dword_align (a + 12), st') \<and>
    heap_inv st' (pre @ (a, if split then sz else s, False) # (if split then [(a + sz, s - sz, True)] else []) @ post) \<and>
    frame a (a + s) st st' \<and> oa_room (free_index (kheap st)) \<le> Suc (oa_room (free_index (kheap st'))) \<and>
    oa_room (used_index (kheap st)) = Suc (oa_room (used_index (kheap st')))"
proof -
  define n where "n = (if split then sz else s)"
  define rest where "rest = (if split then [(a + sz, s - sz, True)] else [])"
  have bnd: "a + s < W32" "s < W32" using ready_bounds[OF r] by linarith+
  have n20: "20 < n" "n \<le> s" using sz by (auto simp: n_def)
  obtain st1 where st1: "(if 36 \<le> sub32 s sz then do {
                   (h, st0) \<leftarrow> create_area (add32 a sz) (sub32 s sz) AREA_FREE st;
                   st0' \<leftarrow> insert_free (add32 a sz) st0;
                   Some (sz, st0') }
                 else Some (add32 sz (sub32 s sz), st)) = Some (n, st1)"
    "ready st1 pre a n (rest @ post)" "frame a (a + s) st st1" "leak st1 = leak st"
    "used_index (kheap st1) = used_index (kheap st)"
    "oa_room (free_index (kheap st)) \<le> Suc (oa_room (free_index (kheap st1)))"
  proof (cases split)
    case True
    then have t: "sz + 20 < s" by (auto simp: split_def)
    obtain st0 st' where c: "create_area (a + sz) (s - sz) AREA_FREE st = Some (a + sz, st0)"
      "insert_free (a + sz) st0 = Some st'" "ready st' pre a sz ((a + sz, s - sz, True) # post)"
      "frame (a + sz) (a + s) st st'" "leak st' = leak st" "used_index (kheap st') = used_index (kheap st)"
      "Suc (oa_room (free_index (kheap st'))) = oa_room (free_index (kheap st))"
      using carve_right[OF r sz(1) t room(1)] by blast
    have "add32 a sz = a + sz" "sub32 s sz = s - sz" "36 \<le> s - sz" using True bnd sz by (simp_all add: split_def)
    then show ?thesis using c True frame_mono[OF c(4), of a "a + s"]
      by (intro that[of st']) (simp_all add: n_def rest_def)
  next
    case False
    then show ?thesis using that[of st] r sz bnd by (simp add: split_def n_def rest_def)
  qed
  obtain st2 where st2: "create_area a n AREA_USED st1 = Some (a, st2)" "geom (kheap st2)"
    "indexed (kheap st2) (pre @ rest @ post) {#}"
    "tiles (kmem st2) (start_address (kheap st2)) (pre @ (a, n, False) # rest @ post) (end_address (kheap st2))"
    "rightmost_area (kheap st2) = fst (last (pre @ (a, n, False) # rest @ post))"
    "hdr_magic (kmem st2) (end_address (kheap st2)) \<noteq> HEAP_MAGIC" "frame a (a + n) st1 st2"
    "leak st2 = leak st1" "used_index (kheap st2) = used_index (kheap st1)"
    "free_index (kheap st2) = free_index (kheap st1)"
    using fill_hole[OF st1(2), of False] n20 by auto
  obtain i where i: "insert_used a st2 = Some (st2\<lparr> kheap := (kheap st2)\<lparr> used_index := i \<rparr> \<rparr>)"
    "indexed ((kheap st2)\<lparr> used_index := i \<rparr>) (pre @ (a, n, False) # rest @ post) {#}"
    "Suc (oa_room i) = oa_room (used_index (kheap st2))"
    using insert_used_ok[OF st2(3)] room(2) st2(9) st1(5) by auto
  let ?st3 = "st2\<lparr> kheap := (kheap st2)\<lparr> used_index := i \<rparr> \<rparr>"
  obtain l where l: "trace_alloc (dword_align (a + 12)) n ?st3 = Some (?st3\<lparr> leak := l \<rparr>)"
    using trace_alloc_ok[of ?st3] room(3) st1(4) st2(8) by (auto simp: trace_room_def)
  have "frame a (a + s) st1 st2" using frame_mono[OF st2(7), of a "a + s"] n20 by simp
  moreover have "frame a (a + s) st2 ?st3" by (simp add: frame_def)
  ultimately have fr: "frame a (a + s) st ?st3" using frame_trans st1(3) by blast
  have inv: "heap_inv (?st3\<lparr> leak := l \<rparr>) (pre @ (a, n, False) # rest @ post)"
    unfolding heap_inv_def leak_upd unfolding hinv_def using st2 i by simp
  have "add32 a 12 = a + 12" using sz bnd by simp
  then have "alloc_finish sz a st = Some (dword_align (a + 12), ?st3\<lparr> leak := l \<rparr>)"
    unfolding alloc_finish_def h Let_def using st1(1) st2(1) i(1) l by simp
  then show ?thesis using inv fr i(3) st1(5,6) st2(9,10)
    unfolding n_def[symmetric] rest_def[symmetric]
    by (intro exI[of _ "?st3\<lparr> leak := l \<rparr>"]) simp
qed

end
