(* ===== verification/Heap_Ops.thy ===== *)
theory Heap_Ops
  imports Heap_Inv
begin

text \<open>
  The heap operations keep the invariant: page alignment of a hole, allocation with and without
  growing the heap, freeing with coalescing, and the kernel's entry points.
\<close>

subsection \<open>Resizing an area in place\<close>

definition resize_area :: "nat \<Rightarrow> nat \<Rightarrow> mem \<Rightarrow> mem" where
  "resize_area x d m = (let m1 = set_ftr_magic (FOOTER_FROM_HEADER m x) 0 m in
     write_footer x (set_hdr_size x (add32 (hdr_size m1 x) d) m1))"

text \<open>\<open>kept m m' as\<close>: the bytes between header and footer of every area in \<open>as\<close> are unchanged.\<close>

definition kept :: "mem \<Rightarrow> mem \<Rightarrow> area list \<Rightarrow> bool" where
  "kept m m' as \<longleftrightarrow> (\<forall>(x, s, f) \<in> set as. \<forall>i. x + 12 \<le> i \<and> i + 8 < x + s \<longrightarrow> m' i = m i)"

lemma kept_refl [simp]: "kept m m as"
  by (auto simp: kept_def)

lemma kept_append [simp]: "kept m m' (as @ bs) \<longleftrightarrow> kept m m' as \<and> kept m m' bs"
  by (simp add: kept_def ball_Un)

lemma kept_Cons [simp]:
  "kept m m' ((x, s, f) # as) \<longleftrightarrow> (\<forall>i. x + 12 \<le> i \<and> i + 8 < x + s \<longrightarrow> m' i = m i) \<and> kept m m' as"
  by (auto simp: kept_def)

lemma kept_tiles:
  assumes "tiles m a as e" "\<And>i. a \<le> i \<Longrightarrow> i < e \<Longrightarrow> m' i = m i"
  shows "kept m m' as"
  unfolding kept_def
proof (clarify)
  fix x s f i assume "(x, s, f) \<in> set as" and i: "x + 12 \<le> i" "i + 8 < x + s"
  then have "a \<le> x" "x + s \<le> e" using tiles_member[OF assms(1)] by auto
  then show "m' i = m i" using assms(2)[of i] i by linarith
qed

lemma kept_tiles_trans:
  assumes "kept m m1 as" "tiles m a as e" "\<And>i. a \<le> i \<Longrightarrow> i < e \<Longrightarrow> m2 i = m1 i"
  shows "kept m m2 as"
  unfolding kept_def
proof (clarify)
  fix x s f i assume x: "(x, s, f) \<in> set as" and i: "x + 12 \<le> i" "i + 8 < x + s"
  then have "a \<le> x" "x + s \<le> e" using tiles_member[OF assms(2)] by auto
  then have "m2 i = m1 i" using assms(3)[of i] i by linarith
  then show "m2 i = m i" using assms(1) x i unfolding kept_def by fastforce
qed

lemma kept_Nil [simp]: "kept m m' []"
  by (simp add: kept_def)

lemma resize_area_ok:
  assumes a: "area_ok m x t f" and d: "x + t + d < W32"
  shows "area_ok (resize_area x d m) x (t + d) f"
    "i < x \<or> x + t + d \<le> i \<Longrightarrow> resize_area x d m i = m i"
    "x + 12 \<le> i \<Longrightarrow> i + 8 < x + t \<Longrightarrow> resize_area x d m i = m i"
proof -
  obtain b where b: "x + t - 8 = b" "b + 8 = x + t" "x + 12 < b" using a by (force simp: area_ok_def)
  have F: "FOOTER_FROM_HEADER m x = b" using FOOTER_area[OF a] d b by simp
  define m1 where "m1 = set_ftr_magic b 0 m"
  have s1: "hdr_size m1 x = t" using a b by (simp add: m1_def area_ok_def fields loads)
  define m2 where "m2 = set_hdr_size x (t + d) m1"
  have "hdr_size m2 x = t + d" using d by (simp add: m2_def fields)
  then have F2: "FOOTER_FROM_HEADER m2 x = b + d" using d b by (simp add: FOOTER_FROM_HEADER_def)
  have eq: "resize_area x d m = set_ftr_header (b + d) x (set_ftr_magic (b + d) HEAP_MAGIC m2)"
    using F s1 d F2 by (simp add: resize_area_def write_footer_def Let_def m1_def[symmetric] m2_def[symmetric])
  have bd: "x + (t + d) - 8 = b + d" using b by simp
  show "area_ok (resize_area x d m) x (t + d) f"
    using a b d unfolding eq area_ok_def bd b(1) m2_def m1_def by (simp add: fields loads)
  show "i < x \<or> x + t + d \<le> i \<Longrightarrow> resize_area x d m i = m i"
    using b unfolding eq m2_def m1_def by (auto simp: fields loads)
  show "x + 12 \<le> i \<Longrightarrow> i + 8 < x + t \<Longrightarrow> resize_area x d m i = m i"
    using b unfolding eq m2_def m1_def by (simp add: fields loads)
qed

subsection \<open>Page alignment\<close>

lemma page_offset_props:
  assumes "a + 12 < W32" "\<not> IS_PAGE_ALIGNED (a + 12)"
  shows "0 < page_offset a" "page_offset a < 4096" "IS_PAGE_ALIGNED (a + page_offset a + 12)"
proof -
  have "page_offset a = 4096 - (a + 12) mod 4096" using assms by (simp add: page_offset_def)
  moreover have "0 < (a + 12) mod 4096" "(a + 12) mod 4096 < 4096"
    using assms(2) by (simp_all add: IS_PAGE_ALIGNED_def)
  moreover have "(a + 12 + (4096 - (a + 12) mod 4096)) mod 4096 = 0"
    using calculation(3) by (metis le_add_diff_inverse less_imp_le mod_add_left_eq mod_self)
  ultimately show "0 < page_offset a" "page_offset a < 4096" "IS_PAGE_ALIGNED (a + page_offset a + 12)"
    by (simp_all add: IS_PAGE_ALIGNED_def ac_simps)
qed

lemma ready_hdr_size:
  assumes "ready st pre a s post" "20 < s" "v < W32"
  shows "ready (st\<lparr> kmem := set_hdr_size a v (kmem st) \<rparr>) pre a s post"
    "frame a (a + s) st (st\<lparr> kmem := set_hdr_size a v (kmem st) \<rparr>)"
    "hdr_size (set_hdr_size a v (kmem st)) a = v"
proof -
  have out: "\<And>j. j < a \<or> a + s \<le> j \<Longrightarrow> set_hdr_size a v (kmem st) j = kmem st j"
    using assms(2) by (auto simp: fields loads)
  show "ready (st\<lparr> kmem := set_hdr_size a v (kmem st) \<rparr>) pre a s post"
    using assms(1) ready_mem[OF assms(1) out] by (simp add: ready_def)
  show "frame a (a + s) st (st\<lparr> kmem := set_hdr_size a v (kmem st) \<rparr>)"
    using out by (simp add: frame_def)
  show "hdr_size (set_hdr_size a v (kmem st)) a = v" using assms(3) by (simp add: fields)
qed

text \<open>How the areas to the left of the hole may change: the skipped bytes become a free area, or,
  if they are too few for one, are added to the left neighbour.\<close>

definition left_change :: "nat \<Rightarrow> nat \<Rightarrow> area list \<Rightarrow> area list \<Rightarrow> bool" where
  "left_change a off pre pre' \<longleftrightarrow> pre' = pre @ [(a, off, True)] \<or>
     (\<exists>pre0 x t f. pre = pre0 @ [(x, t, f)] \<and> pre' = pre0 @ [(x, t + off, f)])"

lemma align_waste_area:
  assumes r: "ready st pre a s post" and off: "20 < off" "off + 20 < s"
    and room: "0 < oa_room (free_index (kheap st))"
  shows "\<exists>st1. (do { (h, st0) \<leftarrow> create_area a off AREA_FREE st; insert_free a st0 }) = Some st1 \<and>
    ready st1 (pre @ [(a, off, True)]) (a + off) (s - off) post \<and>
    frame (start_address (kheap st)) (end_address (kheap st)) st st1 \<and>
    kept (kmem st) (kmem st1) pre \<and> kept (kmem st) (kmem st1) post \<and> leak st1 = leak st \<and>
    used_index (kheap st1) = used_index (kheap st) \<and>
    oa_room (free_index (kheap st)) \<le> Suc (oa_room (free_index (kheap st1)))"
proof -
  obtain st0 st1 where c: "create_area a off AREA_FREE st = Some (a, st0)" "insert_free a st0 = Some st1"
    "ready st1 (pre @ [(a, off, True)]) (a + off) (s - off) post" "frame a (a + off) st st1"
    "leak st1 = leak st" "used_index (kheap st1) = used_index (kheap st)"
    "Suc (oa_room (free_index (kheap st1))) = oa_room (free_index (kheap st))"
    using carve_left[OF r off room] by blast
  have b: "start_address (kheap st) \<le> a" "a + off \<le> a + s" "a + s \<le> end_address (kheap st)"
    using ready_bounds[OF r] off by auto
  have "tiles (kmem st) (start_address (kheap st)) pre a" "tiles (kmem st) (a + s) post (end_address (kheap st))"
    using r by (auto simp: ready_def)
  then have "kept (kmem st) (kmem st1) pre" "kept (kmem st) (kmem st1) post"
    using c(4) b unfolding frame_def by (auto intro!: kept_tiles)
  then show ?thesis using c frame_mono[OF c(4), of "start_address (kheap st)" "end_address (kheap st)"] b by auto
qed

lemma align_grow_left:
  assumes r: "ready st (pre0 @ [(x, t, f)]) a s post" and off: "off + 20 < s"
  defines "m' \<equiv> resize_area x off (kmem st)"
  shows "ftr_magic (kmem st) (a - 8) = HEAP_MAGIC" "ftr_header (kmem st) (a - 8) = x"
    "hdr_magic (kmem st) x = HEAP_MAGIC" "FOOTER_FROM_HEADER (kmem st) x = a - 8" "8 \<le> a"
    "ready (st\<lparr> kmem := m' \<rparr>) (pre0 @ [(x, t + off, f)]) (a + off) (s - off) post"
    "frame (start_address (kheap st)) (end_address (kheap st)) st (st\<lparr> kmem := m' \<rparr>)"
    "kept (kmem st) m' (pre0 @ [(x, t, f)])" "kept (kmem st) m' post"
proof -
  have T: "tiles (kmem st) (start_address (kheap st)) pre0 x" "area_ok (kmem st) x t f" "x + t = a"
    "tiles (kmem st) (a + s) post (end_address (kheap st))"
    using r by (auto simp: ready_def tiles_append)
  have bnd: "start_address (kheap st) \<le> x" "a + s \<le> end_address (kheap st)" "end_address (kheap st) < W32"
    using ready_bounds[OF r] tiles_mono[OF T(1)] by auto
  show "ftr_magic (kmem st) (a - 8) = HEAP_MAGIC" "ftr_header (kmem st) (a - 8) = x"
    "hdr_magic (kmem st) x = HEAP_MAGIC" "FOOTER_FROM_HEADER (kmem st) x = a - 8" "8 \<le> a"
    using T bnd FOOTER_area[OF T(2)] by (auto simp: area_ok_def)
  note R = resize_area_ok[OF T(2), of off, folded m'_def]
  have A: "area_ok m' x (t + off) f" using R(1) T(3) off bnd by simp
  have same: "\<And>i. i < x \<or> a + off \<le> i \<Longrightarrow> m' i = kmem st i"
    using R(2) T(3) off bnd by (simp add: add.commute)
  have T': "tiles m' (start_address (kheap st)) pre0 x" "tiles m' (a + s) post (end_address (kheap st))"
    using tiles_cong[OF _ T(1), of m'] tiles_cong[OF _ T(4), of m'] same off by auto
  have "hdr_magic m' (end_address (kheap st)) = hdr_magic (kmem st) (end_address (kheap st))"
    unfolding hdr_magic_def using same bnd off by (intro ld32_cong) simp
  then show "ready (st\<lparr> kmem := m' \<rparr>) (pre0 @ [(x, t + off, f)]) (a + off) (s - off) post"
    using r A T' T(3) off unfolding ready_def
    by (auto simp: tiles_append indexed_def split: if_splits)
  show "frame (start_address (kheap st)) (end_address (kheap st)) st (st\<lparr> kmem := m' \<rparr>)"
    using same bnd off by (auto simp: frame_def)
  show "kept (kmem st) m' post" using kept_tiles[OF T(4)] same off by simp
  show "kept (kmem st) m' (pre0 @ [(x, t, f)])"
    using kept_tiles[OF T(1), of m'] same R(3) T(3) off bnd by simp
qed

lemma small_offset_left:
  assumes r: "ready st pre a s post" and off: "\<not> IS_PAGE_ALIGNED (a + 12)" "page_offset a \<le> 20"
  shows "\<exists>pre0 x t f. pre = pre0 @ [(x, t, f)]"
proof (cases pre rule: rev_cases)
  case Nil
  then have "a = start_address (kheap st)" "start_address (kheap st) mod 4096 = 0"
    using r by (auto simp: ready_def geom_def)
  moreover have "a + 12 < W32" using ready_bounds[OF r] by linarith
  moreover have "(a + 12) mod 4096 = 12" using calculation(1,2) by (simp add: mod_add_eq[symmetric])
  ultimately have "page_offset a = 4084" by (simp add: page_offset_def IS_PAGE_ALIGNED_def)
  then show ?thesis using off(2) by simp
next
  case (snoc pre0 y)
  then show ?thesis by (cases y) auto
qed

lemma alloc_align_ok:
  assumes r: "ready st pre a s post" and h: "hdr_size (kmem st) a = s" and sz: "20 < sz" "page_offset a + sz \<le> s"
    and al: "\<not> IS_PAGE_ALIGNED (a + 12)" and room: "0 < oa_room (free_index (kheap st))"
  defines "off \<equiv> page_offset a"
  shows "\<exists>pre' st'. alloc_align sz a st = Some (a + off, st') \<and>
    ready st' pre' (a + off) (s - off) post \<and> hdr_size (kmem st') (a + off) = s - off \<and>
    left_change a off pre pre' \<and> frame (start_address (kheap st)) (end_address (kheap st)) st st' \<and>
    kept (kmem st) (kmem st') pre \<and> kept (kmem st) (kmem st') post \<and> leak st' = leak st \<and>
    used_index (kheap st') = used_index (kheap st) \<and>
    oa_room (free_index (kheap st)) \<le> Suc (oa_room (free_index (kheap st')))"
proof -
  have bnd: "a + s < W32" "s < W32" using ready_bounds[OF r] by linarith+
  have offs: "0 < off" "off < 4096" "IS_PAGE_ALIGNED (a + off + 12)" "off + sz \<le> s" "off + 20 < s"
    using page_offset_props[of a] al sz bnd unfolding off_def by auto
  let ?step = "if 20 < off then do { (h, st0) \<leftarrow> create_area a off AREA_FREE st; insert_free a st0 }
     else (let test_footer = sub32 a 8; test_header = ftr_header (kmem st) test_footer in
       if ftr_magic (kmem st) test_footer = HEAP_MAGIC \<and> hdr_magic (kmem st) test_header = HEAP_MAGIC
       then (let m1 = set_ftr_magic test_footer 0 (kmem st);
                 m2 = set_hdr_size test_header (add32 (hdr_size m1 test_header) off) m1
             in Some (st\<lparr> kmem := write_footer test_header m2 \<rparr>))
       else Some st)"
  obtain st1 pre' where st1: "?step = Some st1" "ready st1 pre' (a + off) (s - off) post"
    "left_change a off pre pre'" "frame (start_address (kheap st)) (end_address (kheap st)) st st1"
    "kept (kmem st) (kmem st1) pre" "kept (kmem st) (kmem st1) post" "leak st1 = leak st"
    "used_index (kheap st1) = used_index (kheap st)"
    "oa_room (free_index (kheap st)) \<le> Suc (oa_room (free_index (kheap st1)))"
  proof (cases "20 < off")
    case True
    obtain st1 where "(do { (h, st0) \<leftarrow> create_area a off AREA_FREE st; insert_free a st0 }) = Some st1"
      "ready st1 (pre @ [(a, off, True)]) (a + off) (s - off) post"
      "frame (start_address (kheap st)) (end_address (kheap st)) st st1"
      "kept (kmem st) (kmem st1) pre" "kept (kmem st) (kmem st1) post" "leak st1 = leak st"
      "used_index (kheap st1) = used_index (kheap st)"
      "oa_room (free_index (kheap st)) \<le> Suc (oa_room (free_index (kheap st1)))"
      using align_waste_area[OF r True offs(5) room] by blast
    then show ?thesis using True by (intro that[of st1 "pre @ [(a, off, True)]"]) (simp_all add: left_change_def)
  next
    case False
    then obtain pre0 x t f where pre: "pre = pre0 @ [(x, t, f)]"
      using small_offset_left[OF r al] off_def by auto
    note g = align_grow_left[OF r[unfolded pre] offs(5)]
    have "sub32 a 8 = a - 8" using g(5) bnd by simp
    then have "?step = Some (st\<lparr> kmem := resize_area x off (kmem st) \<rparr>)"
      using False g(1-4) by (simp add: Let_def resize_area_def)
    then show ?thesis using g(6-9) pre
      by (intro that[of "st\<lparr> kmem := resize_area x off (kmem st) \<rparr>" "pre0 @ [(x, t + off, f)]"])
        (auto simp: left_change_def)
  qed
  let ?st2 = "st1\<lparr> kmem := set_hdr_size (a + off) (s - off) (kmem st1) \<rparr>"
  note w = ready_hdr_size[OF st1(2), of "s - off"]
  have "alloc_align sz a st = Some (a + off, ?st2)"
    using st1(1)[unfolded Let_def] offs bnd w(3) sz h
    unfolding alloc_align_def Let_def off_def[symmetric] by simp
  moreover have fr: "frame (a + off) (a + s) st1 ?st2" using w(2) offs bnd sz by simp
  moreover have "frame (start_address (kheap st)) (end_address (kheap st)) st ?st2"
    using frame_trans[OF st1(4)] frame_mono[OF fr] ready_bounds[OF r] by simp
  moreover have "kept (kmem st) (kmem ?st2) pre" "kept (kmem st) (kmem ?st2) post"
    using kept_tiles_trans[OF st1(5)] kept_tiles_trans[OF st1(6)] r fr unfolding ready_def frame_def by auto
  moreover have "ready ?st2 pre' (a + off) (s - off) post" "hdr_size (kmem ?st2) (a + off) = s - off"
    using w(1,3) offs bnd sz by simp_all
  ultimately show ?thesis using st1(3,7-9)
    by (intro exI[of _ pre'] exI[of _ ?st2]) simp
qed

subsection \<open>Allocation\<close>

lemma remove_free_ready:
  assumes "heap_inv st (pre @ (a, s, True) # post)" "0 < oa_room (free_index (kheap st))"
  shows "\<exists>st1. remove_free a st = Some st1 \<and> ready st1 pre a s post \<and> hdr_size (kmem st1) a = s \<and>
    kmem st1 = kmem st \<and> frame (start_address (kheap st)) (end_address (kheap st)) st st1 \<and> leak st1 = leak st \<and>
    used_index (kheap st1) = used_index (kheap st) \<and>
    oa_room (free_index (kheap st1)) = Suc (oa_room (free_index (kheap st)))"
proof -
  have inv: "hinv st (pre @ (a, s, True) # post) {#}" using assms(1) by (simp add: heap_inv_def)
  obtain i where i: "remove_free a st = Some (st\<lparr> kheap := (kheap st)\<lparr> free_index := i \<rparr> \<rparr>)"
    "indexed ((kheap st)\<lparr> free_index := i \<rparr>) (pre @ (a, s, True) # post) {#a#}"
    "oa_room i = Suc (oa_room (free_index (kheap st)))"
    using remove_free_ok[of st "pre @ (a, s, True) # post" a s] inv assms(2) by (auto simp: hinv_def)
  let ?st1 = "st\<lparr> kheap := (kheap st)\<lparr> free_index := i \<rparr> \<rparr>"
  have "ready ?st1 pre a s post"
    using inv i(2) unfolding indexed_drop_missing hinv_def ready_def by (simp add: tiles_append_Cons)
  moreover have "hdr_size (kmem ?st1) a = s"
    using inv unfolding hinv_def by (simp add: tiles_append_Cons area_ok_def)
  ultimately show ?thesis using i by (intro exI[of _ ?st1]) (simp add: frame_def)
qed

text \<open>The result of an allocation, in terms of areas: \<open>a\<close> is where the new area starts, \<open>n\<close> its size.\<close>

definition alloc_areas :: "nat \<Rightarrow> bool \<Rightarrow> nat \<Rightarrow> nat \<Rightarrow> area list \<Rightarrow> area list \<Rightarrow> nat \<Rightarrow> nat \<Rightarrow> area list \<Rightarrow> bool" where
  "alloc_areas sz pa a s pre post a' n as' \<longleftrightarrow> (\<exists>pre'.
     (let off = (if pa then page_offset a else 0) in
      a' = a + off \<and> (if off = 0 then pre' = pre else left_change a off pre pre') \<and>
      n = (if 36 \<le> s - off - sz then sz else s - off) \<and>
      as' = pre' @ (a', n, False) # (if 36 \<le> s - off - sz then [(a' + sz, s - off - sz, True)] else []) @ post))"

lemma alloc_in_hole_ok:
  assumes inv: "heap_inv st (pre @ (a, s, True) # post)" and sz: "20 < sz" "sz \<le> s" "pa \<Longrightarrow> page_offset a + sz \<le> s"
    and room: "0 < oa_room (free_index (kheap st))" "0 < oa_room (used_index (kheap st))" "trace_room st"
  shows "\<exists>st' a' n as'. alloc_in_hole sz pa a st = Some (dword_align (a' + 12), st') \<and>
    alloc_areas sz pa a s pre post a' n as' \<and> heap_inv st' as' \<and>
    frame (start_address (kheap st)) (end_address (kheap st)) st st' \<and>
    kept (kmem st) (kmem st') pre \<and> kept (kmem st) (kmem st') post"
proof -
  obtain st1 where st1: "remove_free a st = Some st1" "ready st1 pre a s post" "hdr_size (kmem st1) a = s"
    "kmem st1 = kmem st" "frame (start_address (kheap st)) (end_address (kheap st)) st st1" "leak st1 = leak st"
    "used_index (kheap st1) = used_index (kheap st)"
    "oa_room (free_index (kheap st1)) = Suc (oa_room (free_index (kheap st)))"
    using remove_free_ready[OF inv room(1)] by blast
  have bnd: "a + s < W32" "a + 12 < W32" using ready_bounds[OF st1(2)] sz by linarith+
  let ?off = "if pa then page_offset a else 0"
  obtain st2 pre' where st2: "(if pa \<and> \<not> IS_PAGE_ALIGNED (a + 12) then alloc_align sz a st1 else Some (a, st1))
      = Some (a + ?off, st2)"
    "ready st2 pre' (a + ?off) (s - ?off) post" "hdr_size (kmem st2) (a + ?off) = s - ?off"
    "if ?off = 0 then pre' = pre else left_change a ?off pre pre'"
    "frame (start_address (kheap st)) (end_address (kheap st)) st st2"
    "kept (kmem st) (kmem st2) pre" "kept (kmem st) (kmem st2) post" "leak st2 = leak st"
    "used_index (kheap st2) = used_index (kheap st)" "0 < oa_room (free_index (kheap st2))"
    "sz \<le> s - ?off"
  proof (cases "pa \<and> \<not> IS_PAGE_ALIGNED (a + 12)")
    case True
    then have "0 < page_offset a" using page_offset_props[of a] bnd by simp
    moreover obtain pre' st2 where "alloc_align sz a st1 = Some (a + page_offset a, st2)"
      "ready st2 pre' (a + page_offset a) (s - page_offset a) post"
      "hdr_size (kmem st2) (a + page_offset a) = s - page_offset a"
      "left_change a (page_offset a) pre pre'" "frame (start_address (kheap st1)) (end_address (kheap st1)) st1 st2"
      "kept (kmem st1) (kmem st2) pre" "kept (kmem st1) (kmem st2) post" "leak st2 = leak st1"
      "used_index (kheap st2) = used_index (kheap st1)"
      "oa_room (free_index (kheap st1)) \<le> Suc (oa_room (free_index (kheap st2)))"
      using alloc_align_ok[OF st1(2,3) sz(1)] True sz st1(8) by auto
    ultimately show ?thesis using True st1 room sz
      by (intro that[of st2 pre']) (auto simp: frame_def)
  next
    case False
    then have "?off = 0" using bnd by (auto simp: page_offset_def)
    then show ?thesis using False st1 sz by (intro that[of st1 pre]) auto
  qed
  obtain st3 where st3: "alloc_finish sz (a + ?off) st2 = Some (dword_align (a + ?off + 12), st3)"
    "heap_inv st3 (pre' @ (a + ?off, if 36 \<le> s - ?off - sz then sz else s - ?off, False) #
       (if 36 \<le> s - ?off - sz then [(a + ?off + sz, s - ?off - sz, True)] else []) @ post)"
    "frame (a + ?off) (a + ?off + (s - ?off)) st2 st3"
    using alloc_finish_ok[OF st2(2,3) sz(1) st2(11) st2(10)] room st2(8,9) by (auto simp: trace_room_def)
  have "frame (start_address (kheap st)) (end_address (kheap st)) st2 st3"
    using frame_mono[OF st3(3)] ready_bounds[OF st2(2)] st2(5) unfolding frame_def by simp
  then have F: "frame (start_address (kheap st)) (end_address (kheap st)) st st3"
    using frame_trans st2(5) by blast
  have "a + ?off + (s - ?off) = a + s" using st2(11) sz by simp
  then have out: "kmem st3 i = kmem st2 i" if "i < a \<or> a + s \<le> i" for i
    using that st3(3) unfolding frame_def by auto
  have K: "kept (kmem st) (kmem st3) pre" "kept (kmem st) (kmem st3) post"
    using kept_tiles_trans[OF st2(6), of "start_address (kheap st1)" a "kmem st3"]
      kept_tiles_trans[OF st2(7), of "a + s" "end_address (kheap st1)" "kmem st3"] st1(2) out
    unfolding st1(4)[symmetric] ready_def by auto
  have "add32 a 12 = a + 12" using bnd by simp
  then have "alloc_in_hole sz pa a st = Some (dword_align (a + ?off + 12), st3)"
    unfolding alloc_in_hole_def using st1(1) st2(1) st3(1) by simp
  moreover have "alloc_areas sz pa a s pre post (a + ?off) (if 36 \<le> s - ?off - sz then sz else s - ?off)
     (pre' @ (a + ?off, if 36 \<le> s - ?off - sz then sz else s - ?off, False) #
       (if 36 \<le> s - ?off - sz then [(a + ?off + sz, s - ?off - sz, True)] else []) @ post)"
    unfolding alloc_areas_def Let_def using st2(4) by blast
  ultimately show ?thesis using st3(2) F K by blast
qed

text \<open>The search returns the first entry of the free index that fits.\<close>

definition fits :: "mem \<Rightarrow> nat \<Rightarrow> bool \<Rightarrow> nat \<Rightarrow> bool" where
  "fits m sz pa x \<longleftrightarrow> sz \<le> hdr_size m x \<and> (pa \<longrightarrow> page_offset x + sz \<le> hdr_size m x)"

lemma page_offset_less: "page_offset x < 4096"
  by (auto simp: page_offset_def IS_PAGE_ALIGNED_def)

lemma hole_scan_eq:
  assumes "oa_usable idx" "i \<le> oa_size idx"
    and ok: "\<And>x. x \<in> set (oa_contents idx) \<Longrightarrow> \<exists>s. area_ok m x s True \<and> x + s < W32 \<and> s < 2147483648"
  shows "hole_scan m idx sz pa [i..<oa_size idx] =
    Some (case find (fits m sz pa) (drop i (oa_contents idx)) of None \<Rightarrow> 0 | Some x \<Rightarrow> x)"
  using assms(2)
proof (induction "oa_size idx - i" arbitrary: i)
  case 0
  then show ?case using assms(1) by (simp add: oa_usable_def)
next
  case (Suc n)
  have len: "length (oa_contents idx) = oa_size idx" using assms(1) oa.count_law by metis
  have i: "i < oa_size idx" using Suc by simp
  let ?x = "oa_contents idx ! i"
  have get: "lookup_ordered_array i idx = Some ?x" using assms(1) i len oa.get_law by force
  obtain s where s: "area_ok m ?x s True" "?x + s < W32" "s < 2147483648" using ok[of ?x] i len by auto
  have F: "FOOTER_FROM_HEADER m ?x = ?x + s - 8" by (rule FOOTER_area[OF s(1,2)])
  have fit: "(sz \<le> hdr_size m ?x \<and> (pa \<longrightarrow> s32 sz \<le> s32 (hdr_size m ?x) - s32 (page_offset ?x))) = fits m sz pa ?x"
    using s page_offset_less[of ?x] by (auto simp: fits_def area_ok_def)
  have "drop i (oa_contents idx) = ?x # drop (Suc i) (oa_contents idx)"
    using i len by (simp add: Cons_nth_drop_Suc)
  moreover have "[i..<oa_size idx] = i # [Suc i..<oa_size idx]" using i by (simp add: upt_conv_Cons)
  moreover have "hole_scan m idx sz pa [Suc i..<oa_size idx] =
    Some (case find (fits m sz pa) (drop (Suc i) (oa_contents idx)) of None \<Rightarrow> 0 | Some x \<Rightarrow> x)"
    using Suc i by simp
  ultimately show ?case using get s F fit by (simp add: area_ok_def)
qed

lemma heap_inv_areas:
  assumes "heap_inv st as" "(x, s, f) \<in> set as"
  shows "area_ok (kmem st) x s f \<and> 4096 \<le> x \<and> x + s \<le> end_address (kheap st) \<and>
    start_address (kheap st) \<le> x \<and> x + s < W32 \<and> s < 2147483648"
  using assms tiles_member[of "kmem st" _ as _ x s f] unfolding heap_inv_def hinv_def geom_def by fastforce

lemma find_smallest_hole_eq:
  assumes "heap_inv st as"
  shows "find_smallest_hole sz pa st =
    Some (case find (fits (kmem st) sz pa) (oa_contents (free_index (kheap st))) of None \<Rightarrow> 0 | Some x \<Rightarrow> x)"
proof -
  have ix: "indexed (kheap st) as {#}" using assms by (simp add: heap_inv_def hinv_def)
  have "\<exists>s. area_ok (kmem st) x s True \<and> x + s < W32 \<and> s < 2147483648"
    if "x \<in> set (oa_contents (free_index (kheap st)))" for x
    using that indexed_set(1)[OF ix] set_addrs(1)[of x as] heap_inv_areas[OF assms] by blast
  then show ?thesis unfolding find_smallest_hole_def
    using hole_scan_eq[of "free_index (kheap st)" 0] ix by (simp add: indexed_def)
qed

lemma find_smallest_hole_cases:
  assumes inv: "heap_inv st as"
  obtains (none) "find_smallest_hole sz pa st = Some 0"
      "\<And>x s. (x, s, True) \<in> set as \<Longrightarrow> \<not> (sz \<le> s \<and> (pa \<longrightarrow> page_offset x + sz \<le> s))"
    | (some) x s pre post where "find_smallest_hole sz pa st = Some x" "x \<noteq> 0" "as = pre @ (x, s, True) # post"
      "sz \<le> s" "pa \<longrightarrow> page_offset x + sz \<le> s"
proof (cases "find (fits (kmem st) sz pa) (oa_contents (free_index (kheap st)))")
  have ix: "set (oa_contents (free_index (kheap st))) = set (free_addrs as)"
    using inv indexed_set(1) unfolding heap_inv_def hinv_def by blast
  {
    case None
    have "\<not> (sz \<le> s \<and> (pa \<longrightarrow> page_offset x + sz \<le> s))" if "(x, s, True) \<in> set as" for x s
    proof -
      have "x \<in> set (oa_contents (free_index (kheap st)))" using ix that set_addrs(1) by blast
      then have "\<not> fits (kmem st) sz pa x" using None by (auto simp: find_None_iff)
      moreover have "hdr_size (kmem st) x = s" using heap_inv_areas[OF inv that] by (simp add: area_ok_def)
      ultimately show ?thesis by (auto simp: fits_def)
    qed
    then show ?thesis using none find_smallest_hole_eq[OF inv, of sz pa] None by simp
  next
    case (Some x)
    then have x: "x \<in> set (free_addrs as)" "fits (kmem st) sz pa x"
      unfolding find_Some_iff ix[symmetric] by auto
    then obtain s where s: "(x, s, True) \<in> set as" using set_addrs(1) by blast
    then obtain pre post where "as = pre @ (x, s, True) # post" by (meson split_list)
    moreover have "hdr_size (kmem st) x = s" "x \<noteq> 0"
      using heap_inv_areas[OF inv s] by (auto simp: area_ok_def)
    ultimately show ?thesis using some find_smallest_hole_eq[OF inv, of sz pa] Some x(2)
      by (auto simp: fits_def)
  }
qed

subsection \<open>Growing the heap\<close>

lemma expand_size_props:
  assumes "sz < 2147483648"
  shows "sz \<le> expand_size sz" "KHEAP_MIN_GROWTH \<le> expand_size sz" "expand_size sz mod 4096 = 0"
    "expand_size sz < sz + KHEAP_MIN_GROWTH + 4096"
proof -
  define s1 where "s1 = (if sz < KHEAP_MIN_GROWTH then KHEAP_MIN_GROWTH else sz)"
  have b: "s1 < 2147483648" "sz \<le> s1" "KHEAP_MIN_GROWTH \<le> s1" "s1 \<le> sz + KHEAP_MIN_GROWTH"
    using assms by (auto simp: s1_def)
  have e: "expand_size sz = (if s1 mod 4096 \<noteq> 0 then s1 - s1 mod 4096 + 4096 else s1)"
    using b by (simp add: expand_size_def s1_def[symmetric])
  have m: "s1 mod 4096 < 4096" "s1 mod 4096 \<le> s1" by simp_all
  show "sz \<le> expand_size sz" "KHEAP_MIN_GROWTH \<le> expand_size sz"
    "expand_size sz < sz + KHEAP_MIN_GROWTH + 4096"
    using b m unfolding e by auto
  have "s1 - s1 mod 4096 + 4096 = 4096 * (s1 div 4096 + 1)" 
    by (simp only: minus_mod_eq_mult_div add_mult_distrib2 mult_1_right)
  then have "(s1 - s1 mod 4096 + 4096) mod 4096 = 0" by (metis mod_mult_self1_is_0)
  then show "expand_size sz mod 4096 = 0" unfolding e by presburger
qed

lemma heap_expand_ok:
  fixes st :: "'v kst"
  assumes geom: "geom (kheap st)" and sz: "sz < 2147483648"
    and mx: "end_address (kheap st) + expand_size sz \<le> max_address (kheap st)" "max_address (kheap st) \<le> 3489660928"
    and vmm: "vmo_alloc_kernel ops (end_address (kheap st) + 4096) (end_address (kheap st) + expand_size sz + 4096)
      (\<not> readonly (kheap st)) (kmem st, vm st) = Some (m', v')"
  shows "heap_expand ops sz st = Some (st\<lparr> kmem := m', vm := v',
    kheap := (kheap st)\<lparr> end_address := end_address (kheap st) + expand_size sz \<rparr> \<rparr>)"
proof -
  let ?h = "kheap st" and ?g = "expand_size sz"
  note e = expand_size_props[OF sz]
  have a: "add32 (start_address ?h) ?g = start_address ?h + ?g" "add32 (end_address ?h) ?g = end_address ?h + ?g"
    "add32 (end_address ?h) 4096 = end_address ?h + 4096"
    "add32 (end_address ?h + ?g) 4096 = end_address ?h + ?g + 4096"
    using geom mx e unfolding geom_def by auto
  have al: "IS_PAGE_ALIGNED (end_address ?h + ?g)" "IS_PAGE_ALIGNED (start_address ?h)"
    using geom e(3) unfolding geom_def IS_PAGE_ALIGNED_def by (auto simp: mod_add_eq[symmetric])
  have "start_address ?h + ?g \<le> max_address ?h" "0 < ?g" using geom mx e(2) unfolding geom_def by auto
  then show ?thesis using a al vmm unfolding heap_expand_def Let_def by simp
qed

text \<open>After \<open>heap_grow\<close> the last area is free and at least \<open>expand_size sz\<close> bytes larger.\<close>

lemma heap_grow_ok:
  fixes st :: "'v kst"
  assumes inv: "heap_inv st as" and sz: "sz < 2147483648"
    and mx: "end_address (kheap st) + expand_size sz \<le> max_address (kheap st)" "max_address (kheap st) \<le> 3489660928"
    and size: "end_address (kheap st) + expand_size sz - start_address (kheap st) < 2147483648"
    and room: "0 < oa_room (free_index (kheap st))"
    and vmm: "vmo_alloc_kernel ops (end_address (kheap st) + 4096) (end_address (kheap st) + expand_size sz + 4096)
      (\<not> readonly (kheap st)) (kmem st, vm st) = Some (m', v')"
    and m': "\<And>i. m' i = (if end_address (kheap st) + 4096 \<le> i \<and> i < end_address (kheap st) + expand_size sz + 4096
       then 0 else kmem st i)"
  shows "\<exists>st' pre x s. heap_grow ops sz st = Some st' \<and> heap_inv st' (pre @ [(x, s, True)]) \<and>
    ((as = pre \<and> \<not> snd (snd (last as)) \<and> s = expand_size sz) \<or> (\<exists>s0. as = pre @ [(x, s0, True)] \<and> s = s0 + expand_size sz)) \<and>
    end_address (kheap st') = end_address (kheap st) + expand_size sz \<and> start_address (kheap st') = start_address (kheap st) \<and>
    max_address (kheap st') = max_address (kheap st) \<and> readonly (kheap st') = readonly (kheap st) \<and>
    vm st' = v' \<and> leak st' = leak st \<and> task_id st' = task_id st \<and> kheap_set st' = kheap_set st \<and>
    used_index (kheap st') = used_index (kheap st) \<and>
    oa_room (free_index (kheap st)) \<le> Suc (oa_room (free_index (kheap st'))) \<and>
    kept (kmem st) (kmem st') as"
proof -
  let ?h = "kheap st" and ?g = "expand_size sz"
  let ?e = "end_address ?h + ?g"
  let ?st1 = "st\<lparr> kmem := m', vm := v', kheap := ?h\<lparr> end_address := ?e \<rparr> \<rparr>"
  note e = expand_size_props[OF sz]
  have g: "geom ?h" "tiles (kmem st) (start_address ?h) as (end_address ?h)" "as \<noteq> []"
    "rightmost_area ?h = fst (last as)" "indexed ?h as {#}"
    using inv by (auto simp: heap_inv_def hinv_def)
  have ex: "heap_expand ops sz st = Some ?st1" by (rule heap_expand_ok[OF g(1) sz mx vmm])
  have geom1: "geom (kheap ?st1)" using g(1) e mx size
    unfolding geom_def by (auto simp: mod_add_eq[symmetric])
  have T: "tiles m' (start_address ?h) as (end_address ?h)" using tiles_cong[OF _ g(2), of m'] m' by auto
  have end_magic: "hdr_magic m' ?e \<noteq> HEAP_MAGIC"
  proof -
    have "ld32 m' (?e + 8) = ld32 (\<lambda>_. 0) (?e + 8)" using m' e(2) by (intro ld32_cong) auto
    then show ?thesis by (simp add: hdr_magic_def ld32_def ld8_def)
  qed
  have kept1: "kept (kmem st) m' as" using kept_tiles[OF g(2)] m' by auto
  have diff: "sub32 (sub32 ?e (start_address ?h)) (sub32 (end_address ?h) (start_address ?h)) = ?g"
    using g(1) mx unfolding geom_def by auto
  obtain pre0 x s0 f where last: "as = pre0 @ [(x, s0, f)]" using g(3) by (metis prod_cases3 rev_exhaust)
  have r: "rightmost_area ?h = x" using g(4) last by simp
  have X: "area_ok m' x s0 f" "x + s0 = end_address ?h" "tiles m' (start_address ?h) pre0 x"
    using T last by (auto simp: tiles_append)
  have x0: "0 < x" "x + s0 < W32" "?e < W32" using g(1) X tiles_mono[OF X(3)] mx unfolding geom_def by auto
  have ty: "hdr_type m' x = (if f then AREA_FREE else AREA_USED)" using X(1) by (simp add: area_ok_def)
  show ?thesis
  proof (cases f)
    case True
    note R = resize_area_ok[of m' x s0 True ?g]
    let ?st' = "?st1\<lparr> kmem := resize_area x ?g m' \<rparr>"
    have res: "heap_grow ops sz st = Some ?st'"
      using ex ty True x0 diff r unfolding heap_grow_def resize_area_def by (simp add: Let_def)
    have same: "resize_area x ?g m' i = m' i" if "i < x \<or> ?e \<le> i" for i
      using R(2)[of i] X(1,2) True x0 that by simp
    have "tiles (resize_area x ?g m') (start_address ?h) (pre0 @ [(x, s0 + ?g, True)]) ?e"
      using R(1) X True x0 tiles_cong[OF _ X(3), of "resize_area x ?g m'"] same
      by (auto simp: tiles_append ac_simps)
    moreover have "hdr_magic (resize_area x ?g m') ?e = hdr_magic m' ?e"
      unfolding hdr_magic_def using same by (intro ld32_cong) simp
    ultimately have "heap_inv ?st' (pre0 @ [(x, s0 + ?g, True)])"
      using geom1 g(5) r end_magic True last unfolding heap_inv_def hinv_def
      by (simp add: indexed_def)
    moreover have "kept (kmem st) (kmem ?st') as"
      using kept1 same R(3) X True x0 kept_tiles_trans[of "kmem st" m' pre0 "start_address ?h" x "resize_area x ?g m'"] g(2)
      unfolding last by (auto simp: tiles_append)
    ultimately show ?thesis using res last True
      by (intro exI[of _ ?st'] exI[of _ pre0] exI[of _ x] exI[of _ "s0 + ?g"]) auto
  next
    case False
    have rdy: "ready ?st1 as (end_address ?h) ?g []"
      unfolding ready_def using geom1 g(5) T end_magic r X by (simp add: indexed_def)
    obtain st2 where st2: "create_area (end_address ?h) ?g AREA_FREE ?st1 = Some (end_address ?h, st2)"
      "geom (kheap st2)" "indexed (kheap st2) as {#}"
      "tiles (kmem st2) (start_address (kheap st2)) (as @ [(end_address ?h, ?g, True)]) (end_address (kheap st2))"
      "rightmost_area (kheap st2) = end_address ?h"
      "hdr_magic (kmem st2) (end_address (kheap st2)) \<noteq> HEAP_MAGIC"
      "frame (end_address ?h) (end_address ?h + ?g) ?st1 st2" "leak st2 = leak st"
      "used_index (kheap st2) = used_index ?h" "free_index (kheap st2) = free_index ?h"
      using fill_hole[OF rdy, of True] e(2) by auto
    have ix: "indexed (kheap st2) (as @ [(end_address ?h, ?g, True)]) {#end_address ?h#}"
      using st2(3) indexed_drop_missing[of "kheap st2" as _ _ "[]"] by simp
    obtain i where i: "insert_free (end_address ?h) st2 = Some (st2\<lparr> kheap := (kheap st2)\<lparr> free_index := i \<rparr> \<rparr>)"
      "indexed ((kheap st2)\<lparr> free_index := i \<rparr>) (as @ [(end_address ?h, ?g, True)]) {#}"
      "Suc (oa_room i) = oa_room (free_index (kheap st2))"
      using insert_free_ok[OF ix] room st2(10) by auto
    let ?st' = "st2\<lparr> kheap := (kheap st2)\<lparr> free_index := i \<rparr> \<rparr>"
    have hs: "add32 x (hdr_size m' x) = end_address ?h" using X x0 by (simp add: area_ok_def)
    have res: "heap_grow ops sz st = Some ?st'"
      using ex ty False x0 diff r hs st2(1) i(1) unfolding heap_grow_def by (simp add: Let_def)
    have "heap_inv ?st' (as @ [(end_address ?h, ?g, True)])"
      using st2 i(2) unfolding heap_inv_def hinv_def by simp
    moreover have "kept (kmem st) (kmem ?st') as"
      using kept_tiles_trans[OF kept1 g(2)] st2(7) unfolding frame_def by simp
    ultimately show ?thesis using res st2 i(3) False last
      by (intro exI[of _ ?st'] exI[of _ as] exI[of _ "end_address ?h"] exI[of _ ?g]) (simp add: frame_def)
  qed
qed

end
