(* ===== verification/Heap_Free.thy ===== *)
theory Heap_Free
  imports Heap_Ops
begin

text \<open>
  Freeing: the header of a pointer is found again, the freed area is merged with free neighbours,
  and the invariant is kept.
\<close>

subsection \<open>Finding the header of a pointer\<close>

lemma ld32_bytes:
  "ld8 m a = ld32 m a mod 256" "ld8 m (a + 1) = ld32 m a div 256 mod 256"
  "ld8 m (a + 2) = ld32 m a div 65536 mod 256" "ld8 m (a + 3) = ld32 m a div 16777216 mod 256"
proof -
  let ?b = "ld8 m a" and ?c = "ld8 m (a + 1)" and ?d = "ld8 m (a + 2)" and ?e = "ld8 m (a + 3)"
  have l: "?b < 256" "?c < 256" "?d < 256" "?e < 256" by (rule ld8_less)+
  have e: "ld32 m a = ?b + 256 * (?c + 256 * (?d + 256 * ?e))" by (simp add: ld32_def)
  have d: "v div 65536 = v div 256 div 256" "v div 16777216 = v div 256 div 256 div 256" for v :: nat
    by (simp_all add: div_mult2_eq[symmetric])
  have q: "(b + 256 * c) mod 256 = b" "(b + 256 * c) div 256 = c" if "b < 256" for b c :: nat
    using that by simp_all
  show "ld8 m a = ld32 m a mod 256" "ld8 m (a + 1) = ld32 m a div 256 mod 256"
    "ld8 m (a + 2) = ld32 m a div 65536 mod 256" "ld8 m (a + 3) = ld32 m a div 16777216 mod 256"
    unfolding d e q(1)[OF l(1)] q(2)[OF l(1)] q(1)[OF l(2)] q(2)[OF l(2)] q(1)[OF l(3)] q(2)[OF l(3)]
    using l(4) by simp_all
qed

text \<open>The magic number cannot be read at an offset of one, two or three bytes from itself, whatever
  follows it in memory, because its first byte differs from the others.\<close>

lemma magic_shift:
  assumes "ld32 m a = HEAP_MAGIC" "0 < k" "k < 4"
  shows "ld32 m (a + k) \<noteq> HEAP_MAGIC"
proof
  assume "ld32 m (a + k) = HEAP_MAGIC"
  then have "ld8 m (a + k) = 18" using ld32_bytes(1)[of m "a + k"] by simp
  moreover have "ld8 m (a + 1) = 239" "ld8 m (a + 2) = 205" "ld8 m (a + 3) = 171"
    using ld32_bytes[of m a] assms(1) by simp_all
  moreover have "k = 1 \<or> k = 2 \<or> k = 3" using assms(2,3) by linarith
  ultimately show False by auto
qed

lemma find_header_ok:
  assumes "hdr_magic m x = HEAP_MAGIC" "x + 3 < W32" "k < 4"
  shows "find_header m (x + k) = Some x"
  using assms(3)
proof (induction k)
  case 0
  then show ?case using assms by (subst find_header.simps) simp
next
  case (Suc k)
  have "hdr_magic m (x + Suc k) \<noteq> HEAP_MAGIC"
    using magic_shift[of m "x + 8" "Suc k"] assms(1) Suc.prems by (simp add: hdr_magic_def ac_simps)
  then show ?case using Suc assms(2) by (subst find_header.simps) simp
qed

text \<open>A pointer into an area, as \<open>heap_alloc\<close> returns it: behind the header, rounded up to a
  multiple of four.\<close>

definition ptr_of :: "nat \<Rightarrow> nat \<Rightarrow> bool" where
  "ptr_of x p \<longleftrightarrow> x + 12 \<le> p \<and> p \<le> x + 15"

lemma dword_align_props:
  assumes "a + 4 < W32"
  shows "a \<le> dword_align a" "dword_align a < a + 4" "dword_align a mod 4 = 0"
proof -
  have e: "dword_align a = (if a mod 4 \<noteq> 0 then a - a mod 4 + 4 else a)"
    using assms by (auto simp: dword_align_def)
  have "a mod 4 < 4" "a mod 4 \<le> a" by simp_all
  then show "a \<le> dword_align a" "dword_align a < a + 4" unfolding e by auto
  have "a - a mod 4 + 4 = 4 * (a div 4 + 1)"
    by (simp only: minus_mod_eq_mult_div add_mult_distrib2 mult_1_right)
  then have "(a - a mod 4 + 4) mod 4 = 0" by (metis mod_mult_self1_is_0)
  then show "dword_align a mod 4 = 0" unfolding e by presburger
qed

lemma ptr_of_dword_align: "a + 16 < W32 \<Longrightarrow> ptr_of a (dword_align (a + 12))"
  using dword_align_props[of "a + 12"] by (simp add: ptr_of_def)

lemma find_area_ok:
  assumes "heap_inv st as" "(x, s, False) \<in> set as" "ptr_of x p" "p \<le> max_address (kheap st)"
  shows "find_area_and_validate p st = Some (Some (x, x + s - 8))"
proof -
  note a = heap_inv_areas[OF assms(1,2)]
  then have A: "area_ok (kmem st) x s False" "x + s < W32" by auto
  have "find_header (kmem st) (x + (p - 12 - x)) = Some x"
    using a assms(3) by (intro find_header_ok) (auto simp: area_ok_def ptr_of_def)
  moreover have "x + (p - 12 - x) = sub32 p 12"
    using assms(3) a by (auto simp: ptr_of_def area_ok_def)
  moreover have "start_address (kheap st) \<le> p" using a assms(3) by (simp add: ptr_of_def)
  ultimately show ?thesis using assms(4) FOOTER_area[OF A] A(1)
    by (simp add: find_area_and_validate_def area_ok_def)
qed

subsection \<open>Merging\<close>

lemma merge_left_mem:
  assumes "area_ok m y t f" "area_ok m x s g" "y + t = x" "x + s < W32"
  defines "m' \<equiv> set_ftr_magic (x - 8) 0 (set_hdr_magic x 0 (set_ftr_header (x + s - 8) y (set_hdr_size y (t + s) m)))"
  shows "area_ok m' y (t + s) f" "i < y \<or> x + s \<le> i \<Longrightarrow> m' i = m i"
    "FOOTER_FROM_HEADER (set_hdr_size y (t + s) m) y = x + s - 8"
proof -
  obtain b where b: "x - 8 = b" "b + 8 = x" "y + 12 < b" using assms by (force simp: area_ok_def)
  obtain c where c: "x + s - 8 = c" "c + 8 = x + s" "x + 12 < c" using assms by (force simp: area_ok_def)
  have d: "y + (t + s) - 8 = c" using c assms(3) by simp
  have n: "y + (t + s) = x + s" using assms(3) by simp
  show "area_ok m' y (t + s) f"
    using assms(1-4) b c n unfolding area_ok_def d m'_def b(1) c(1) by (simp add: fields loads)
  show "i < y \<or> x + s \<le> i \<Longrightarrow> m' i = m i"
    using b c unfolding m'_def b(1) c(1) by (auto simp: fields loads)
  show "FOOTER_FROM_HEADER (set_hdr_size y (t + s) m) y = x + s - 8"
    using assms(3,4) c by (simp add: FOOTER_FROM_HEADER_def fields n)
qed

lemma merge_right_mem:
  assumes "area_ok m x s f" "area_ok m y t g" "x + s = y" "y + t < W32"
  defines "m2 \<equiv> set_hdr_magic y 0 (set_ftr_magic (x + s - 8) 0 (set_hdr_size x (s + t) m))"
  defines "m' \<equiv> set_hdr_type x AREA_FREE (set_ftr_header (y + t - 8) x m2)"
  shows "area_ok m' x (s + t) True" "i < x \<or> y + t \<le> i \<Longrightarrow> m' i = m i"
    "FOOTER_FROM_HEADER m2 x = y + t - 8"
proof -
  obtain b where b: "x + s - 8 = b" "b + 8 = y" "x + 12 < b" using assms by (force simp: area_ok_def)
  obtain c where c: "y + t - 8 = c" "c + 8 = y + t" "y + 12 < c" using assms by (force simp: area_ok_def)
  have d: "x + (s + t) - 8 = c" using c assms(3) by simp
  have n: "x + (s + t) = y + t" using assms(3) by simp
  show "area_ok m' x (s + t) True"
    using assms(1-4) b c n unfolding area_ok_def d m'_def m2_def b(1) c(1) by (simp add: fields loads)
  show "i < x \<or> y + t \<le> i \<Longrightarrow> m' i = m i"
    using b c unfolding m'_def m2_def b(1) c(1) by (auto simp: fields loads)
  show "FOOTER_FROM_HEADER m2 x = y + t - 8"
    using assms(3,4) b c unfolding m2_def b(1) by (simp add: FOOTER_FROM_HEADER_def fields loads n)
qed

text \<open>The areas after a merge with a free left neighbour, and with a free right neighbour.\<close>

definition merge_left :: "area list \<Rightarrow> nat \<Rightarrow> nat \<Rightarrow> area list \<times> nat \<times> nat" where
  "merge_left pre x s = (if pre \<noteq> [] \<and> snd (snd (last pre))
     then (butlast pre, fst (last pre), fst (snd (last pre)) + s) else (pre, x, s))"

definition merge_right :: "nat \<Rightarrow> area list \<Rightarrow> nat \<times> area list" where
  "merge_right s post = (if post \<noteq> [] \<and> snd (snd (hd post))
     then (s + fst (snd (hd post)), tl post) else (s, post))"

definition coalesce :: "area list \<Rightarrow> nat \<Rightarrow> nat \<Rightarrow> area list \<Rightarrow> area list" where
  "coalesce pre x s post = (let (pre', x', s') = merge_left pre x s; (s'', post') = merge_right s' post
     in pre' @ (x', s'', True) # post')"

lemma hinv_bounds:
  assumes "hinv st (pre @ (x, s, f) # post) M"
  shows "4096 \<le> x" "x + s \<le> end_address (kheap st)" "end_address (kheap st) + 4096 < W32"
    "start_address (kheap st) \<le> x" "area_ok (kmem st) x s f"
    "tiles (kmem st) (start_address (kheap st)) pre x" "tiles (kmem st) (x + s) post (end_address (kheap st))"
proof -
  show t: "tiles (kmem st) (start_address (kheap st)) pre x" "tiles (kmem st) (x + s) post (end_address (kheap st))"
    "area_ok (kmem st) x s f"
    using assms by (auto simp: hinv_def tiles_append_Cons)
  show "start_address (kheap st) \<le> x" "x + s \<le> end_address (kheap st)" "4096 \<le> x"
    "end_address (kheap st) + 4096 < W32"
    using tiles_mono[OF t(1)] tiles_mono[OF t(2)] assms by (auto simp: hinv_def geom_def)
qed

lemma hinv_replace:
  assumes inv: "hinv st (pre @ mid @ post) M" and mid: "tiles (kmem st) a mid b" "tiles m' a mid' b" "mid' \<noteq> []"
    and pre: "tiles (kmem st) (start_address (kheap st)) pre a" and post: "tiles (kmem st) b post (end_address (kheap st))"
    and same: "\<And>i. i < a \<or> b \<le> i \<Longrightarrow> m' i = kmem st i"
    and h': "geom h'" "start_address h' = start_address (kheap st)" "end_address h' = end_address (kheap st)"
      "indexed h' (pre @ mid' @ post) M'" "rightmost_area h' = fst (last (mid' @ post))"
  shows "hinv (st\<lparr> kmem := m', kheap := h' \<rparr>) (pre @ mid' @ post) M'"
proof -
  have b: "a \<le> b" "b \<le> end_address (kheap st)" using tiles_mono[OF mid(1)] tiles_mono[OF post] by auto
  have "tiles m' (start_address (kheap st)) pre a" "tiles m' b post (end_address (kheap st))"
    using tiles_cong[OF _ pre, of m'] tiles_cong[OF _ post, of m'] same by auto
  moreover have "hdr_magic m' (end_address (kheap st)) = hdr_magic (kmem st) (end_address (kheap st))"
    unfolding hdr_magic_def using same b by (intro ld32_cong) simp
  ultimately show ?thesis using inv h' mid(2,3) unfolding hinv_def by (auto simp: tiles_append)
qed

lemma unify_left_ok:
  assumes inv: "hinv st (pre @ (x, s, True) # post) {#x#}"
  shows "\<exists>st'. (case merge_left pre x s of (pre', x', s') \<Rightarrow>
    unify_left x (x + s - 8) st = Some (x', x' = x, st') \<and>
    x' + s' = x + s \<and> hinv st' (pre' @ (x', s', True) # post) (if x' = x then {#x#} else {#}) \<and>
    frame (start_address (kheap st)) (end_address (kheap st)) st st' \<and>
    kept (kmem st) (kmem st') (pre' @ post) \<and> leak st' = leak st \<and>
    free_index (kheap st') = free_index (kheap st) \<and> used_index (kheap st') = used_index (kheap st))"
proof -
  note b = hinv_bounds[OF inv]
  have lf: "sub32 x 8 = x - 8" using b by simp
  show ?thesis
  proof (cases "pre \<noteq> [] \<and> snd (snd (last pre))")
    case False
    have "unify_left x (x + s - 8) st = Some (x, True, st)"
    proof (cases pre rule: rev_cases)
      case Nil
      then have "\<not> start_address (kheap st) \<le> x - 8" using b(1,6) by simp
      then show ?thesis unfolding unify_left_def lf by (simp add: Let_def)
    next
      case (snoc pre0 c)
      obtain y t f where c: "c = (y, t, f)" by (cases c)
      then have "\<not> f" "area_ok (kmem st) y t f" "y + t = x" using False snoc b(6) by (auto simp: tiles_append)
      then show ?thesis unfolding unify_left_def lf by (auto simp: Let_def area_ok_def)
    qed
    then show ?thesis using False inv by (auto simp: merge_left_def)
  next
    case True
    then obtain pre0 c where "pre = pre0 @ [c]" "snd (snd c)" by (cases pre rule: rev_cases) auto
    then obtain y t where pre: "pre = pre0 @ [(y, t, True)]" by (cases c) auto
    have y: "area_ok (kmem st) y t True" "y + t = x" "tiles (kmem st) (start_address (kheap st)) pre0 y"
      using b(6) pre by (auto simp: tiles_append)
    have xs: "x + s < W32" "8 \<le> x" using b by auto
    let ?m' = "set_ftr_magic (x - 8) 0 (set_hdr_magic x 0 (set_ftr_header (x + s - 8) y (set_hdr_size y (t + s) (kmem st))))"
    note M = merge_left_mem[OF y(1) b(5) y(2) xs(1)]
    let ?h' = "if x = rightmost_area (kheap st) then (kheap st)\<lparr> rightmost_area := y \<rparr> else kheap st"
    have yx: "20 < t" "y < x" "start_address (kheap st) \<le> y" using y tiles_mono by (auto simp: area_ok_def)
    have eq: "unify_left x (x + s - 8) st = Some (y, False, st\<lparr> kmem := ?m', kheap := ?h' \<rparr>)"
    proof -
      have f: "ftr_header (kmem st) (x - 8) = y" "ftr_magic (kmem st) (x - 8) = HEAP_MAGIC"
        using y(1,2) by (auto simp: area_ok_def)
      have "start_address (kheap st) \<le> x - 8" using y(2) yx by auto
      moreover have "add32 t s = t + s" using y(2) xs by simp
      moreover have "hdr_size (kmem st) x = s" "hdr_size (kmem st) y = t" using b(5) y(1) by (auto simp: area_ok_def)
      ultimately show ?thesis unfolding unify_left_def lf Let_def f using M(3) y(1) by (simp add: area_ok_def)
    qed
    have hi: "hinv (st\<lparr> kmem := ?m', kheap := ?h' \<rparr>) (pre0 @ [(y, t + s, True)] @ post) {#}"
    proof (rule hinv_replace[where a = y and b = "x + s" and mid = "[(y, t, True), (x, s, True)]"])
      show "hinv st (pre0 @ [(y, t, True), (x, s, True)] @ post) {#x#}" using inv pre by simp
      show "tiles (kmem st) y [(y, t, True), (x, s, True)] (x + s)" using y b(5) by simp
      show "tiles ?m' y [(y, t + s, True)] (x + s)" using M(1) y(2) by auto
      show "geom ?h'" using inv by (auto simp: hinv_def)
      show "indexed ?h' (pre0 @ [(y, t + s, True)] @ post) {#}" using inv pre by (auto simp: hinv_def indexed_def)
      show "rightmost_area ?h' = fst (last ([(y, t + s, True)] @ post))"
      proof (cases "post = []")
        case False
        then obtain z u f where z: "last post = (z, u, f)" "(z, u, f) \<in> set post" by (metis last_in_set prod_cases3)
        then have "x + s \<le> z" using tiles_member[OF b(7)] by blast
        moreover have "rightmost_area (kheap st) = z" using inv z(1) False by (simp add: hinv_def)
        ultimately show ?thesis using False z(1) b(5) by (auto simp: area_ok_def)
      qed (use inv in \<open>simp add: hinv_def\<close>)
    qed (use M(2) y(3) b(7) in auto)
    have K: "kept (kmem st) ?m' pre0" "kept (kmem st) ?m' post"
      using kept_tiles[OF y(3), of ?m'] kept_tiles[OF b(7), of ?m'] M(2) by auto
    have "merge_left pre x s = (pre0, y, t + s)" using pre by (simp add: merge_left_def)
    moreover have "frame (start_address (kheap st)) (end_address (kheap st)) st (st\<lparr> kmem := ?m', kheap := ?h' \<rparr>)"
      using M(2) yx b(2) unfolding frame_def by simp
    ultimately show ?thesis using eq hi K yx y(2) by (intro exI[of _ "st\<lparr> kmem := ?m', kheap := ?h' \<rparr>"]) simp
  qed
qed

lemma remove_free_missing:
  assumes "indexed (kheap st) as M" "0 < oa_room (free_index (kheap st))" "(y, t, True) \<in> set as" "y \<notin># M"
  shows "\<exists>i. remove_free y st = Some (st\<lparr> kheap := (kheap st)\<lparr> free_index := i \<rparr> \<rparr>) \<and>
    indexed ((kheap st)\<lparr> free_index := i \<rparr>) as (add_mset y M) \<and> oa_room i = Suc (oa_room (free_index (kheap st)))"
proof -
  have "y \<in># mset (oa_contents (free_index (kheap st))) + M"
    using assms(1,3) set_addrs(1)[of y as] unfolding indexed_def by auto
  then have y: "y \<in> set (oa_contents (free_index (kheap st)))" using assms(4) by auto
  obtain i where i: "remove_ordered_array_item y (free_index (kheap st)) = Some i" "oa_usable i"
    "oa_room i = Suc (oa_room (free_index (kheap st)))"
    "mset (oa_contents i) = mset (oa_contents (free_index (kheap st))) - {#y#}"
    using oa.del_law[of "free_index (kheap st)" y] assms y by (auto simp: indexed_def)
  have "mset (oa_contents i) + add_mset y M = mset (oa_contents (free_index (kheap st))) + M"
    unfolding i(4) using y by simp
  then have "mset (oa_contents i) + add_mset y M = mset (free_addrs as)"
    using assms(1) unfolding indexed_def by metis
  then show ?thesis using assms(1) i(1-3) by (intro exI[of _ i]) (simp add: remove_free_def indexed_def)
qed

lemma unify_right_ok:
  assumes inv: "hinv st (pre @ (x, s, True) # post) M" and M: "M = {#} \<or> M = {#x#}"
    and room: "0 < oa_room (free_index (kheap st))"
  shows "\<exists>st'. (case merge_right s post of (s', post') \<Rightarrow>
    unify_right x (x + s - 8) st = Some st' \<and> hinv st' (pre @ (x, s', True) # post') M \<and>
    frame (start_address (kheap st)) (end_address (kheap st)) st st' \<and>
    kept (kmem st) (kmem st') (pre @ post') \<and> leak st' = leak st \<and>
    oa_room (free_index (kheap st)) \<le> oa_room (free_index (kheap st')) \<and> used_index (kheap st') = used_index (kheap st))"
proof -
  note b = hinv_bounds[OF inv]
  have xs: "x + s < W32" "20 < s" using b by (auto simp: area_ok_def)
  have rh: "add32 (x + s - 8) 8 = x + s" using xs by simp
  show ?thesis
  proof (cases "post \<noteq> [] \<and> snd (snd (hd post))")
    case False
    have "unify_right x (x + s - 8) st = Some st"
    proof (cases post)
      case Nil
      then have "x + s = end_address (kheap st)" using b(7) by simp
      then show ?thesis using inv unfolding unify_right_def rh hinv_def by (simp add: Let_def)
    next
      case (Cons c post')
      obtain y t f where c: "c = (y, t, f)" by (cases c)
      then have "\<not> f" "area_ok (kmem st) (x + s) t f" using False Cons b(7) by auto
      then show ?thesis unfolding unify_right_def rh by (auto simp: Let_def area_ok_def)
    qed
    then show ?thesis using False inv by (auto simp: merge_right_def)
  next
    case True
    define y where "y = x + s"
    obtain t post' where post: "post = (y, t, True) # post'"
      using True b(7) by (cases post) (auto simp: y_def)
    have y: "area_ok (kmem st) y t True" "tiles (kmem st) (y + t) post' (end_address (kheap st))" "x + s = y"
      using b(7) post by (auto simp: y_def)
    have yt: "y + t < W32" "y + t \<le> end_address (kheap st)" "y \<noteq> x" using tiles_mono[OF y(2)] b xs by (auto simp: y_def)
    obtain i where i: "remove_free y st = Some (st\<lparr> kheap := (kheap st)\<lparr> free_index := i \<rparr> \<rparr>)"
      "indexed ((kheap st)\<lparr> free_index := i \<rparr>) (pre @ (x, s, True) # post) (add_mset y M)"
      "oa_room i = Suc (oa_room (free_index (kheap st)))"
      using remove_free_missing[of st "pre @ (x, s, True) # post" M y t] inv M room yt(3) post by (auto simp: hinv_def)
    let ?m2 = "set_hdr_magic y 0 (set_ftr_magic (x + s - 8) 0 (set_hdr_size x (s + t) (kmem st)))"
    let ?m' = "set_hdr_type x AREA_FREE (set_ftr_header (y + t - 8) x ?m2)"
    let ?h1 = "(kheap st)\<lparr> free_index := i \<rparr>"
    let ?h' = "if rightmost_area (kheap st) = y then ?h1\<lparr> rightmost_area := x \<rparr> else ?h1"
    note R = merge_right_mem[OF b(5) y(1,3) yt(1)]
    have eq: "unify_right x (x + s - 8) st = Some (st\<lparr> kmem := ?m', kheap := ?h' \<rparr>)"
    proof -
      have "FOOTER_FROM_HEADER (kmem st) y = y + t - 8" by (rule FOOTER_area[OF y(1) yt(1)])
      moreover have "add32 s t = s + t" using y(3) yt(1) by simp
      moreover have "hdr_size (kmem st) x = s" "hdr_size (kmem st) y = t" using b(5) y(1) by (auto simp: area_ok_def)
      ultimately show ?thesis unfolding unify_right_def rh Let_def unfolding y(3) using R(3) y(1,3) i(1)
        by (simp add: area_ok_def)
    qed
    have hi: "hinv (st\<lparr> kmem := ?m', kheap := ?h' \<rparr>) (pre @ [(x, s + t, True)] @ post') M"
    proof (rule hinv_replace[where a = x and b = "y + t" and mid = "[(x, s, True), (y, t, True)]"])
      show "hinv st (pre @ [(x, s, True), (y, t, True)] @ post') M" using inv post by simp
      show "tiles (kmem st) x [(x, s, True), (y, t, True)] (y + t)" using y b(5) by simp
      show "tiles ?m' x [(x, s + t, True)] (y + t)" using R(1) y(3) by auto
      show "geom ?h'" using inv by (auto simp: hinv_def)
      show "indexed ?h' (pre @ [(x, s + t, True)] @ post') M" using i(2) post M by (auto simp: indexed_def)
      show "rightmost_area ?h' = fst (last ([(x, s + t, True)] @ post'))"
      proof (cases "post' = []")
        case False
        then obtain z u f where z: "last post' = (z, u, f)" "(z, u, f) \<in> set post'" by (metis last_in_set prod_cases3)
        then have "y + t \<le> z" using tiles_member[OF y(2)] by blast
        moreover have "rightmost_area (kheap st) = z" using inv z(1) False post by (simp add: hinv_def)
        ultimately show ?thesis using False z(1) y(1) by (auto simp: area_ok_def)
      qed (use inv post in \<open>simp add: hinv_def\<close>)
    qed (use R(2) b(6) y(2) in auto)
    have K: "kept (kmem st) ?m' pre" "kept (kmem st) ?m' post'"
      using kept_tiles[OF b(6), of ?m'] kept_tiles[OF y(2), of ?m'] R(2) by auto
    have "merge_right s post = (s + t, post')" using post by (simp add: merge_right_def)
    moreover have "frame (start_address (kheap st)) (end_address (kheap st)) st (st\<lparr> kmem := ?m', kheap := ?h' \<rparr>)"
      using R(2) b(4) yt(2) unfolding frame_def by simp
    ultimately show ?thesis using eq hi K i(3) by (intro exI[of _ "st\<lparr> kmem := ?m', kheap := ?h' \<rparr>"]) simp
  qed
qed

subsection \<open>The operation as a whole\<close>

definition used_areas :: "area list \<Rightarrow> area list" where
  "used_areas as = filter (\<lambda>(x, s, f). \<not> f) as"

definition untraceable :: "nat \<Rightarrow> 'v kst \<Rightarrow> bool" where
  "untraceable p st \<longleftrightarrow> (case leak st of None \<Rightarrow> True
     | Some (l, es) \<Rightarrow> \<forall>e \<in> set es. li_allocation e = p \<longrightarrow> li_allocator_pid e \<noteq> 0)"

lemma untrace_slot_ok:
  "\<forall>e \<in> set es. li_allocation e = p \<longrightarrow> li_allocator_pid e \<noteq> 0 \<Longrightarrow> \<exists>es'. untrace_slot es p = Some es'"
proof (induction es)
  case (Cons e es)
  then obtain es' where "untrace_slot es p = Some es'" by auto
  then show ?case using Cons.prems by simp
qed simp

lemma trace_free_ok:
  assumes "untraceable p st" shows "\<exists>l. trace_free p st = Some (st\<lparr> leak := l \<rparr>)"
proof (cases "leak st")
  case (Some le)
  then show ?thesis using assms untrace_slot_ok[of "snd le" p]
    by (cases le) (auto simp: trace_free_def untraceable_def)
next
  case None
  have "trace_free p st = Some (st\<lparr> leak := leak st \<rparr>)" using None by (simp add: trace_free_def)
  then show ?thesis by blast
qed

lemma used_areas_simps [simp]:
  "used_areas [] = []" "used_areas (as @ bs) = used_areas as @ used_areas bs"
  "used_areas ((x, s, f) # as) = (if f then used_areas as else (x, s, f) # used_areas as)"
  by (simp_all add: used_areas_def)

lemma used_areas_merge:
  "merge_left pre x s = (pre', x', s') \<Longrightarrow> used_areas pre' = used_areas pre"
  "merge_right s post = (s', post') \<Longrightarrow> used_areas post' = used_areas post"
proof -
  show "merge_left pre x s = (pre', x', s') \<Longrightarrow> used_areas pre' = used_areas pre"
    by (cases pre rule: rev_cases) (auto simp: merge_left_def used_areas_def split: if_splits)
  show "merge_right s post = (s', post') \<Longrightarrow> used_areas post' = used_areas post"
    by (cases post) (auto simp: merge_right_def used_areas_def split: if_splits)
qed

lemma kept_used: "kept m m' as \<Longrightarrow> kept m m' (used_areas as)"
  by (auto simp: kept_def used_areas_def)

lemma kept_trans: "kept m m' as \<Longrightarrow> kept m' m'' as \<Longrightarrow> kept m m'' as"
  by (simp add: kept_def split_beta)

lemma mark_free_ok:
  assumes inv: "hinv st (pre @ (x, s, False) # post) {#}" and room: "0 < oa_room (used_index (kheap st))"
  shows "\<exists>i. remove_used x st = Some (st\<lparr> kheap := (kheap st)\<lparr> used_index := i \<rparr> \<rparr>) \<and>
    hinv (st\<lparr> kheap := (kheap st)\<lparr> used_index := i \<rparr>, kmem := set_hdr_type x AREA_FREE (kmem st) \<rparr>)
      (pre @ (x, s, True) # post) {#x#} \<and> oa_room i = Suc (oa_room (used_index (kheap st)))"
proof -
  note b = hinv_bounds[OF inv]
  let ?m = "set_hdr_type x AREA_FREE (kmem st)"
  obtain i where i: "remove_used x st = Some (st\<lparr> kheap := (kheap st)\<lparr> used_index := i \<rparr> \<rparr>)"
    "indexed ((kheap st)\<lparr> used_index := i \<rparr>) (pre @ (x, s, True) # post) {#x#}"
    "oa_room i = Suc (oa_room (used_index (kheap st)))"
    using remove_used_ok[of st pre x s post] inv room by (auto simp: hinv_def)
  obtain c where c: "x + s - 8 = c" "c + 8 = x + s" "x + 12 < c" using b(5) by (force simp: area_ok_def)
  have A: "area_ok ?m x s True" using b(5) c unfolding area_ok_def c(1) by (simp add: fields loads)
  have same: "?m i = kmem st i" if "i < x \<or> x + s \<le> i" for i using that c by (auto simp: fields loads)
  have "hinv (st\<lparr> kmem := ?m, kheap := (kheap st)\<lparr> used_index := i \<rparr> \<rparr>) (pre @ [(x, s, True)] @ post) {#x#}"
  proof (rule hinv_replace[where a = x and b = "x + s" and mid = "[(x, s, False)]"])
    show "hinv st (pre @ [(x, s, False)] @ post) {#}" using inv by simp
  qed (use inv i b A same in \<open>auto simp: hinv_def\<close>)
  then have "hinv (st\<lparr> kheap := (kheap st)\<lparr> used_index := i \<rparr>, kmem := ?m \<rparr>) (pre @ (x, s, True) # post) {#x#}"
    by (simp add: hinv_def)
  then show ?thesis using i by blast
qed

lemma heap_free_core:
  assumes inv: "heap_inv st (pre @ (x, s, False) # post)" and p: "ptr_of x p" "p \<le> max_address (kheap st)" "untraceable p st"
    and room: "0 < oa_room (free_index (kheap st))" "0 < oa_room (used_index (kheap st))"
  shows "\<exists>st'. heap_free ops p st = shrink_tail ops st' \<and> heap_inv st' (coalesce pre x s post) \<and>
    frame (start_address (kheap st)) (end_address (kheap st)) st st' \<and>
    kept (kmem st) (kmem st') (used_areas (pre @ post))"
proof -
  have inv0: "hinv st (pre @ (x, s, False) # post) {#}" using inv by (simp add: heap_inv_def)
  note b = hinv_bounds[OF inv0]
  have fa: "find_area_and_validate p st = Some (Some (x, x + s - 8))"
    using find_area_ok[OF inv _ p(1,2), of s] by simp
  have p0: "p \<noteq> 0" using p(1) by (auto simp: ptr_of_def)
  obtain l where l: "trace_free p st = Some (st\<lparr> leak := l \<rparr>)" using trace_free_ok[OF p(3)] by blast
  let ?st1 = "st\<lparr> leak := l \<rparr>"
  obtain i where i: "remove_used x ?st1 = Some (?st1\<lparr> kheap := (kheap ?st1)\<lparr> used_index := i \<rparr> \<rparr>)"
    "hinv (?st1\<lparr> kheap := (kheap ?st1)\<lparr> used_index := i \<rparr>, kmem := set_hdr_type x AREA_FREE (kmem ?st1) \<rparr>)
      (pre @ (x, s, True) # post) {#x#}"
    using mark_free_ok[of ?st1 pre x s post] inv0 room by auto
  let ?st3 = "?st1\<lparr> kheap := (kheap ?st1)\<lparr> used_index := i \<rparr>, kmem := set_hdr_type x AREA_FREE (kmem ?st1) \<rparr>"
  have F3: "frame (start_address (kheap st)) (end_address (kheap st)) st ?st3"
    using b by (auto simp: frame_def fields loads area_ok_def)
  have K3: "kept (kmem st) (kmem ?st3) pre" "kept (kmem st) (kmem ?st3) post"
    using kept_tiles[OF b(6)] kept_tiles[OF b(7)] b(5) by (auto simp: fields loads area_ok_def)
  obtain pre' x' s' where ml: "merge_left pre x s = (pre', x', s')" by (metis prod_cases3)
  obtain st4 where st4: "unify_left x (x + s - 8) ?st3 = Some (x', x' = x, st4)" "x' + s' = x + s"
    "hinv st4 (pre' @ (x', s', True) # post) (if x' = x then {#x#} else {#})"
    "frame (start_address (kheap st)) (end_address (kheap st)) ?st3 st4"
    "kept (kmem ?st3) (kmem st4) (pre' @ post)" "free_index (kheap st4) = free_index (kheap st)"
    using unify_left_ok[OF i(2)] ml by auto
  obtain s'' post' where mr: "merge_right s' post = (s'', post')" by fastforce
  have M4: "(if x' = x then {#x#} else {#}) = {#} \<or> (if x' = x then {#x#} else {#}) = {#x'#}" by simp
  obtain st5 where st5: "unify_right x' (x' + s' - 8) st4 = Some st5"
    "hinv st5 (pre' @ (x', s'', True) # post') (if x' = x then {#x#} else {#})"
    "frame (start_address (kheap st4)) (end_address (kheap st4)) st4 st5"
    "kept (kmem st4) (kmem st5) (pre' @ post')" "0 < oa_room (free_index (kheap st5))"
    using unify_right_ok[OF st4(3) M4] mr st4(6) room(1) by (auto dest: less_le_trans)
  obtain st6 where st6: "(if x' = x then insert_free x' st5 else Some st5) = Some st6"
    "heap_inv st6 (pre' @ (x', s'', True) # post')" "kmem st6 = kmem st5"
    "frame (start_address (kheap st)) (end_address (kheap st)) st5 st6"
  proof (cases "x' = x")
    case True
    then obtain j where "insert_free x' st5 = Some (st5\<lparr> kheap := (kheap st5)\<lparr> free_index := j \<rparr> \<rparr>)"
      "indexed ((kheap st5)\<lparr> free_index := j \<rparr>) (pre' @ (x', s'', True) # post') {#}"
      using insert_free_ok[of st5 "pre' @ (x', s'', True) # post'" x'] st5(2,5) by (auto simp: hinv_def)
    then show ?thesis using st5(2) True
      by (intro that[of "st5\<lparr> kheap := (kheap st5)\<lparr> free_index := j \<rparr> \<rparr>"]) (auto simp: heap_inv_def hinv_def frame_def)
  next
    case False
    then show ?thesis using st5(2) by (intro that[of st5]) (auto simp: heap_inv_def)
  qed
  have eq: "heap_free ops p st = shrink_tail ops st6"
    using p0 fa l i(1) st4(1) st5(1) st6(1) unfolding st4(2) by (simp add: heap_free_def Let_def)
  have "frame (start_address (kheap st)) (end_address (kheap st)) st4 st5" using st5(3) st4(4) F3 by (simp add: frame_def)
  then have F: "frame (start_address (kheap st)) (end_address (kheap st)) st st6"
    using F3 st4(4) st6(4) frame_trans by blast
  have U: "used_areas pre' = used_areas pre" "used_areas post' = used_areas post"
    using used_areas_merge ml mr by auto
  have "kept (kmem st) (kmem st6) (used_areas (pre @ post))"
    unfolding st6(3) using kept_used[OF K3(1)] kept_used[OF K3(2)] kept_used[OF st4(5)] kept_used[OF st5(4)]
    unfolding used_areas_simps kept_append U by (meson kept_trans)
  then show ?thesis using eq st6(2) F ml mr
    by (intro exI[of _ st6]) (simp add: coalesce_def)
qed

end
