(* ===== verification/Heap_Main.thy ===== *)
theory Heap_Main
  imports Heap_Free
begin

text \<open>
  What callers of the heap rely on: an allocation returns a block inside the heap that no other
  block overlaps and leaves every other block's contents alone; a free gives the block back and
  merges it with its neighbours.
\<close>

subsection \<open>Blocks\<close>

text \<open>\<open>block as p n\<close>: the \<open>n\<close> bytes from \<open>p\<close> lie inside a used area, behind its header and in front of
  its footer.\<close>

definition block :: "area list \<Rightarrow> nat \<Rightarrow> nat \<Rightarrow> bool" where
  "block as p n \<longleftrightarrow> (\<exists>a s. (a, s, False) \<in> set as \<and> ptr_of a p \<and> p + n + 8 \<le> a + s)"

text \<open>\<open>survive as as'\<close>: every used area of \<open>as\<close> is one of \<open>as'\<close>, possibly with bytes added at its end.\<close>

definition survive :: "area list \<Rightarrow> area list \<Rightarrow> bool" where
  "survive as as' \<longleftrightarrow> (\<forall>a s. (a, s, False) \<in> set as \<longrightarrow> (\<exists>s'. s \<le> s' \<and> (a, s', False) \<in> set as'))"

definition no_adjacent_free :: "area list \<Rightarrow> bool" where
  "no_adjacent_free as \<longleftrightarrow> (\<forall>i. Suc i < length as \<longrightarrow> \<not> (snd (snd (as ! i)) \<and> snd (snd (as ! Suc i))))"

lemma survive_refl [simp]: "survive as as"
  by (auto simp: survive_def)

lemma survive_trans: "survive as bs \<Longrightarrow> survive bs cs \<Longrightarrow> survive as cs"
  unfolding survive_def by (meson le_trans)

lemma block_survive: "block as p n \<Longrightarrow> survive as as' \<Longrightarrow> block as' p n"
  unfolding block_def survive_def by (meson add_left_mono le_trans)

lemma no_adjacent_free_Cons:
  "no_adjacent_free (a # as) \<longleftrightarrow> (as \<noteq> [] \<longrightarrow> \<not> (snd (snd a) \<and> snd (snd (hd as)))) \<and> no_adjacent_free as"
  unfolding no_adjacent_free_def
  by (cases as) (auto simp: nth_Cons' less_Suc_eq_0_disj split: if_splits)

lemma no_adjacent_free_append:
  "no_adjacent_free (as @ bs) \<longleftrightarrow> no_adjacent_free as \<and> no_adjacent_free bs \<and>
     (as \<noteq> [] \<longrightarrow> bs \<noteq> [] \<longrightarrow> \<not> (snd (snd (last as)) \<and> snd (snd (hd bs))))"
  by (induction as) (auto simp: no_adjacent_free_Cons no_adjacent_free_def[of "[]"] hd_append)

lemma survive_append: "survive (as @ bs) cs \<longleftrightarrow> survive as cs \<and> survive bs cs"
  unfolding survive_def by auto

lemma survive_Cons:
  "survive ((x, s, f) # as) cs \<longleftrightarrow> (f \<or> (\<exists>s'. s \<le> s' \<and> (x, s', False) \<in> set cs)) \<and> survive as cs"
  unfolding survive_def by auto

lemma survive_mono: "survive as bs \<Longrightarrow> set bs \<subseteq> set cs \<Longrightarrow> survive as cs"
  unfolding survive_def by blast

lemma survive_subset: "set as \<subseteq> set cs \<Longrightarrow> survive as cs"
  unfolding survive_def by auto

lemma left_change_survive:
  assumes "left_change a off pre pre'"
  shows "survive pre pre'"
proof (cases "pre' = pre @ [(a, off, True)]")
  case True
  then show ?thesis by (auto intro: survive_subset)
next
  case False
  then obtain pre0 x t f where p: "pre = pre0 @ [(x, t, f)]" "pre' = pre0 @ [(x, t + off, f)]"
    using assms unfolding left_change_def by blast
  have "survive pre0 pre'" using p(2) by (auto intro: survive_subset)
  moreover have "f \<or> (\<exists>s'. t \<le> s' \<and> (x, s', False) \<in> set pre')" 
    using p(2) by (cases f) (auto intro!: exI[of _ "t + off"])
  ultimately show ?thesis unfolding p(1) survive_append survive_Cons by (simp add: survive_subset)
qed

lemma survive_middle:
  assumes "survive pre pre'"
  shows "survive (pre @ (x, s, True) # post) (pre' @ new @ post)"
proof -
  have "survive post (pre' @ new @ post)" by (rule survive_subset) auto
  then show ?thesis using survive_mono[OF assms, of "pre' @ new @ post"] by (simp add: survive_append survive_Cons)
qed

lemma alloc_areas_props:
  assumes "alloc_areas sz pa a s pre post a' n as'" "20 < sz" "sz \<le> s" "pa \<longrightarrow> page_offset a + sz \<le> s"
  shows "survive (pre @ (a, s, True) # post) as'" "(a', n, False) \<in> set as'" "sz \<le> n"
    "a' = a + (if pa then page_offset a else 0)" "a \<le> a'" "a' + n \<le> a + s"
proof -
  obtain pre' where p: "a' = a + (if pa then page_offset a else 0)"
    "if (if pa then page_offset a else 0) = 0 then pre' = pre else left_change a (if pa then page_offset a else 0) pre pre'"
    "n = (if 36 \<le> s - (if pa then page_offset a else 0) - sz then sz else s - (if pa then page_offset a else 0))"
    "as' = pre' @ ((a', n, False) # (if 36 \<le> s - (if pa then page_offset a else 0) - sz
        then [(a' + sz, s - (if pa then page_offset a else 0) - sz, True)] else [])) @ post"
    using assms(1) unfolding alloc_areas_def Let_def by auto
  have "survive pre pre'" using p(2) left_change_survive by (auto split: if_splits)
  then show "survive (pre @ (a, s, True) # post) as'" unfolding p(4) by (rule survive_middle)
  show "(a', n, False) \<in> set as'" unfolding p(4) by simp
  show "sz \<le> n" "a' = a + (if pa then page_offset a else 0)" "a \<le> a'" "a' + n \<le> a + s"
    using p(1,3) assms by auto
qed

subsection \<open>Allocating from a hole\<close>

definition request_size :: "nat \<Rightarrow> bool \<Rightarrow> nat" where
  "request_size n pa = (if pa then n + 20 else n + 23)"

text \<open>\<open>alloc_result st as n pa p st' as'\<close>: what a caller may rely on when a request for \<open>n\<close> bytes
  returned \<open>p\<close>.\<close>

definition alloc_result :: "'v kst \<Rightarrow> area list \<Rightarrow> nat \<Rightarrow> bool \<Rightarrow> nat \<Rightarrow> 'v kst \<Rightarrow> area list \<Rightarrow> bool" where
  "alloc_result st as n pa p st' as' \<longleftrightarrow> heap_inv st' as' \<and> block as' p n \<and> p mod 4 = 0 \<and> (pa \<longrightarrow> p mod 4096 = 0) \<and>
     survive as as' \<and> kept (kmem st) (kmem st') (used_areas as) \<and>
     (\<forall>a s. (a, s, False) \<in> set as \<longrightarrow> p + n \<le> a \<or> a + s \<le> p)"

lemma heap_inv_split_disjoint:
  assumes "heap_inv st (pre @ (x, s, f) # post)" "(a, t, g) \<in> set (pre @ post)"
  shows "a + t \<le> x \<or> x + s \<le> a"
proof -
  have "hinv st (pre @ (x, s, f) # post) {#}" using assms(1) by (simp add: heap_inv_def)
  note b = hinv_bounds[OF this]
  show ?thesis using assms(2) tiles_member[OF b(6), of a t g] tiles_member[OF b(7), of a t g] by auto
qed

lemma alloc_in_hole_result:
  assumes inv: "heap_inv st (pre @ (x, s, True) # post)" and n: "0 < n0"
    and fit: "request_size n0 pa \<le> n" "n \<le> s" "pa \<longrightarrow> page_offset x + n \<le> s"
    and room: "0 < oa_room (free_index (kheap st))" "0 < oa_room (used_index (kheap st))" "trace_room st"
  shows "\<exists>p st' as'. alloc_in_hole n pa x st = Some (p, st') \<and>
    alloc_result st (pre @ (x, s, True) # post) n0 pa p st' as' \<and>
    frame (start_address (kheap st)) (end_address (kheap st)) st st'"
proof -
  have n20: "20 < n" "pa \<Longrightarrow> n0 + 20 \<le> n" "\<not> pa \<Longrightarrow> n0 + 23 \<le> n"
    using fit(1) n by (auto simp: request_size_def split: if_splits)
  obtain st' a' m as' where r: "alloc_in_hole n pa x st = Some (dword_align (a' + 12), st')"
    "alloc_areas n pa x s pre post a' m as'" "heap_inv st' as'"
    "frame (start_address (kheap st)) (end_address (kheap st)) st st'"
    "kept (kmem st) (kmem st') pre" "kept (kmem st) (kmem st') post"
    using alloc_in_hole_ok[OF inv n20(1) fit(2) _ room, of pa] fit(3) by blast
  note A = alloc_areas_props[OF r(2) n20(1) fit(2,3)]
  have bnd: "a' + m < W32" "x + s < W32"
    using heap_inv_areas[OF r(3) A(2)] heap_inv_areas[OF inv, of x s True] by auto
  then have d: "a' + 12 \<le> dword_align (a' + 12)" "dword_align (a' + 12) < a' + 16" "dword_align (a' + 12) mod 4 = 0"
    using dword_align_props[of "a' + 12"] A(3) n20(1) by auto
  have al: "(a' + 12) mod 4096 = 0" if pa
  proof (cases "IS_PAGE_ALIGNED (x + 12)")
    case True
    moreover have "x + 12 < W32" using bnd n20(1) fit by simp
    ultimately show ?thesis using that A(4) by (simp add: page_offset_def IS_PAGE_ALIGNED_def)
  next
    case False
    moreover have "x + 12 < W32" using bnd n20(1) fit by simp
    ultimately have "IS_PAGE_ALIGNED (x + page_offset x + 12)" by (intro page_offset_props(3))
    then show ?thesis using that A(4) by (simp only: IS_PAGE_ALIGNED_def if_True)
  qed
  have dp: "dword_align (a' + 12) = a' + 12" if pa
  proof -
    have "(a' + 12) mod 4 = 0" 
      using al[OF that] mod_mod_cancel[of 4 4096 "a' + 12"] by simp
    then show ?thesis by (simp add: dword_align_def)
  qed
  have fit2: "dword_align (a' + 12) + n0 + 8 \<le> a' + m"
    using d A(3) n20 dp by (cases pa) auto
  have "block as' (dword_align (a' + 12)) n0"
    unfolding block_def using A(2) fit2 d 
    by (intro exI[of _ a'] exI[of _ m]) (simp add: ptr_of_def)
  moreover have "dword_align (a' + 12) + n0 \<le> b \<or> b + t \<le> dword_align (a' + 12)"
    if "(b, t, False) \<in> set (pre @ (x, s, True) # post)" for b t
    using heap_inv_split_disjoint[OF inv, of b t False] that A(5,6) fit2 d(1) by auto
  moreover have "kept (kmem st) (kmem st') (used_areas (pre @ (x, s, True) # post))"
    using kept_used[OF r(5)] kept_used[OF r(6)] by simp
  ultimately have "alloc_result st (pre @ (x, s, True) # post) n0 pa (dword_align (a' + 12)) st' as'"
    unfolding alloc_result_def using r(3) d(3) al dp A(1) by simp
  then show ?thesis using r(1,4) by blast
qed

lemma request_size_eq:
  "n < 1073741824 \<Longrightarrow> (if pa then add32 n 20 else add32 (add32 n 20) 3) = request_size n pa"
  by (auto simp: request_size_def)

lemma heap_alloc_hole:
  assumes inv: "heap_inv st as" and n: "0 < n" "n < 1073741824" "0 < n0" "n0 \<le> n"
    and fit: "(x, s, True) \<in> set as" "request_size n pa \<le> s" "pa \<longrightarrow> page_offset x + request_size n pa \<le> s"
    and room: "0 < oa_room (free_index (kheap st))" "0 < oa_room (used_index (kheap st))" "trace_room st"
  shows "\<exists>p st' as'. heap_alloc ops n pa st = Some (p, st') \<and> alloc_result st as n0 pa p st' as' \<and>
    frame (start_address (kheap st)) (end_address (kheap st)) st st'"
proof (rule find_smallest_hole_cases[OF inv, of "request_size n pa" pa])
  assume "\<And>x s. (x, s, True) \<in> set as \<Longrightarrow> \<not> (request_size n pa \<le> s \<and> (pa \<longrightarrow> page_offset x + request_size n pa \<le> s))"
  then show ?thesis using fit by blast
next
  fix y t pre post
  assume some: "find_smallest_hole (request_size n pa) pa st = Some y" "y \<noteq> 0" "as = pre @ (y, t, True) # post"
    "request_size n pa \<le> t" "pa \<longrightarrow> page_offset y + request_size n pa \<le> t"
  have le: "request_size n0 pa \<le> request_size n pa" using n(4) by (simp add: request_size_def)
  have "heap_alloc ops n pa st = alloc_in_hole (request_size n pa) pa y st"
    using some(1,2) by (subst heap_alloc.simps) (simp add: Let_def request_size_eq[OF n(2)])
  then show ?thesis
    using alloc_in_hole_result[OF inv[unfolded some(3)] n(3) le some(4,5) room] some(3) by auto
qed

subsection \<open>Shrinking the heap\<close>

lemma shrink_tail_id:
  assumes inv: "heap_inv st as" and small: "\<not> (snd (snd (last as)) \<and> 1572864 \<le> fst (snd (last as)))"
  shows "shrink_tail ops st = Some st"
proof -
  obtain pre x s f where as: "as = pre @ [(x, s, f)]"
    using inv unfolding heap_inv_def hinv_def by (metis prod_cases3 rev_exhaust)
  have r: "rightmost_area (kheap st) = x" using inv as by (simp add: heap_inv_def hinv_def)
  have A: "area_ok (kmem st) x s f" "x + s < W32" "s < 2147483648"
    using heap_inv_areas[OF inv, of x s f] as by auto
  show ?thesis
  proof (cases "f \<and> KHEAP_MAX_WASTE \<le> s")
    case True
    then have "s < 1572864" using small as by simp
    then have "sub32 s 1048576 < 512 * 1024" using True by simp
    moreover have "FOOTER_FROM_HEADER (kmem st) x = x + s - 8" by (rule FOOTER_area[OF A(1,2)])
    ultimately show ?thesis using True A(1)
      unfolding shrink_tail_def r Let_def by (simp add: area_ok_def heap_contract_def)
  next
    case False
    then show ?thesis using A(1) unfolding shrink_tail_def r by (auto simp: area_ok_def Let_def)
  qed
qed

end
