(* ===== verification/Heap_Vm.thy ===== *)
theory Heap_Vm
  imports Heap_Main
begin

text \<open>
  What the heap relies on when it grows and shrinks: the contract of the virtual memory manager,
  and the heap operations under that contract.
\<close>

subsection \<open>Composition of results\<close>

lemma kept_survive:
  assumes "kept m m' (used_areas bs)" "survive as bs"
  shows "kept m m' (used_areas as)"
proof -
  have "m' i = m i" if a: "(a, s, False) \<in> set as" "a + 12 \<le> i" "i + 8 < a + s" for a s i
  proof -
    obtain s' where s': "s \<le> s'" "(a, s', False) \<in> set (used_areas bs)"
      using assms(2) a(1) by (auto simp: survive_def used_areas_def)
    have "i + 8 < a + s'" using a(3) s'(1) by simp
    then show ?thesis using assms(1) s'(2) a(2) unfolding kept_def by fastforce
  qed
  then show ?thesis by (auto simp: kept_def used_areas_def)
qed

lemma survive_grow:
  "survive as (as @ bs)" "survive (pre @ [(x, s, True)]) (pre @ [(x, s', True)])"
proof -
  show "survive as (as @ bs)" by (rule survive_subset) simp
  have "survive pre (pre @ [(x, s', True)])" by (rule survive_subset) auto
  then show "survive (pre @ [(x, s, True)]) (pre @ [(x, s', True)])"
    by (simp add: survive_append survive_Cons survive_subset)
qed

lemma alloc_result_trans:
  assumes "kept (kmem st) (kmem st1) (used_areas as)" "survive as bs" "alloc_result st1 bs n pa p st' cs"
  shows "alloc_result st as n pa p st' cs"
proof -
  have "kept (kmem st) (kmem st') (used_areas as)"
    using assms kept_survive[of "kmem st1" "kmem st'" bs as] kept_trans unfolding alloc_result_def by blast
  moreover have "survive as cs" using assms(2,3) survive_trans unfolding alloc_result_def by blast
  moreover have "p + n \<le> a \<or> a + s \<le> p" if "(a, s, False) \<in> set as" for a s
  proof -
    obtain s' where "s \<le> s'" "(a, s', False) \<in> set bs" using assms(2) \<open>(a, s, False) \<in> set as\<close> by (auto simp: survive_def)
    then have "p + n \<le> a \<or> a + s' \<le> p" using assms(3) unfolding alloc_result_def by blast
    then show ?thesis using \<open>s \<le> s'\<close> by linarith
  qed
  ultimately show ?thesis using assms(3) unfolding alloc_result_def by blast
qed

subsection \<open>Cutting the last area\<close>

definition page_up :: "nat \<Rightarrow> nat" where
  "page_up a = (if a mod 4096 = 0 then a else a - a mod 4096 + 4096)"

lemma page_up_props:
  "a \<le> page_up a" "page_up a < a + 4096" "page_up a mod 4096 = 0"
proof -
  have m: "a mod 4096 < 4096" "a mod 4096 \<le> a" by simp_all
  have "a \<le> page_up a \<and> page_up a < a + 4096"
  proof (cases "a mod 4096 = 0")
    case False
    then show ?thesis using m unfolding page_up_def if_not_P[OF False] by linarith
  qed (simp add: page_up_def)
  then show "a \<le> page_up a" "page_up a < a + 4096" by simp_all
  have "a - a mod 4096 + 4096 = 4096 * (a div 4096 + 1)"
    by (simp only: minus_mod_eq_mult_div add_mult_distrib2 mult_1_right)
  then have "(a - a mod 4096 + 4096) mod 4096 = 0" by (metis mod_mult_self1_is_0)
  then show "page_up a mod 4096 = 0" by (simp add: page_up_def)
qed

lemma cut_area_ok:
  assumes "area_ok m x s f" "20 < t" "t \<le> s" "x + s < W32"
  defines "m' \<equiv> write_footer x (set_hdr_size x t m)"
  shows "area_ok m' x t f" "i < x \<or> x + t \<le> i \<Longrightarrow> m' i = m i"
proof -
  obtain c where c: "x + t - 8 = c" "c + 8 = x + t" "x + 12 < c" using assms(2) by force
  have "FOOTER_FROM_HEADER (set_hdr_size x t m) x = c"
    using assms(3,4) c by (simp add: FOOTER_FROM_HEADER_def fields)
  then have e: "m' = set_ftr_header c x (set_ftr_magic c HEAP_MAGIC (set_hdr_size x t m))"
    by (simp add: m'_def write_footer_def Let_def)
  show "area_ok m' x t f" using assms(1-4) c unfolding area_ok_def c(1) e by (simp add: fields loads)
  show "i < x \<or> x + t \<le> i \<Longrightarrow> m' i = m i" using c unfolding e by (auto simp: fields loads)
qed

subsection \<open>The contract of the virtual memory manager\<close>

locale heap_paging =
  fixes ops :: "'v vm_ops" and vok :: "'v \<Rightarrow> bool" and mapped :: "'v \<Rightarrow> nat set" and frames :: "'v \<Rightarrow> nat"
  assumes map_law: "vok v \<Longrightarrow> lo mod 4096 = 0 \<Longrightarrow> hi mod 4096 = 0 \<Longrightarrow> KHEAP_START \<le> lo \<Longrightarrow> lo < hi \<Longrightarrow>
      hi \<le> KHEAP_MAX_ADDR + 4096 \<Longrightarrow> {lo div 4096..<hi div 4096} \<inter> mapped v = {} \<Longrightarrow>
      (hi - lo) div 4096 \<le> frames v \<Longrightarrow>
      \<exists>v'. vmo_alloc_kernel ops lo hi w (m, v) = Some (\<lambda>i. if lo \<le> i \<and> i < hi then 0 else m i, v') \<and> vok v' \<and>
        mapped v' = mapped v \<union> {lo div 4096..<hi div 4096} \<and> frames v = frames v' + (hi - lo) div 4096"
    and unmap_law: "vok v \<Longrightarrow> a mod 4096 = 0 \<Longrightarrow> a div 4096 \<in> mapped v \<Longrightarrow>
      KHEAP_START \<le> a \<Longrightarrow> a \<le> KHEAP_MAX_ADDR \<Longrightarrow>
      \<exists>m' v'. vmo_free ops a (m, v) = Some (m', v') \<and> (\<forall>i. i < a \<or> a + 4096 \<le> i \<longrightarrow> m' i = m i) \<and> vok v' \<and>
        mapped v' = mapped v - {a div 4096} \<and> frames v' = Suc (frames v)"
begin

text \<open>The pages of the heap are mapped up to and including the one at \<open>end_address\<close>, and none above.\<close>

definition hvm :: "'v kst \<Rightarrow> bool" where
  "hvm st \<longleftrightarrow> vok (vm st) \<and> KHEAP_START \<le> start_address (kheap st) \<and> end_address (kheap st) \<le> KHEAP_MAX_ADDR \<and>
     (\<forall>q. start_address (kheap st) div 4096 \<le> q \<and> q \<le> end_address (kheap st) div 4096 \<longrightarrow> q \<in> mapped (vm st)) \<and>
     (\<forall>q. end_address (kheap st) div 4096 < q \<and> q < KHEAP_MAX_ADDR div 4096 + 1 \<longrightarrow> q \<notin> mapped (vm st))"

lemma heap_grow_hvm:
  fixes st :: "'v kst"
  assumes inv: "heap_inv st as" and hv: "hvm st" and sz: "sz < 268435456"
    and mx: "end_address (kheap st) + expand_size sz \<le> max_address (kheap st)" "max_address (kheap st) \<le> KHEAP_MAX_ADDR"
    and fr: "expand_size sz div 4096 \<le> frames (vm st)" and room: "0 < oa_room (free_index (kheap st))"
  shows "\<exists>st' pre x s. heap_grow ops sz st = Some st' \<and> heap_inv st' (pre @ [(x, s, True)]) \<and> hvm st' \<and>
    ((as = pre \<and> \<not> snd (snd (last as)) \<and> s = expand_size sz) \<or> (\<exists>s0. as = pre @ [(x, s0, True)] \<and> s = s0 + expand_size sz)) \<and>
    end_address (kheap st') = end_address (kheap st) + expand_size sz \<and>
    max_address (kheap st') = max_address (kheap st) \<and> frames (vm st) = frames (vm st') + expand_size sz div 4096 \<and>
    leak st' = leak st \<and> used_index (kheap st') = used_index (kheap st) \<and>
    oa_room (free_index (kheap st)) \<le> Suc (oa_room (free_index (kheap st'))) \<and>
    kept (kmem st) (kmem st') as"
proof -
  let ?h = "kheap st" and ?g = "expand_size sz"
  let ?e = "end_address ?h"
  have g: "geom ?h" using inv by (simp add: heap_inv_def hinv_def)
  have e: "?e mod 4096 = 0" "?g mod 4096 = 0" "0 < ?g" "KHEAP_START \<le> ?e"
    using g hv expand_size_props[of sz] sz unfolding geom_def hvm_def by auto
  have q: "(?e + 4096) div 4096 = ?e div 4096 + 1" "(?e + ?g + 4096) div 4096 = ?e div 4096 + ?g div 4096 + 1"
    using e by (auto simp: div_add1_eq)
  have mxd: "?e div 4096 + ?g div 4096 \<le> KHEAP_MAX_ADDR div 4096"
    using div_le_mono[of "?e + ?g" KHEAP_MAX_ADDR 4096] mx e by (simp add: div_add1_eq)
  obtain v' where v': "vmo_alloc_kernel ops (?e + 4096) (?e + ?g + 4096) (\<not> readonly ?h) (kmem st, vm st) =
      Some (\<lambda>i. if ?e + 4096 \<le> i \<and> i < ?e + ?g + 4096 then 0 else kmem st i, v')" "vok v'"
    "mapped v' = mapped (vm st) \<union> {?e div 4096 + 1..<?e div 4096 + ?g div 4096 + 1}"
    "frames (vm st) = frames v' + ?g div 4096"
  proof -
    have "{(?e + 4096) div 4096..<(?e + ?g + 4096) div 4096} \<inter> mapped (vm st) = {}"
      using hv mxd unfolding hvm_def q by auto
    then show ?thesis using map_law[of "vm st" "?e + 4096" "?e + ?g + 4096" "\<not> readonly ?h" "kmem st"] hv e mx fr that
      unfolding hvm_def q by (auto simp: mod_add_eq[symmetric])
  qed
  have big: "?e + ?g - start_address ?h < 2147483648" using mx hv unfolding hvm_def by auto
  obtain st' pre x s where st': "heap_grow ops sz st = Some st'" "heap_inv st' (pre @ [(x, s, True)])"
    "(as = pre \<and> \<not> snd (snd (last as)) \<and> s = ?g) \<or> (\<exists>s0. as = pre @ [(x, s0, True)] \<and> s = s0 + ?g)"
    "end_address (kheap st') = ?e + ?g" "start_address (kheap st') = start_address ?h"
    "max_address (kheap st') = max_address ?h" "vm st' = v'" "leak st' = leak st"
    "used_index (kheap st') = used_index ?h" "oa_room (free_index ?h) \<le> Suc (oa_room (free_index (kheap st')))"
    "kept (kmem st) (kmem st') as"
    using heap_grow_ok[OF inv _ mx(1) _ big room v'(1)] sz mx(2) by auto
  have "(?e + ?g) div 4096 = ?e div 4096 + ?g div 4096" using e by (simp add: div_add1_eq)
  then have "hvm st'" using hv v'(2,3) st'(4,5,7) mx mxd unfolding hvm_def by auto
  then show ?thesis using st' v'(4) by auto
qed

lemma heap_alloc_retry:
  "find_smallest_hole (request_size n pa) pa st = Some 0 \<Longrightarrow> n < 1073741824 \<Longrightarrow>
   heap_grow ops (request_size n pa) st = Some st' \<Longrightarrow>
   heap_alloc ops n pa st = heap_alloc ops (request_size n pa) pa st'"
  by (subst heap_alloc.simps) (simp add: Let_def request_size_eq)

text \<open>The number of bytes by which a request may make the heap grow: the retry adds the overhead of
  an area to the size a second time, which can make the first growth just too small.\<close>

definition max_growth :: "nat \<Rightarrow> bool \<Rightarrow> nat" where
  "max_growth n pa = expand_size (request_size n pa) + expand_size (request_size (request_size n pa) pa)"

lemma heap_alloc_total:
  fixes st :: "'v kst"
  assumes inv: "heap_inv st as" and hv: "hvm st" and n: "0 < n" "n < 134217728"
    and mx: "end_address (kheap st) + max_growth n pa \<le> max_address (kheap st)" "max_address (kheap st) \<le> KHEAP_MAX_ADDR"
    and fr: "max_growth n pa div 4096 \<le> frames (vm st)"
    and room: "2 < oa_room (free_index (kheap st))" "0 < oa_room (used_index (kheap st))" "trace_room st"
  shows "\<exists>p st' as'. heap_alloc ops n pa st = Some (p, st') \<and> alloc_result st as n pa p st' as'"
proof (rule find_smallest_hole_cases[OF inv, of "request_size n pa" pa])
  fix x s pre post
  assume "find_smallest_hole (request_size n pa) pa st = Some x" "as = pre @ (x, s, True) # post"
    "request_size n pa \<le> s" "pa \<longrightarrow> page_offset x + request_size n pa \<le> s"
  then show ?thesis using heap_alloc_hole[OF inv n(1) _ n(1), of x s pa ops] n(2) room by auto
next
  let ?n1 = "request_size n pa"
  let ?n2 = "request_size ?n1 pa"
  let ?g1 = "expand_size ?n1" and ?g2 = "expand_size ?n2"
  assume none: "find_smallest_hole ?n1 pa st = Some 0"
  have sz: "?n1 < 268435456" "?n2 < 268435456" "0 < ?n1" "0 < ?n2" "?n2 \<le> ?n1 + 23" "n \<le> ?n1" "n \<le> ?n2"
    using n by (auto simp: request_size_def)
  have g: "?g1 + ?g2 = max_growth n pa" "?n2 \<le> ?g2" "32768 \<le> ?g1" "?g1 mod 4096 = 0"
    using expand_size_props[of ?n1] expand_size_props[of ?n2] sz by (auto simp: max_growth_def)
  have gd: "?g1 div 4096 + ?g2 div 4096 = max_growth n pa div 4096" using g(1,4) by (metis add_0 div_add1_eq div_0 mod_mod_trivial mod_less add.right_neutral div_plus_div_distrib_dvd_left mod_0_imp_dvd)
  obtain st1 pre1 x1 s1 where st1: "heap_grow ops ?n1 st = Some st1" "heap_inv st1 (pre1 @ [(x1, s1, True)])" "hvm st1"
    "(as = pre1 \<and> \<not> snd (snd (last as)) \<and> s1 = ?g1) \<or> (\<exists>s0. as = pre1 @ [(x1, s0, True)] \<and> s1 = s0 + ?g1)"
    "end_address (kheap st1) = end_address (kheap st) + ?g1" "max_address (kheap st1) = max_address (kheap st)"
    "frames (vm st) = frames (vm st1) + ?g1 div 4096" "leak st1 = leak st" "used_index (kheap st1) = used_index (kheap st)"
    "oa_room (free_index (kheap st)) \<le> Suc (oa_room (free_index (kheap st1)))" "kept (kmem st) (kmem st1) as"
    using heap_grow_hvm[OF inv hv sz(1)] mx fr room g(1) gd by auto
  let ?as1 = "pre1 @ [(x1, s1, True)]"
  have sv1: "survive as ?as1" "32768 \<le> s1"
    using st1(4) g(3) survive_grow by auto
  have eq1: "heap_alloc ops n pa st = heap_alloc ops ?n1 pa st1"
    using heap_alloc_retry[OF none _ st1(1)] n(2) by simp
  have room1: "1 < oa_room (free_index (kheap st1))" "0 < oa_room (used_index (kheap st1))" "trace_room st1"
    using st1(8-10) room by (auto simp: trace_room_def)
  show ?thesis
  proof (rule find_smallest_hole_cases[OF st1(2), of ?n2 pa])
    fix x s pre post
    assume some: "find_smallest_hole ?n2 pa st1 = Some x" "?as1 = pre @ (x, s, True) # post"
      "?n2 \<le> s" "pa \<longrightarrow> page_offset x + ?n2 \<le> s"
    then have "(x, s, True) \<in> set ?as1" by simp
    then obtain p st' as' where "heap_alloc ops ?n1 pa st1 = Some (p, st')" "alloc_result st1 ?as1 n pa p st' as'"
      using heap_alloc_hole[OF st1(2) sz(3) _ n(1) sz(6), of x s pa ops] some(3,4) sz room1 by auto
    then show ?thesis using eq1 alloc_result_trans[OF kept_used[OF st1(11)] sv1(1)] by metis
  next
    assume none1: "find_smallest_hole ?n2 pa st1 = Some 0"
    obtain st2 pre2 x2 s2 where st2: "heap_grow ops ?n2 st1 = Some st2" "heap_inv st2 (pre2 @ [(x2, s2, True)])"
      "\<exists>s0. ?as1 = pre2 @ [(x2, s0, True)] \<and> s2 = s0 + ?g2" "leak st2 = leak st1"
      "used_index (kheap st2) = used_index (kheap st1)"
      "oa_room (free_index (kheap st1)) \<le> Suc (oa_room (free_index (kheap st2)))" "kept (kmem st1) (kmem st2) ?as1"
      using heap_grow_hvm[OF st1(2,3) sz(2)] mx fr room1 g(1) gd st1(5-7) by auto
    let ?as2 = "pre2 @ [(x2, s2, True)]"
    have s2: "s2 = s1 + ?g2" and sv2: "survive ?as1 ?as2"
      using st2(3) survive_grow by auto
    have fit: "request_size ?n2 pa \<le> s2" "pa \<longrightarrow> page_offset x2 + request_size ?n2 pa \<le> s2"
      using s2 sv1(2) g(2) page_offset_less[of x2] by (auto simp: request_size_def)
    have eq2: "heap_alloc ops ?n1 pa st1 = heap_alloc ops ?n2 pa st2"
      using heap_alloc_retry[OF none1 _ st2(1)] sz by simp
    have room2: "0 < oa_room (free_index (kheap st2))" "0 < oa_room (used_index (kheap st2))" "trace_room st2"
      using st2(4-6) room1 by (auto simp: trace_room_def)
    obtain p st' as' where "heap_alloc ops ?n2 pa st2 = Some (p, st')" "alloc_result st2 ?as2 n pa p st' as'"
      using heap_alloc_hole[OF st2(2) sz(4) _ n(1) sz(7) _ fit room2, of ops] sz by auto
    then show ?thesis
      using eq1 eq2 alloc_result_trans[OF kept_used[OF st1(11)] sv1(1)] alloc_result_trans[OF kept_used[OF st2(7)] sv2] by metis
  qed
qed

lemma free_pages_ok:
  assumes "vok v" "ne mod 4096 = 0" "KHEAP_START \<le> ne" "ne + 4096 * k \<le> KHEAP_MAX_ADDR"
    "\<forall>q. ne div 4096 < q \<and> q \<le> ne div 4096 + k \<longrightarrow> q \<in> mapped v"
  shows "\<exists>m' v'. free_pages ops (ne + 4096 * k) ne (m, v) = Some (m', v') \<and> (\<forall>i < ne + 4096. m' i = m i) \<and>
    vok v' \<and> mapped v' = mapped v - {ne div 4096 + 1..ne div 4096 + k} \<and> frames v' = frames v + k"
  using assms
proof (induction k arbitrary: m v)
  case 0
  then show ?case by (subst free_pages.simps) simp
next
  case (Suc k)
  let ?a = "ne + 4096 * Suc k"
  have "?a mod 4096 = ne mod 4096" by (rule mod_mult_self2)
  then have al: "?a mod 4096 = 0" "?a div 4096 = ne div 4096 + Suc k"
    using Suc.prems(2) div_mult_self2[of 4096 ne "Suc k"] by auto
  have q: "?a div 4096 \<in> mapped v" unfolding al(2) using Suc.prems(5) by simp
  have lim: "KHEAP_START \<le> ?a" "?a \<le> KHEAP_MAX_ADDR" using Suc.prems(3,4) by simp_all
  obtain m1 v1 where v1: "vmo_free ops ?a (m, v) = Some (m1, v1)" "\<forall>i. i < ?a \<or> ?a + 4096 \<le> i \<longrightarrow> m1 i = m i"
    "vok v1" "mapped v1 = mapped v - {ne div 4096 + Suc k}" "frames v1 = Suc (frames v)"
    using unmap_law[OF Suc.prems(1) al(1) q lim, of m] unfolding al(2) by blast
  have map1: "\<forall>q. ne div 4096 < q \<and> q \<le> ne div 4096 + k \<longrightarrow> q \<in> mapped v1"
    unfolding v1(4) using Suc.prems(5) by simp
  have lim1: "ne + 4096 * k \<le> KHEAP_MAX_ADDR" using Suc.prems(4) by simp
  obtain m' v' where m': "free_pages ops (ne + 4096 * k) ne (m1, v1) = Some (m', v')" "\<forall>i < ne + 4096. m' i = m1 i"
    "vok v'" "mapped v' = mapped v1 - {ne div 4096 + 1..ne div 4096 + k}" "frames v' = frames v1 + k"
    using Suc.IH[OF v1(3) Suc.prems(2,3) lim1 map1, of m1] by blast
  have "sub32 ?a 4096 = ne + 4096 * k" "ne < ?a" using Suc.prems(4) by simp_all
  then have "free_pages ops ?a ne (m, v) = Some (m', v')" using v1(1) m'(1) by (subst free_pages.simps) simp
  moreover have "mapped v' = mapped v - {ne div 4096 + 1..ne div 4096 + Suc k}" unfolding m'(4) v1(4) by auto
  moreover have "\<forall>i < ne + 4096. m' i = m i" using m'(2) v1(2) by simp
  moreover have "frames v' = frames v + Suc k" using m'(5) v1(5) by simp
  ultimately show ?case using m'(3) by blast
qed

lemma heap_contract_ok:
  fixes st :: "'v kst"
  assumes inv: "heap_inv st (pre @ [(x, s, True)])" and hv: "hvm st" and s: "1572864 \<le> s"
  defines "ne \<equiv> page_up (x + 1048576)"
  shows "\<exists>m' v'. heap_contract ops (s - 1048576) st =
      Some (st\<lparr> kmem := m', vm := v', kheap := (kheap st)\<lparr> end_address := ne \<rparr> \<rparr>) \<and> (\<forall>i < ne + 4096. m' i = kmem st i) \<and>
    hvm (st\<lparr> kmem := m', vm := v', kheap := (kheap st)\<lparr> end_address := ne \<rparr> \<rparr>) \<and> ne < end_address (kheap st)"
proof -
  have inv0: "hinv st (pre @ [(x, s, True)]) {#}" using inv by (simp add: heap_inv_def)
  have xs: "x + s = end_address (kheap st)" "start_address (kheap st) \<le> x" "geom (kheap st)"
    using hinv_bounds[of st pre x s True "[]"] inv0 by (auto simp: hinv_def)
  note pu = page_up_props[of "x + 1048576", folded ne_def]
  have ne: "ne mod 4096 = 0" "x + 1048576 \<le> ne" "ne < x + 1048576 + 4096" "ne < end_address (kheap st)"
    "end_address (kheap st) < W32" "end_address (kheap st) mod 4096 = 0"
    using pu xs s unfolding geom_def by auto
  have sizes: "sub32 (end_address (kheap st)) (start_address (kheap st)) = end_address (kheap st) - start_address (kheap st)"
    "sub32 (end_address (kheap st) - start_address (kheap st)) (s - 1048576) = x + 1048576 - start_address (kheap st)"
    "add32 (start_address (kheap st)) (x + 1048576 - start_address (kheap st)) = x + 1048576"
    "\<not> x + 1048576 - start_address (kheap st) < KHEAP_INITIAL_SIZE"
    using xs s ne by auto
  have up: "(if IS_PAGE_ALIGNED (x + 1048576) then x + 1048576
      else add32 (x + 1048576 - (x + 1048576) mod 4096) 4096) = ne"
    using ne(2,5) xs(1) s by (auto simp: ne_def page_up_def IS_PAGE_ALIGNED_def)
  have used: "foreach (\<lambda>i u. do { h \<leftarrow> lookup_ordered_array i (used_index (kheap st));
      assertK (\<not> add32 h (hdr_size (kmem st) h) > ne) }) [0..<oa_size (used_index (kheap st))] () = Some ()"
  proof (rule oa.foreach_get)
    show "oa_usable (used_index (kheap st))" using inv0 by (simp add: hinv_def indexed_def)
    fix h u assume "h \<in> set (oa_contents (used_index (kheap st)))"
    then obtain t where t: "(h, t, False) \<in> set (pre @ [(x, s, True)])"
      using inv0 indexed_set(2)[of "kheap st" "pre @ [(x, s, True)]"] set_addrs(2) unfolding hinv_def by blast
    have "h + t \<le> x" using tiles_member[OF hinv_bounds(6)[OF inv0], of h t False] t by simp
    moreover have "hdr_size (kmem st) h = t" using heap_inv_areas[OF inv t] by (simp add: area_ok_def)
    ultimately show "assertK (\<not> add32 h (hdr_size (kmem st) h) > ne) = Some ()" using ne xs by simp
  qed
  define k where "k = (end_address (kheap st) - ne) div 4096"
  have k: "ne + 4096 * k = end_address (kheap st)" "end_address (kheap st) div 4096 = ne div 4096 + k"
    "start_address (kheap st) div 4096 \<le> ne div 4096"
  proof -
    have "4096 dvd end_address (kheap st) - ne" using ne(1,6) by (simp add: dvd_diff_nat mod_eq_0_iff_dvd)
    then show e: "ne + 4096 * k = end_address (kheap st)" using ne(4) unfolding k_def by simp
    show "end_address (kheap st) div 4096 = ne div 4096 + k" unfolding e[symmetric] by simp
    show "start_address (kheap st) div 4096 \<le> ne div 4096" using xs(2) ne(2) by (intro div_le_mono) simp
  qed
  have hv': "vok (vm st)" "KHEAP_START \<le> ne" "ne + 4096 * k \<le> KHEAP_MAX_ADDR"
    "\<forall>q. ne div 4096 < q \<and> q \<le> ne div 4096 + k \<longrightarrow> q \<in> mapped (vm st)"
  proof -
    show "vok (vm st)" "KHEAP_START \<le> ne" "ne + 4096 * k \<le> KHEAP_MAX_ADDR"
      using hv xs(2) ne(2) unfolding k(1) hvm_def by auto
    show "\<forall>q. ne div 4096 < q \<and> q \<le> ne div 4096 + k \<longrightarrow> q \<in> mapped (vm st)"
      using hv k(2,3) unfolding hvm_def by auto
  qed
  obtain m' v' where f: "free_pages ops (end_address (kheap st)) ne (kmem st, vm st) = Some (m', v')"
    "\<forall>i < ne + 4096. m' i = kmem st i" "vok v'" "mapped v' = mapped (vm st) - {ne div 4096 + 1..ne div 4096 + k}"
    using free_pages_ok[OF hv'(1) ne(1) hv'(2-4), of "kmem st"] k(1) by auto
  have "heap_contract ops (s - 1048576) st =
      Some (st\<lparr> kmem := m', vm := v', kheap := (kheap st)\<lparr> end_address := ne \<rparr> \<rparr>)"
  proof -
    have "\<not> s - 1048576 < 512 * 1024" "IS_PAGE_ALIGNED ne" using s ne(1) by (auto simp: IS_PAGE_ALIGNED_def)
    then show ?thesis unfolding heap_contract_def Let_def sizes(1-2) if_not_P[OF sizes(4)] sizes(3) up used f(1)
      by simp
  qed
  moreover have "hvm (st\<lparr> kmem := m', vm := v', kheap := (kheap st)\<lparr> end_address := ne \<rparr> \<rparr>)"
  proof -
    have "ne \<le> KHEAP_MAX_ADDR" using hv ne(4) unfolding hvm_def by auto
    moreover have "\<forall>q. start_address (kheap st) div 4096 \<le> q \<and> q \<le> ne div 4096 \<longrightarrow> q \<in> mapped v'"
      using hv k(2) f(4) unfolding hvm_def by auto
    moreover have "\<forall>q. ne div 4096 < q \<and> q < KHEAP_MAX_ADDR div 4096 + 1 \<longrightarrow> q \<notin> mapped v'"
    proof (intro allI impI)
      fix q assume "ne div 4096 < q \<and> q < KHEAP_MAX_ADDR div 4096 + 1"
      then show "q \<notin> mapped v'" using hv k(2) f(4) unfolding hvm_def by (cases "q \<le> ne div 4096 + k") auto
    qed
    ultimately show ?thesis using hv f(3) unfolding hvm_def by simp
  qed
  ultimately show ?thesis using f(2) ne(4) by blast
qed

end

end
