(* ===== verification/Heap_Props.thy ===== *)
theory Heap_Props
  imports Heap_Vm
begin

text \<open>
  The properties of the kernel heap that its callers see, and a small concrete heap on which their
  hypotheses are checked.
\<close>

subsection \<open>A concrete heap\<close>

text \<open>The heap as \<open>init_paging\<close> creates it has one free area of 64 kB; in \<open>heap_used\<close> the first
  hundred bytes of it are in use.\<close>

definition kheap_of :: "nat list \<Rightarrow> nat list \<Rightarrow> nat \<Rightarrow> heap_t" where
  "kheap_of fr us r = \<lparr> start_address = 3221749760, end_address = 3221815296, min_address = KHEAP_START,
     max_address = KHEAP_MAX_ADDR, supervisor = True, readonly = False,
     free_index = \<lparr> oa_array = fr @ replicate (8 - length fr) 0, oa_size = length fr, oa_max_size = 8,
       oa_less_than = Some area_header_t_less_than \<rparr>,
     used_index = \<lparr> oa_array = us @ replicate (8 - length us) 0, oa_size = length us, oa_max_size = 8,
       oa_less_than = Some area_header_t_less_than \<rparr>,
     rightmost_area = r \<rparr>"

definition kst_of :: "mem \<Rightarrow> heap_t \<Rightarrow> unit kst" where
  "kst_of m h = \<lparr> kmem = m, kheap = h, kheap_set = True, placement_address = 2097152, leak = None,
     task_id = 1, task_name = ''kernel'', vm = () \<rparr>"

definition heap_fresh :: "unit kst" where
  "heap_fresh = kst_of (write_area 3221749760 65536 AREA_FREE (\<lambda>_. 0)) (kheap_of [3221749760] [] 3221749760)"

definition heap_used :: "unit kst" where
  "heap_used = kst_of (write_area 3221749860 65436 AREA_FREE (write_area 3221749760 100 AREA_USED (\<lambda>_. 0)))
     (kheap_of [3221749860] [3221749760] 3221749860)"

definition no_vm :: "unit vm_ops" where
  "no_vm = \<lparr> vmo_alloc_kernel = \<lambda>lo hi w mv. None, vmo_free = \<lambda>a mv. None, vmo_get_phys = \<lambda>a v. None \<rparr>"

lemmas concrete_heap = kheap_of_def kst_of_def heap_fresh_def heap_used_def trace_room_def untraceable_def
  oa_room_def request_size_def page_offset_def IS_PAGE_ALIGNED_def

lemma heap_fresh_inv: "heap_inv heap_fresh [(3221749760, 65536, True)]"
  by (simp add: heap_inv_def hinv_def geom_def indexed_def concrete_heap oa_usable_def oa_ok_def oa_contents_def
      write_area_ok hdr_magic_def ld32_def ld8_def write_area_apply)

lemma heap_used_inv: "heap_inv heap_used [(3221749760, 100, False), (3221749860, 65436, True)]"
proof -
  let ?m = "write_area 3221749760 100 AREA_USED (\<lambda>_. 0)"
  have "area_ok (write_area 3221749860 65436 AREA_FREE ?m) 3221749760 100 False"
    using area_ok_cong[of 3221749760 100 ?m "write_area 3221749860 65436 AREA_FREE ?m" False]
    by (simp add: write_area_ok write_area_apply)
  then show ?thesis
    by (simp add: heap_inv_def hinv_def geom_def indexed_def concrete_heap oa_usable_def oa_ok_def oa_contents_def
        write_area_ok hdr_magic_def ld32_def ld8_def write_area_apply)
qed

subsection \<open>Allocation\<close>

text \<open>C1.  In a well-formed heap that has a free area big enough for the request (with room for the
  alignment when a page-aligned block is asked for), \<open>heap_alloc\<close> returns: the result is a block of
  the requested size inside a used area of the new heap, 4-byte aligned (page aligned on request),
  disjoint from every area that was in use; the new heap is well formed again, all blocks handed out
  before are still there, and their bytes are unchanged.\<close>

theorem heap_alloc_block:
  assumes "heap_inv st as" "0 < n" "n < 1073741824" "(x, s, True) \<in> set as" "request_size n pa \<le> s"
    "pa \<longrightarrow> page_offset x + request_size n pa \<le> s"
    "0 < oa_room (free_index (kheap st))" "0 < oa_room (used_index (kheap st))" "trace_room st"
  shows "\<exists>p st' as'. heap_alloc ops n pa st = Some (p, st') \<and> heap_inv st' as' \<and> block as' p n \<and> p mod 4 = 0 \<and>
    (pa \<longrightarrow> p mod 4096 = 0) \<and> survive as as' \<and> kept (kmem st) (kmem st') (used_areas as) \<and>
    (\<forall>a s. (a, s, False) \<in> set as \<longrightarrow> p + n \<le> a \<or> a + s \<le> p)"
  using heap_alloc_hole[OF assms(1,2,3,2) le_refl assms(4-9), of ops] unfolding alloc_result_def
  by (elim exE conjE) (intro exI conjI; assumption)

theorem heap_alloc_block_witness:
  "\<exists>p st' as'. heap_alloc no_vm 5000 True heap_used = Some (p, st') \<and> heap_inv st' as' \<and> block as' p 5000 \<and> p mod 4 = 0 \<and>
    (True \<longrightarrow> p mod 4096 = 0) \<and> survive [(3221749760, 100, False), (3221749860, 65436, True)] as' \<and>
    kept (kmem heap_used) (kmem st') (used_areas [(3221749760, 100, False), (3221749860, 65436, True)]) \<and>
    (\<forall>a s. (a, s, False) \<in> set [(3221749760, 100, False), (3221749860, 65436, True)] \<longrightarrow> p + 5000 \<le> a \<or> a + s \<le> p)"
  by (rule heap_alloc_block[OF heap_used_inv, of 5000 3221749860 65436]) (simp_all add: concrete_heap)

end
