(* ===== verification/Vmm.thy ===== *)
theory Vmm
  imports Pmm Heap_Props
begin

text \<open>
  The virtual memory manager of \<open>src/kernel/vmm.c\<close>, first part: page tables and the mapping of kernel
  pages.  Page directories and page tables are kept in stores indexed by their address (0 is \<open>NULL\<close>).
  \<open>kmem\<close> of the heap model is the kernel's virtual memory; mapping a kernel page makes the contents of
  its frame visible there.

  The functions of this part run while the heap is being expanded.  \<open>_vmm_get_page\<close> would then create a
  missing page table with \<open>kmalloc_ap\<close>, on a heap that is full; \<open>init_paging\<close> creates all tables of the
  heap's range at boot to rule this out, and here a missing table is a call that does not return.
\<close>

subsection \<open>Data\<close>

record page_t =
  present :: bool
  rw :: bool
  user :: bool
  pwt :: bool
  pcd :: bool
  accessed :: bool
  dirty :: bool
  pat :: bool
  global :: bool
  guard :: bool
  avail :: nat
  frame :: nat

definition page_zero :: page_t where
  "page_zero = \<lparr> present = False, rw = False, user = False, pwt = False, pcd = False, accessed = False, dirty = False,
     pat = False, global = False, guard = False, avail = 0, frame = 0 \<rparr>"

record page_directory_t =
  tables_physical :: "nat \<Rightarrow> nat"
  tables :: "nat \<Rightarrow> nat"
  physical_address :: nat

record vmm_t =
  pmm :: pmm_t
  ptab :: "nat \<Rightarrow> nat \<Rightarrow> page_t"
  dirs :: "nat \<Rightarrow> page_directory_t"
  kernel_directory :: nat
  current_directory :: nat
  pagedirs :: "nat list"

definition IS_USER_SPACE :: "nat \<Rightarrow> bool" where
  "IS_USER_SPACE addr \<longleftrightarrow> addr \<ge> 268435456 \<and> addr < 3221225472"

definition IS_KERNEL_SPACE :: "nat \<Rightarrow> bool" where
  "IS_KERNEL_SPACE addr \<longleftrightarrow> \<not> IS_USER_SPACE addr"

subsection \<open>Page table entries\<close>

definition page_at :: "nat \<Rightarrow> nat \<Rightarrow> vmm_t \<Rightarrow> page_t option" where
  "page_at virt dir v = do {
     assertK (dir \<noteq> 0);
     let table = tables (dirs v dir) (virt div 4096 div 1024);
     assertK (table \<noteq> 0);
     Some (ptab v table (virt div 4096 mod 1024)) }"

definition set_page :: "nat \<Rightarrow> nat \<Rightarrow> page_t \<Rightarrow> vmm_t \<Rightarrow> vmm_t" where
  "set_page virt dir p v = (let table = tables (dirs v dir) (virt div 4096 div 1024) in
     v\<lparr> ptab := (ptab v)(table := (ptab v table)(virt div 4096 mod 1024 := p)) \<rparr>)"

definition vmm_map :: "nat \<Rightarrow> nat \<Rightarrow> nat \<Rightarrow> bool \<Rightarrow> bool \<Rightarrow> vmm_t \<Rightarrow> vmm_t option" where
  "vmm_map virt physical dir kernelmode writable v = do {
     page \<leftarrow> page_at virt dir v;
     assertK (page = page_zero);
     let page1 = page\<lparr> frame := physical div PAGE_SIZE, user := \<not> kernelmode, rw := writable, present := True \<rparr>;
     let page2 = (if IS_KERNEL_SPACE virt then page1\<lparr> global := True \<rparr> else page1);
     Some (set_page virt dir page2 v) }"

text \<open>A page that becomes mapped in the kernel shows the contents of its frame.\<close>

definition show_frame :: "nat \<Rightarrow> nat \<Rightarrow> mem \<Rightarrow> mem \<Rightarrow> mem" where
  "show_frame virt physical pm m = (\<lambda>i. if i div PAGE_SIZE = virt div PAGE_SIZE
     then pm (physical div PAGE_SIZE * PAGE_SIZE + i mod PAGE_SIZE) else m i)"

definition vmm_map_kernel :: "nat \<Rightarrow> nat \<Rightarrow> bool \<Rightarrow> mem \<times> vmm_t \<Rightarrow> (mem \<times> vmm_t) option" where
  "vmm_map_kernel virt physical writable mv = do {
     v' \<leftarrow> vmm_map virt physical (kernel_directory (snd mv)) True writable (snd mv);
     Some (show_frame virt physical (pmem (pmm (snd mv))) (fst mv), v') }"

definition vmm_unmap :: "nat \<Rightarrow> nat \<Rightarrow> vmm_t \<Rightarrow> vmm_t option" where
  "vmm_unmap virt dir v = do {
     page \<leftarrow> page_at virt dir v;
     assertK (present page \<or> guard page);
     Some (set_page virt dir page_zero v) }"

definition vmm_get_phys :: "nat \<Rightarrow> nat \<Rightarrow> vmm_t \<Rightarrow> nat option" where
  "vmm_get_phys virt dir v = do {
     page \<leftarrow> page_at virt dir v;
     Some (frame page * PAGE_SIZE + virt mod PAGE_SIZE) }"

definition vmm_free :: "nat \<Rightarrow> nat \<Rightarrow> vmm_t \<Rightarrow> vmm_t option" where
  "vmm_free virt dir v = do {
     phys \<leftarrow> vmm_get_phys virt dir v;
     p' \<leftarrow> pmm_free phys (pmm v);
     vmm_unmap virt dir (v\<lparr> pmm := p' \<rparr>) }"

definition vmm_set_guard_bit :: "nat \<Rightarrow> nat \<Rightarrow> bool \<Rightarrow> vmm_t \<Rightarrow> vmm_t option" where
  "vmm_set_guard_bit virt dir g v = do {
     page \<leftarrow> page_at virt dir v;
     assertK (present page = g);
     assertK (guard page = (\<not> g));
     Some (set_page virt dir (page\<lparr> present := \<not> g, guard := g \<rparr>) v) }"

definition vmm_set_guard :: "nat \<Rightarrow> nat \<Rightarrow> vmm_t \<Rightarrow> vmm_t option" where
  "vmm_set_guard virt dir v = vmm_set_guard_bit virt dir True v"

definition vmm_clear_guard :: "nat \<Rightarrow> nat \<Rightarrow> vmm_t \<Rightarrow> vmm_t option" where
  "vmm_clear_guard virt dir v = vmm_set_guard_bit virt dir False v"

subsection \<open>Kernel allocations\<close>

text \<open>The loops run over the page-aligned addresses from \<open>start_virtual\<close> up to \<open>end_virtual\<close>; the first
  physical address is returned.\<close>

definition map_fresh :: "bool \<Rightarrow> nat \<Rightarrow> nat \<times> mem \<times> vmm_t \<Rightarrow> (nat \<times> mem \<times> vmm_t) option" where
  "map_fresh writable addr s = (case s of (ret, m, v) \<Rightarrow> do {
     (phys, p') \<leftarrow> pmm_alloc (pmm v);
     (m', v') \<leftarrow> vmm_map_kernel addr phys writable (m, v\<lparr> pmm := p' \<rparr>);
     Some (if ret = 0 then phys else ret, m', v') })"

definition vmm_alloc_kernel :: "nat \<Rightarrow> nat \<Rightarrow> bool \<Rightarrow> bool \<Rightarrow> mem \<times> vmm_t \<Rightarrow> (nat \<times> mem \<times> vmm_t) option" where
  "vmm_alloc_kernel start_virtual end_virtual continuous_physical writable mv = do {
     assertK (end_virtual > start_virtual);
     assertK (start_virtual mod PAGE_SIZE = 0);
     assertK (end_virtual mod PAGE_SIZE = 0);
     if continuous_physical then do {
       (ret, p') \<leftarrow> pmm_alloc_continuous ((end_virtual - start_virtual) div PAGE_SIZE) (pmm (snd mv));
       mv' \<leftarrow> foreach (\<lambda>addr mv. vmm_map_kernel addr (add32 ret (addr - start_virtual)) writable mv)
                (pages start_virtual end_virtual) (fst mv, (snd mv)\<lparr> pmm := p' \<rparr>);
       Some (ret, mv') }
     else foreach (map_fresh writable) (pages start_virtual end_virtual) (0, mv) }"

text \<open>The operations as the heap calls them: \<open>heap_expand\<close> and \<open>heap_create\<close> use \<open>PAGE_ANY_PHYS\<close>,
  \<open>heap_contract\<close> frees in the kernel's directory.\<close>

definition vmm_ops :: "vmm_t vm_ops" where
  "vmm_ops = \<lparr> vmo_alloc_kernel = \<lambda>lo hi w mv. map_option snd (vmm_alloc_kernel lo hi False w mv),
     vmo_free = \<lambda>a mv. map_option (\<lambda>v. (fst mv, v)) (vmm_free a (kernel_directory (snd mv)) (snd mv)),
     vmo_get_phys = \<lambda>a v. vmm_get_phys a (current_directory v) v \<rparr>"

subsection \<open>The kernel heap's pages\<close>

definition kpage :: "vmm_t \<Rightarrow> nat \<Rightarrow> page_t" where
  "kpage v q = ptab v (tables (dirs v (kernel_directory v)) (q div 1024)) (q mod 1024)"

abbreviation (input) heap_pages :: "nat set" where "heap_pages \<equiv> {786432..<851968}"

definition kmapped :: "vmm_t \<Rightarrow> nat set" where
  "kmapped v = {q \<in> heap_pages. kpage v q \<noteq> page_zero}"

definition vmm_ok :: "vmm_t \<Rightarrow> bool" where
  "vmm_ok v \<longleftrightarrow> pmm_ok (pmm v) \<and> kernel_directory v \<noteq> 0 \<and>
     (\<forall>i \<in> {768..<832}. tables (dirs v (kernel_directory v)) i \<noteq> 0) \<and>
     inj_on (tables (dirs v (kernel_directory v))) {768..<832} \<and>
     (\<forall>q \<in> kmapped v. present (kpage v q) \<and> frame (kpage v q) < managed (pmm v) \<and>
        frame (kpage v q) \<notin> free_frames (pmm v)) \<and>
     inj_on (\<lambda>q. frame (kpage v q)) (kmapped v)"

definition kframes :: "vmm_t \<Rightarrow> nat" where
  "kframes v = card (free_frames (pmm v))"

lemma heap_page_table: "q \<in> heap_pages \<Longrightarrow> q div 1024 \<in> {768..<832}"
  by auto

lemma page_eq_iff: "q = r \<longleftrightarrow> q div 1024 = r div 1024 \<and> q mod 1024 = (r :: nat) mod 1024"
  by (metis div_mod_decomp)

lemma kpage_at:
  assumes "vmm_ok v" "a div 4096 \<in> heap_pages"
  shows "page_at a (kernel_directory v) v = Some (kpage v (a div 4096))"
  using assms heap_page_table[OF assms(2)] by (auto simp: page_at_def vmm_ok_def kpage_def)

lemma kpage_set:
  assumes "vmm_ok v" "a div 4096 \<in> heap_pages" "q \<in> heap_pages"
  shows "kpage (set_page a (kernel_directory v) p v) q = (if q = a div 4096 then p else kpage v q)"
proof -
  let ?t = "tables (dirs v (kernel_directory v))"
  have "?t (q div 1024) = ?t (a div 4096 div 1024) \<longleftrightarrow> q div 1024 = a div 4096 div 1024"
    using assms heap_page_table inj_on_eq_iff[of ?t "{768..<832}"] unfolding vmm_ok_def by metis
  then show ?thesis using page_eq_iff[of q "a div 4096"] by (auto simp: kpage_def set_page_def Let_def)
qed

lemma set_page_fields [simp]:
  "pmm (set_page a d p v) = pmm v" "dirs (set_page a d p v) = dirs v" "kernel_directory (set_page a d p v) = kernel_directory v"
  "current_directory (set_page a d p v) = current_directory v" "pagedirs (set_page a d p v) = pagedirs v"
  by (simp_all add: set_page_def Let_def)

lemma kpage_pmm [simp]: "kpage (v\<lparr> pmm := p \<rparr>) = kpage v" "kmapped (v\<lparr> pmm := p \<rparr>) = kmapped v"
  by (simp_all add: kpage_def kmapped_def fun_eq_iff)

lemma vmm_ok_tables:
  "vmm_ok v \<Longrightarrow> kernel_directory v' = kernel_directory v \<Longrightarrow> dirs v' = dirs v \<Longrightarrow> pmm_ok (pmm v') \<Longrightarrow>
   (\<And>q. q \<in> kmapped v' \<Longrightarrow> present (kpage v' q) \<and> frame (kpage v' q) < managed (pmm v') \<and> frame (kpage v' q) \<notin> free_frames (pmm v')) \<Longrightarrow>
   inj_on (\<lambda>q. frame (kpage v' q)) (kmapped v') \<Longrightarrow> vmm_ok v'"
  unfolding vmm_ok_def by (intro conjI ballI) simp_all

lemma vmm_okD:
  assumes "vmm_ok v" "q \<in> kmapped v"
  shows "present (kpage v q)" "frame (kpage v q) < managed (pmm v)" "frame (kpage v q) \<notin> free_frames (pmm v)" "q \<in> heap_pages"
  using assms by (auto simp: vmm_ok_def kmapped_def)

lemma vmm_ok_alloc:
  "vmm_ok v \<Longrightarrow> pmm_ok p' \<Longrightarrow> free_frames p' \<subseteq> free_frames (pmm v) \<Longrightarrow> managed p' = managed (pmm v) \<Longrightarrow> vmm_ok (v\<lparr> pmm := p' \<rparr>)"
  by (rule vmm_ok_tables[of v]) (auto dest: vmm_okD simp: vmm_ok_def)

lemma vmm_ok_map:
  assumes ok: "vmm_ok v" and a: "a div 4096 \<in> heap_pages" "a div 4096 \<notin> kmapped v"
    and p: "pmm_ok p'" "f \<in> free_frames (pmm v)" "free_frames p' = free_frames (pmm v) - {f}" "managed p' = managed (pmm v)"
    and g: "present pg" "frame pg = f"
  defines "v' \<equiv> set_page a (kernel_directory v) pg (v\<lparr> pmm := p' \<rparr>)"
  shows "vmm_ok v'" "kmapped v' = insert (a div 4096) (kmapped v)"
proof -
  have ok': "vmm_ok (v\<lparr> pmm := p' \<rparr>)" by (rule vmm_ok_alloc[OF ok p(1) _ p(4)]) (use p(3) in blast)
  have pz: "pg \<noteq> page_zero" using g(1) by (auto simp: page_zero_def)
  have kp: "kpage v' q = (if q = a div 4096 then pg else kpage v q)" if "q \<in> heap_pages" for q
    using kpage_set[OF ok' a(1) that, of pg] by (simp add: v'_def)
  show km: "kmapped v' = insert (a div 4096) (kmapped v)"
  proof (rule set_eqI)
    fix q show "q \<in> kmapped v' \<longleftrightarrow> q \<in> insert (a div 4096) (kmapped v)"
      using kp[of q] pz a(1) by (cases "q = a div 4096") (auto simp: kmapped_def)
  qed
  have f: "f < managed (pmm v)" using p(2) pmm.avail_law by blast
  have new: "frame (kpage v q) \<noteq> f" if "q \<in> kmapped v" for q using vmm_okD(3)[OF ok that] p(2) by blast
  have at: "kpage v' (a div 4096) = pg" using kp[OF a(1)] by simp
  have oth: "kpage v' q = kpage v q" if "q \<in> kmapped v" for q
    using kp[OF vmm_okD(4)[OF ok that]] that a(2) by auto
  show "vmm_ok v'"
  proof (rule vmm_ok_tables[OF ok])
    fix q assume "q \<in> kmapped v'"
    then consider "q = a div 4096" | "q \<in> kmapped v" unfolding km by blast
    then show "present (kpage v' q) \<and> frame (kpage v' q) < managed (pmm v') \<and> frame (kpage v' q) \<notin> free_frames (pmm v')"
    proof cases
      case 1
      then show ?thesis using at g f p(3,4) by (simp add: v'_def)
    next
      case 2
      then show ?thesis using oth[OF 2] vmm_okD[OF ok 2] p(3,4) by (simp add: v'_def)
    qed
  next
    have "inj_on (\<lambda>q. frame (kpage v q)) (kmapped v)" using ok by (simp add: vmm_ok_def)
    then have "inj_on (\<lambda>q. frame (kpage v' q)) (kmapped v)" using oth by (simp cong: inj_on_cong)
    moreover have "frame (kpage v' (a div 4096)) \<notin> (\<lambda>q. frame (kpage v' q)) ` kmapped v"
      unfolding at g(2) using new oth by auto
    ultimately show "inj_on (\<lambda>q. frame (kpage v' q)) (kmapped v')" unfolding km using a(2) by simp
  qed (simp_all add: v'_def p(1))
qed

lemma map_fresh_ok:
  assumes ok: "vmm_ok v" and a: "a mod 4096 = 0" "a div 4096 \<in> heap_pages" "a div 4096 \<notin> kmapped v" "0 < kframes v"
  shows "\<exists>ret' v'. map_fresh w a (ret, m, v) = Some (ret', \<lambda>i. if i div 4096 = a div 4096 then 0 else m i, v') \<and>
    vmm_ok v' \<and> kmapped v' = insert (a div 4096) (kmapped v) \<and> kframes v = Suc (kframes v')"
proof -
  have pok: "pmm_ok (pmm v)" "free_frames (pmm v) \<noteq> {}" using ok a(4) by (auto simp: vmm_ok_def kframes_def)
  obtain f p' where f: "pmm_alloc (pmm v) = Some (4096 * f, p')" "f \<in> free_frames (pmm v)" "pmm_ok p'"
    "free_frames p' = free_frames (pmm v) - {f}" "managed p' = managed (pmm v)"
    "pmem p' = zero_page_physical (4096 * f) (pmem (pmm v))"
    using pmm.alloc_law[OF pok] by blast
  let ?pg = "page_zero\<lparr> frame := f, user := False, rw := w, present := True, global := True \<rparr>"
  let ?v' = "set_page a (kernel_directory v) ?pg (v\<lparr> pmm := p' \<rparr>)"
  have ok': "vmm_ok (v\<lparr> pmm := p' \<rparr>)" using ok f unfolding vmm_ok_def by auto
  have kz: "kpage v (a div 4096) = page_zero" using a(2,3) by (simp add: kmapped_def)
  have ks: "IS_KERNEL_SPACE a" using a(2) by (auto simp: IS_KERNEL_SPACE_def IS_USER_SPACE_def)
  have "vmm_map a (4096 * f) (kernel_directory v) True w (v\<lparr> pmm := p' \<rparr>) = Some ?v'"
    using kpage_at[OF ok' a(2)] kz ks by (simp add: vmm_map_def Let_def)
  moreover have "show_frame a (4096 * f) (pmem p') m = (\<lambda>i. if i div 4096 = a div 4096 then 0 else m i)"
    unfolding f(6) by (auto simp: show_frame_def zero_page_physical_def fun_eq_iff)
  ultimately have "map_fresh w a (ret, m, v) = Some (if ret = 0 then 4096 * f else ret, \<lambda>i. if i div 4096 = a div 4096 then 0 else m i, ?v')"
    using f(1) by (simp add: map_fresh_def vmm_map_kernel_def)
  moreover have "vmm_ok ?v'" "kmapped ?v' = insert (a div 4096) (kmapped v)"
    using vmm_ok_map[OF ok a(2,3) f(3,2,4,5), of ?pg] by simp_all
  moreover have "kframes v = Suc (kframes ?v')" unfolding kframes_def using f(2,4)
    by (metis card_Suc_Diff1 pmm.avail_finite set_page_fields(1) vmm_t.select_convs(1) vmm_t.surjective vmm_t.update_convs(1))
  ultimately show ?thesis by blast
qed

lemma vmm_ok_unmap:
  assumes ok: "vmm_ok v" and a: "a div 4096 \<in> kmapped v"
    and p: "pmm_ok p'" "free_frames p' = insert (frame (kpage v (a div 4096))) (free_frames (pmm v))" "managed p' = managed (pmm v)"
  defines "v' \<equiv> set_page a (kernel_directory v) page_zero (v\<lparr> pmm := p' \<rparr>)"
  shows "vmm_ok v'" "kmapped v' = kmapped v - {a div 4096}"
proof -
  have ah: "a div 4096 \<in> heap_pages" using a by (simp add: kmapped_def)
  have kp: "kpage v' q = (if q = a div 4096 then page_zero else kpage v q)" if "q \<in> heap_pages" for q
  proof -
    have "kpage (set_page a (kernel_directory v) page_zero v) q = (if q = a div 4096 then page_zero else kpage v q)"
      by (rule kpage_set[OF ok ah that])
    then show ?thesis by (simp add: v'_def kpage_def set_page_def Let_def)
  qed
  show km: "kmapped v' = kmapped v - {a div 4096}" using kp unfolding kmapped_def by auto
  have same: "kpage v' q = kpage v q" if "q \<in> kmapped v'" for q using that kp[of q] unfolding km by (auto simp: kmapped_def)
  have inj: "inj_on (\<lambda>q. frame (kpage v q)) (kmapped v)" using ok by (simp add: vmm_ok_def)
  have other: "frame (kpage v q) \<noteq> frame (kpage v (a div 4096))" if "q \<in> kmapped v'" for q
    using inj_onD[OF inj, of q "a div 4096"] that a unfolding km by auto
  have "inj_on (\<lambda>q. frame (kpage v q)) (kmapped v')" using inj_on_subset[OF inj] unfolding km by blast
  then have "inj_on (\<lambda>q. frame (kpage v' q)) (kmapped v')" using same by (simp cong: inj_on_cong)
  moreover have "present (kpage v' q) \<and> frame (kpage v' q) < managed (pmm v') \<and> frame (kpage v' q) \<notin> free_frames (pmm v')"
    if "q \<in> kmapped v'" for q
  proof -
    have "present (kpage v q) \<and> frame (kpage v q) < managed (pmm v) \<and> frame (kpage v q) \<notin> free_frames (pmm v)"
      using ok that unfolding km vmm_ok_def by blast
    then show ?thesis using same[OF that] other[OF that] p by (simp add: v'_def)
  qed
  ultimately show "vmm_ok v'" using ok p(1) unfolding vmm_ok_def v'_def by auto
qed

lemma vmm_free_ok:
  assumes ok: "vmm_ok v" and a: "a mod 4096 = 0" "a div 4096 \<in> kmapped v"
  shows "\<exists>v'. vmm_free a (kernel_directory v) v = Some v' \<and> vmm_ok v' \<and> kmapped v' = kmapped v - {a div 4096} \<and>
    kframes v' = Suc (kframes v)"
proof -
  let ?f = "frame (kpage v (a div 4096))"
  have ah: "a div 4096 \<in> heap_pages" using a by (simp add: kmapped_def)
  have pg: "present (kpage v (a div 4096))" "?f < managed (pmm v)" "?f \<notin> free_frames (pmm v)"
    using ok a(2) by (auto simp: vmm_ok_def)
  obtain p' where p': "pmm_free (4096 * ?f) (pmm v) = Some p'" "pmm_ok p'" "free_frames p' = insert ?f (free_frames (pmm v))"
    "managed p' = managed (pmm v)" "card (free_frames p') = Suc (card (free_frames (pmm v)))"
    using pmm.release_card[of "pmm v" ?f] ok pg by (auto simp: vmm_ok_def)
  let ?v' = "set_page a (kernel_directory v) page_zero (v\<lparr> pmm := p' \<rparr>)"
  have "page_at a (kernel_directory v) (v\<lparr> pmm := p' \<rparr>) = Some (kpage v (a div 4096))"
    using kpage_at[OF ok ah] by (simp add: page_at_def)
  then have "vmm_free a (kernel_directory v) v = Some ?v'"
    using kpage_at[OF ok ah] p'(1) pg(1) a(1) by (simp add: vmm_free_def vmm_get_phys_def vmm_unmap_def mult.commute)
  moreover have "vmm_ok ?v'" "kmapped ?v' = kmapped v - {a div 4096}"
    using vmm_ok_unmap[OF ok a(2) p'(2-4)] by auto
  moreover have "kframes ?v' = Suc (kframes v)" using p'(5) by (simp add: kframes_def)
  ultimately show ?thesis by blast
qed

lemma page_range: "i div 4096 = (k :: nat) \<longleftrightarrow> 4096 * k \<le> i \<and> i < 4096 * k + 4096"
proof
  assume "i div 4096 = k"
  then show "4096 * k \<le> i \<and> i < 4096 * k + 4096"
    using times_div_less_eq_dividend[of 4096 i] dividend_less_times_div[of 4096 i] by simp
next
  assume "4096 * k \<le> i \<and> i < 4096 * k + 4096"
  then show "i div 4096 = k" by (intro div_nat_eqI) simp_all
qed

lemma map_pages_ok:
  assumes "vmm_ok v" "lo mod 4096 = 0" "\<forall>k < n. lo div 4096 + k \<in> heap_pages \<and> lo div 4096 + k \<notin> kmapped v" "n \<le> kframes v"
  shows "\<exists>ret' v'. foreach (map_fresh w) (map (\<lambda>k. lo + 4096 * k) [0..<n]) (ret, m, v) =
      Some (ret', \<lambda>i. if lo \<le> i \<and> i < lo + 4096 * n then 0 else m i, v') \<and>
    vmm_ok v' \<and> kmapped v' = kmapped v \<union> {lo div 4096..<lo div 4096 + n} \<and> kframes v = kframes v' + n"
  using assms
proof (induction n)
  case (Suc n)
  obtain ret1 v1 where v1: "foreach (map_fresh w) (map (\<lambda>k. lo + 4096 * k) [0..<n]) (ret, m, v) =
      Some (ret1, \<lambda>i. if lo \<le> i \<and> i < lo + 4096 * n then 0 else m i, v1)" "vmm_ok v1"
    "kmapped v1 = kmapped v \<union> {lo div 4096..<lo div 4096 + n}" "kframes v = kframes v1 + n"
    using Suc.IH[OF Suc.prems(1,2)] Suc.prems(3,4) by auto
  let ?a = "lo + 4096 * n" and ?m1 = "\<lambda>i. if lo \<le> i \<and> i < lo + 4096 * n then 0 else m i"
  have a: "?a mod 4096 = 0" "?a div 4096 = lo div 4096 + n" using Suc.prems(2) by (simp_all add: div_mult_self2)
  have "?a div 4096 \<in> heap_pages" "?a div 4096 \<notin> kmapped v1" "0 < kframes v1"
    unfolding a(2) v1(3) using Suc.prems(3,4) v1(4) by auto
  then obtain ret2 v2 where v2: "map_fresh w ?a (ret1, ?m1, v1) = Some (ret2, \<lambda>i. if i div 4096 = ?a div 4096 then 0 else ?m1 i, v2)"
    "vmm_ok v2" "kmapped v2 = insert (?a div 4096) (kmapped v1)" "kframes v1 = Suc (kframes v2)"
    using map_fresh_ok[OF v1(2) a(1), of w ret1 ?m1] by blast
  have same: "i div 4096 = ?a div 4096 \<longleftrightarrow> ?a \<le> i \<and> i < ?a + 4096" for i
  proof -
    obtain l where l: "lo = 4096 * l" using Suc.prems(2) by (metis mod_0_imp_dvd dvdE)
    then have "?a div 4096 = l + n" "?a = 4096 * (l + n)" unfolding a(2) by simp_all
    then show ?thesis using page_range[of i "l + n"] by metis
  qed
  have "(\<lambda>i. if i div 4096 = ?a div 4096 then 0 else ?m1 i) = (\<lambda>i. if lo \<le> i \<and> i < lo + 4096 * Suc n then 0 else m i)"
    unfolding same by (auto simp: fun_eq_iff)
  moreover have "foreach (map_fresh w) (map (\<lambda>k. lo + 4096 * k) [0..<Suc n]) (ret, m, v) =
      Some (ret2, \<lambda>i. if i div 4096 = ?a div 4096 then 0 else ?m1 i, v2)"
    using v1(1) v2(1) by (simp add: foreach_append)
  moreover have "kmapped v2 = kmapped v \<union> {lo div 4096..<lo div 4096 + Suc n}" unfolding v2(3) v1(3) a(2) by auto
  ultimately show ?case using v2(2,4) v1(4) by (intro exI[of _ ret2] exI[of _ v2]) simp
qed (auto simp: fun_eq_iff)

lemma vmm_alloc_kernel_ok:
  assumes "vmm_ok v" "lo mod 4096 = 0" "hi mod 4096 = 0" "KHEAP_START \<le> lo" "lo < hi" "hi \<le> KHEAP_MAX_ADDR + 4096"
    "{lo div 4096..<hi div 4096} \<inter> kmapped v = {}" "(hi - lo) div 4096 \<le> kframes v"
  shows "\<exists>ret v'. vmm_alloc_kernel lo hi False w (m, v) = Some (ret, \<lambda>i. if lo \<le> i \<and> i < hi then 0 else m i, v') \<and>
    vmm_ok v' \<and> kmapped v' = kmapped v \<union> {lo div 4096..<hi div 4096} \<and> kframes v = kframes v' + (hi - lo) div 4096"
proof -
  obtain l where l: "lo = 4096 * l" using assms(2) by (metis mod_0_imp_dvd dvdE)
  obtain n where n: "hi = lo + 4096 * n"
  proof -
    have "4096 dvd hi - lo" using assms(2,3) by (simp add: dvd_diff_nat mod_eq_0_iff_dvd)
    then obtain n where "hi - lo = 4096 * n" by (metis dvdE)
    then show ?thesis using that[of n] assms(5) by simp
  qed
  have d: "lo div 4096 = l" "hi div 4096 = l + n" "(hi - lo) div 4096 = n" unfolding n unfolding l by simp_all
  have lh: "786432 \<le> l" "l + n \<le> 851968" using assms(4,6) unfolding n unfolding l by simp_all
  have "hi + PAGE_SIZE - 1 - lo = 4095 + n * 4096" unfolding n by simp
  then have "(hi + PAGE_SIZE - 1 - lo) div PAGE_SIZE = n" by simp
  then have pg: "pages lo hi = map (\<lambda>k. lo + 4096 * k) [0..<n]" by (simp only: pages_def)
  have fresh: "\<forall>k < n. lo div 4096 + k \<in> heap_pages \<and> lo div 4096 + k \<notin> kmapped v"
  proof (intro allI impI)
    fix k assume k: "k < n"
    then have "l + k \<in> {l..<l + n}" by simp
    then have "l + k \<notin> kmapped v" using assms(7) unfolding d by blast
    then show "lo div 4096 + k \<in> heap_pages \<and> lo div 4096 + k \<notin> kmapped v" unfolding d using lh k by simp
  qed
  obtain ret v' where v': "foreach (map_fresh w) (map (\<lambda>k. lo + 4096 * k) [0..<n]) (0, m, v) =
      Some (ret, \<lambda>i. if lo \<le> i \<and> i < lo + 4096 * n then 0 else m i, v')" "vmm_ok v'"
    "kmapped v' = kmapped v \<union> {lo div 4096..<lo div 4096 + n}" "kframes v = kframes v' + n"
    using map_pages_ok[OF assms(1,2) fresh, of w 0 m] assms(8) unfolding d(3) by blast
  have "vmm_alloc_kernel lo hi False w (m, v) = Some (ret, \<lambda>i. if lo \<le> i \<and> i < hi then 0 else m i, v')"
    unfolding vmm_alloc_kernel_def pg v'(1) n[symmetric] using assms(2,3,5) by simp
  then show ?thesis using v'(2-4) unfolding d by blast
qed

subsection \<open>The heap on top of the virtual memory manager\<close>

interpretation kvm: heap_paging vmm_ops vmm_ok kmapped kframes
proof
  fix v :: vmm_t and lo hi w m
  assume "vmm_ok v" "lo mod 4096 = 0" "hi mod 4096 = 0" "KHEAP_START \<le> lo" "lo < hi" "hi \<le> KHEAP_MAX_ADDR + 4096"
    "{lo div 4096..<hi div 4096} \<inter> kmapped v = {}" "(hi - lo) div 4096 \<le> kframes v"
  from vmm_alloc_kernel_ok[OF this, of w m]
  show "\<exists>v'. vmo_alloc_kernel vmm_ops lo hi w (m, v) = Some (\<lambda>i. if lo \<le> i \<and> i < hi then 0 else m i, v') \<and> vmm_ok v' \<and>
      kmapped v' = kmapped v \<union> {lo div 4096..<hi div 4096} \<and> kframes v = kframes v' + (hi - lo) div 4096"
    by (auto simp: vmm_ops_def)
next
  fix v :: vmm_t and a m
  assume "vmm_ok v" "a mod 4096 = 0" "a div 4096 \<in> kmapped v"
  then show "\<exists>m' v'. vmo_free vmm_ops a (m, v) = Some (m', v') \<and> (\<forall>i. i < a \<or> a + 4096 \<le> i \<longrightarrow> m' i = m i) \<and> vmm_ok v' \<and>
      kmapped v' = kmapped v - {a div 4096} \<and> kframes v' = Suc (kframes v)"
    using vmm_free_ok[of v a] by (auto simp: vmm_ops_def)
qed

end
