(* ===== verification/Kheap.thy ===== *)
theory Kheap
  imports Vmm
begin

text \<open>
  The kernel heap on the virtual memory manager: allocation with growth, freeing with contraction,
  \<open>krealloc\<close> and \<open>heap_create\<close>, with \<open>vmm_ops\<close> as the paging operations.
\<close>

subsection \<open>Freeing\<close>

lemma coalesce_no_adjacent:
  assumes "no_adjacent_free (pre @ (x, s, False) # post)"
  shows "no_adjacent_free (coalesce pre x s post)"
proof -
  obtain pre' x' s' where l: "merge_left pre x s = (pre', x', s')" by (metis prod_cases3)
  obtain s'' post' where r: "merge_right s' post = (s'', post')" by fastforce
  have "no_adjacent_free pre' \<and> (pre' \<noteq> [] \<longrightarrow> \<not> snd (snd (last pre')))"
    using l assms by (cases pre rule: rev_cases) (auto simp: merge_left_def no_adjacent_free_append no_adjacent_free_Cons
        no_adjacent_free_def[of "[]"] split: if_splits)
  moreover have "no_adjacent_free post' \<and> (post' \<noteq> [] \<longrightarrow> \<not> snd (snd (hd post')))"
    using r assms by (cases post) (auto simp: merge_right_def no_adjacent_free_append no_adjacent_free_Cons split: if_splits)
  ultimately show ?thesis using l r by (auto simp: coalesce_def no_adjacent_free_append no_adjacent_free_Cons)
qed

lemma heap_free_result:
  assumes "heap_inv st (pre @ (x, s, False) # post)" "ptr_of x p" "p \<le> max_address (kheap st)" "untraceable p st"
    "0 < oa_room (free_index (kheap st))" "0 < oa_room (used_index (kheap st))"
    "\<not> (snd (snd (last (coalesce pre x s post))) \<and> 1572864 \<le> fst (snd (last (coalesce pre x s post))))"
  shows "\<exists>st'. heap_free ops p st = Some st' \<and> heap_inv st' (coalesce pre x s post) \<and>
    Heap_Inv.frame (start_address (kheap st)) (end_address (kheap st)) st st' \<and> kept (kmem st) (kmem st') (used_areas (pre @ post))"
  using heap_free_core[OF assms(1-6), of ops] shrink_tail_id[OF _ assms(7), of _ ops] by metis

text \<open>C2.  Freeing a block that the heap handed out returns (as long as the free space at the end of the
  heap stays below the 1.5 MB at which the heap is contracted): the block's area is merged with the
  free areas on either side of it, the heap is well formed, no two free areas are adjacent if none were
  before, and the contents of every other block are unchanged.\<close>

theorem heap_free_merges:
  assumes "heap_inv st (pre @ (x, s, False) # post)" "ptr_of x p" "p \<le> max_address (kheap st)" "untraceable p st"
    "0 < oa_room (free_index (kheap st))" "0 < oa_room (used_index (kheap st))"
    "\<not> (snd (snd (last (coalesce pre x s post))) \<and> 1572864 \<le> fst (snd (last (coalesce pre x s post))))"
    "no_adjacent_free (pre @ (x, s, False) # post)"
  shows "\<exists>st'. heap_free ops p st = Some st' \<and> heap_inv st' (coalesce pre x s post) \<and>
    no_adjacent_free (coalesce pre x s post) \<and> kept (kmem st) (kmem st') (used_areas (pre @ post))"
  using heap_free_result[OF assms(1-7), of ops] coalesce_no_adjacent[OF assms(8)] by blast

theorem heap_free_merges_witness:
  "\<exists>st'. heap_free no_vm 3221749772 heap_used = Some st' \<and> heap_inv st' (coalesce [] 3221749760 100 [(3221749860, 65436, True)]) \<and>
    no_adjacent_free (coalesce [] 3221749760 100 [(3221749860, 65436, True)]) \<and>
    kept (kmem heap_used) (kmem st') (used_areas ([] @ [(3221749860, 65436, True)]))"
  by (rule heap_free_merges[of heap_used "[]" 3221749760 100 "[(3221749860, 65436, True)]"])
    (use heap_used_inv in \<open>simp_all add: concrete_heap ptr_of_def coalesce_def merge_left_def merge_right_def
      no_adjacent_free_Cons no_adjacent_free_def[of "[]"]\<close>)

subsection \<open>Allocate, then free\<close>

lemma coalesce_alloc:
  assumes "no_adjacent_free (pre @ (x, s, True) # post)" "alloc_areas n False x s pre post a m as'" "n \<le> s"
  shows "\<exists>post'. as' = pre @ (x, m, False) # post' \<and> a = x \<and> coalesce pre x m post' = pre @ (x, s, True) # post"
proof -
  let ?rest = "if 36 \<le> s - n then [(x + n, s - n, True)] else []"
  have a: "a = x" "m = (if 36 \<le> s - n then n else s)" "as' = pre @ (x, m, False) # ?rest @ post"
    using assms(2) unfolding alloc_areas_def by auto
  have "merge_left pre x m = (pre, x, m)"
    using assms(1) by (auto simp: merge_left_def no_adjacent_free_append)
  moreover have "merge_right m (?rest @ post) = (s, post)"
    using assms(1,3) a(2) by (cases post) (auto simp: merge_right_def no_adjacent_free_append no_adjacent_free_Cons)
  ultimately have "coalesce pre x m (?rest @ post) = pre @ (x, s, True) # post" by (simp add: coalesce_def)
  then show ?thesis using a by blast
qed

text \<open>The capacity of the two indexes, and whether leaks are traced, never change in an allocation.\<close>

definition capacity :: "'v kst \<Rightarrow> nat \<times> nat \<times> bool" where
  "capacity st = (oa_max_size (free_index (kheap st)), oa_max_size (used_index (kheap st)), leak st = None)"

lemma oa_max:
  "insert_ordered_array m x a = Some a' \<Longrightarrow> oa_max_size a' = oa_max_size a"
  "remove_ordered_array_item x a = Some a' \<Longrightarrow> oa_max_size a' = oa_max_size a"
  by (auto simp: insert_ordered_array_def remove_ordered_array_item_def remove_ordered_array_def bind_eq_Some_conv
      split: if_splits option.splits)

lemma capacity_index:
  "insert_free x st = Some st' \<Longrightarrow> capacity st' = capacity st" "insert_used x st = Some st' \<Longrightarrow> capacity st' = capacity st"
  "remove_free x st = Some st' \<Longrightarrow> capacity st' = capacity st"
  by (auto simp: insert_free_def insert_used_def remove_free_def capacity_def bind_eq_Some_conv dest: oa_max)

lemma capacity_create: "create_area a sz t st = Some (h, st') \<Longrightarrow> capacity st' = capacity st"
  by (auto simp: create_area_def Let_def capacity_def bind_eq_Some_conv split: if_splits)

lemma capacity_trace: "trace_alloc p sz st = Some st' \<Longrightarrow> capacity st' = capacity st"
  by (auto simp: trace_alloc_def capacity_def bind_eq_Some_conv split: option.splits)

lemma capacity_mem [simp]: "capacity (st\<lparr> kmem := m \<rparr>) = capacity st"
  by (simp add: capacity_def)

lemma capacity_align: "alloc_align sz area st = Some (a, st') \<Longrightarrow> capacity st' = capacity st"
  by (auto simp: alloc_align_def Let_def bind_eq_Some_conv dest!: capacity_create capacity_index split: if_splits)

lemma capacity_finish: "alloc_finish sz area st = Some (p, st') \<Longrightarrow> capacity st' = capacity st"
  by (auto simp: alloc_finish_def Let_def bind_eq_Some_conv dest!: capacity_create capacity_index capacity_trace split: if_splits)

lemma capacity_alloc_in_hole: "alloc_in_hole sz pa area st = Some (p, st') \<Longrightarrow> capacity st' = capacity st"
  by (auto simp: alloc_in_hole_def bind_eq_Some_conv dest!: capacity_index capacity_align capacity_finish split: if_splits)

lemma oa_room_inv:
  assumes "heap_inv st as"
  shows "oa_room (free_index (kheap st)) = oa_max_size (free_index (kheap st)) - length (free_addrs as)"
    "oa_room (used_index (kheap st)) = oa_max_size (used_index (kheap st)) - length (used_addrs as)"
proof -
  have ix: "indexed (kheap st) as {#}" using assms by (simp add: heap_inv_def hinv_def)
  then have "mset (oa_contents (free_index (kheap st))) = mset (free_addrs as)" "mset (oa_contents (used_index (kheap st))) = mset (used_addrs as)"
    "oa_size (free_index (kheap st)) = length (oa_contents (free_index (kheap st)))"
    "oa_size (used_index (kheap st)) = length (oa_contents (used_index (kheap st)))"
    using oa.count_law unfolding indexed_def by auto
  then show "oa_room (free_index (kheap st)) = oa_max_size (free_index (kheap st)) - length (free_addrs as)"
    "oa_room (used_index (kheap st)) = oa_max_size (used_index (kheap st)) - length (used_addrs as)"
    unfolding oa_room_def by (metis size_mset)+
qed

lemma heap_alloc_areas:
  assumes inv: "heap_inv st as" and n: "0 < n" "n < 1073741824"
    and fit: "(x0, s0, True) \<in> set as" "request_size n False \<le> s0"
    and room: "0 < oa_room (free_index (kheap st))" "0 < oa_room (used_index (kheap st))" "trace_room st"
  shows "\<exists>x s pre post m as' st'. as = pre @ (x, s, True) # post \<and> n + 23 \<le> s \<and> heap_alloc ops n False st = Some (dword_align (x + 12), st') \<and>
    alloc_areas (n + 23) False x s pre post x m as' \<and> heap_inv st' as' \<and> capacity st' = capacity st \<and>
    Heap_Inv.frame (start_address (kheap st)) (end_address (kheap st)) st st' \<and>
    kept (kmem st) (kmem st') (used_areas as)"
proof (rule find_smallest_hole_cases[OF inv, of "request_size n False" False])
  assume "\<And>x s. (x, s, True) \<in> set as \<Longrightarrow> \<not> (request_size n False \<le> s \<and> (False \<longrightarrow> page_offset x + request_size n False \<le> s))"
  then show ?thesis using fit by blast
next
  fix x s pre post
  assume some: "find_smallest_hole (request_size n False) False st = Some x" "x \<noteq> 0" "as = pre @ (x, s, True) # post"
    "request_size n False \<le> s"
  have r: "request_size n False = n + 23" by (simp add: request_size_def)
  have e: "heap_alloc ops n False st = alloc_in_hole (n + 23) False x st"
    using some(1,2) n(2) by (subst heap_alloc.simps) (simp add: Let_def r add.commute)
  obtain st' a' m as' where o: "alloc_in_hole (n + 23) False x st = Some (dword_align (a' + 12), st')"
    "alloc_areas (n + 23) False x s pre post a' m as'" "heap_inv st' as'"
    "Heap_Inv.frame (start_address (kheap st)) (end_address (kheap st)) st st'"
    "kept (kmem st) (kmem st') pre" "kept (kmem st) (kmem st') post"
    using alloc_in_hole_ok[OF inv[unfolded some(3)], of "n + 23" False] some(4) n room r by auto
  have "a' = x" using o(2) by (auto simp: alloc_areas_def)
  moreover have "kept (kmem st) (kmem st') (used_areas as)"
    using kept_used[OF o(5)] kept_used[OF o(6)] some(3) by simp
  ultimately show ?thesis using o(1-4) e some(3,4) r capacity_alloc_in_hole[OF o(1)] by (metis (no_types, lifting))
qed

text \<open>C4.  Allocating a block from a hole and freeing it again gives back a heap with exactly the same
  areas, and the contents of all other blocks are unchanged throughout.\<close>

theorem heap_alloc_free_roundtrip:
  assumes inv: "heap_inv st as" "no_adjacent_free as" and n: "0 < n" "n < 1073741824"
    and fit: "(x, s, True) \<in> set as" "n + 23 \<le> s"
    and room: "2 < oa_room (free_index (kheap st))" "1 < oa_room (used_index (kheap st))" "leak st = None"
    and lim: "end_address (kheap st) \<le> max_address (kheap st)" "\<not> (snd (snd (last as)) \<and> 1572864 \<le> fst (snd (last as)))"
  shows "\<exists>p st' st''. heap_alloc ops n False st = Some (p, st') \<and> heap_free ops p st' = Some st'' \<and> heap_inv st'' as \<and>
    kept (kmem st) (kmem st'') (used_areas as)"
proof -
  have tr: "trace_room st" using room(3) by (simp add: trace_room_def)
  obtain x s pre post m as' st' where a: "as = pre @ (x, s, True) # post" "n + 23 \<le> s"
    "heap_alloc ops n False st = Some (dword_align (x + 12), st')" "alloc_areas (n + 23) False x s pre post x m as'"
    "heap_inv st' as'" "capacity st' = capacity st" "Heap_Inv.frame (start_address (kheap st)) (end_address (kheap st)) st st'"
    "kept (kmem st) (kmem st') (used_areas as)"
    using heap_alloc_areas[OF inv(1) n fit(1) _ _ _ tr, of ops] fit(2) room(1,2) unfolding request_size_def by auto
  obtain post' where q: "as' = pre @ (x, m, False) # post'" "coalesce pre x m post' = as"
    using coalesce_alloc[OF inv(2)[unfolded a(1)] a(4,2)] a(1) by blast
  have u: "used_areas (pre @ post') = used_areas as"
    using a(4) q(1) unfolding alloc_areas_def a(1) by (auto split: if_splits)
  have xm: "x + m < W32" "x + m \<le> end_address (kheap st')" "20 < m"
    using heap_inv_areas[OF a(5), of x m False] q(1) by (auto simp: area_ok_def)
  have ptr: "ptr_of x (dword_align (x + 12))" using xm by (intro ptr_of_dword_align) simp
  have le: "dword_align (x + 12) \<le> max_address (kheap st')"
    using ptr xm(2,3) a(7) lim(1) unfolding ptr_of_def Heap_Inv.frame_def by linarith
  have cap: "oa_max_size (free_index (kheap st')) = oa_max_size (free_index (kheap st))"
    "oa_max_size (used_index (kheap st')) = oa_max_size (used_index (kheap st))" "leak st' = None"
    using a(6) room(3) by (auto simp: capacity_def)
  have rooms: "0 < oa_room (free_index (kheap st'))" "0 < oa_room (used_index (kheap st'))"
    using oa_room_inv[OF a(5)] oa_room_inv[OF inv(1)] room(1,2) cap(1,2) a(4) unfolding a(1) alloc_areas_def
    by (auto split: if_splits)
  obtain st'' where f: "heap_free ops (dword_align (x + 12)) st' = Some st''" "heap_inv st'' as"
    "kept (kmem st') (kmem st'') (used_areas as)"
    using heap_free_result[OF a(5)[unfolded q(1)] ptr le _ rooms, of ops] lim(2) cap(3) unfolding q(2) u
    by (auto simp: untraceable_def)
  then show ?thesis using a(3,8) kept_trans by blast
qed

theorem heap_alloc_free_roundtrip_witness:
  "\<exists>p st' st''. heap_alloc no_vm 50 False heap_used = Some (p, st') \<and> heap_free no_vm p st' = Some st'' \<and>
    heap_inv st'' [(3221749760, 100, False), (3221749860, 65436, True)] \<and>
    kept (kmem heap_used) (kmem st'') (used_areas [(3221749760, 100, False), (3221749860, 65436, True)])"
  by (rule heap_alloc_free_roundtrip[OF heap_used_inv, of 50 3221749860 65436])
    (simp_all add: concrete_heap no_adjacent_free_Cons no_adjacent_free_def[of "[]"])

subsection \<open>Growing\<close>

text \<open>The kernel's virtual memory with the pages of a heap mapped that ends on page \<open>lastp\<close>, and 3072 free frames.\<close>

definition vmm_booted :: "nat \<Rightarrow> vmm_t" where
  "vmm_booted lastp = \<lparr> pmm = \<lparr> used_frames = replicate 32 (- 1) @ replicate 97 0, nframes = 4096, last_allocated_frame = NO_FRAME,
       mem_end_page = 16777216, pmem = (\<lambda>_. 0) \<rparr>,
     ptab = (\<lambda>t i. if 768 \<le> t \<and> t < 832 \<and> i < 1024 \<and> 1024 * t + i \<le> lastp
       then page_zero\<lparr> present := True, rw := True, global := True, frame := 1024 * t + i - 786432 \<rparr> else page_zero),
     dirs = (\<lambda>d. \<lparr> tables_physical = (\<lambda>i. 0), tables = (\<lambda>i. i), physical_address = 0 \<rparr>),
     kernel_directory = 1, current_directory = 1, pagedirs = [1] \<rparr>"

lemma vmm_booted_frames:
  "managed (pmm (vmm_booted lastp)) = 4096" "free_frames (pmm (vmm_booted lastp)) = {1024..<4096}" "pmm_ok (pmm (vmm_booted lastp))"
proof -
  show m: "managed (pmm (vmm_booted lastp)) = 4096" by (simp add: managed_def vmm_booted_def)
  have u: "frame_used (pmm (vmm_booted lastp)) f \<longleftrightarrow> f < 1024" if "f < 4096" for f
  proof (cases "f < 1024")
    case True
    then have "f div 32 < 32" by simp
    then show ?thesis using True by (simp add: frame_used_def vmm_booted_def nth_append)
  next
    case False
    then have "32 \<le> f div 32" "f div 32 < 129" using that by simp_all
    then show ?thesis using False by (simp add: frame_used_def vmm_booted_def nth_append)
  qed
  show "free_frames (pmm (vmm_booted lastp)) = {1024..<4096}" unfolding free_frames_def m using u by auto
  show "pmm_ok (pmm (vmm_booted lastp))" by (simp add: pmm_ok_def vmm_booted_def)
qed

lemma vmm_booted_pages:
  "q \<in> heap_pages \<Longrightarrow> kpage (vmm_booted lastp) q =
    (if q \<le> lastp then page_zero\<lparr> present := True, rw := True, global := True, frame := q - 786432 \<rparr> else page_zero)"
proof -
  assume q: "q \<in> heap_pages"
  have "768 \<le> q div 1024" "q div 1024 < 832" using heap_page_table[OF q] by auto
  moreover have "1024 * (q div 1024) + q mod 1024 = q" by simp
  ultimately show ?thesis by (simp add: kpage_def vmm_booted_def)
qed

lemma vmm_booted_mapped:
  assumes lastp: "lastp < 787456" shows "kmapped (vmm_booted lastp) = {786432..lastp}"
proof (rule set_eqI)
  fix q show "q \<in> kmapped (vmm_booted lastp) \<longleftrightarrow> q \<in> {786432..lastp}"
    using lastp by (cases "q \<in> heap_pages") (auto simp: kmapped_def vmm_booted_pages page_zero_def)
qed

lemma vmm_booted_ok:
  assumes lastp: "lastp < 787456" shows "vmm_ok (vmm_booted lastp)"
proof -
  note vmm_booted_mapped = vmm_booted_mapped[OF lastp]
  have p: "frame (kpage (vmm_booted lastp) q) = q - 786432" "present (kpage (vmm_booted lastp) q)" if "q \<in> kmapped (vmm_booted lastp)" for q
    using that lastp vmm_booted_pages[of q] by (auto simp: vmm_booted_mapped)
  have "inj_on (\<lambda>q. frame (kpage (vmm_booted lastp) q)) (kmapped (vmm_booted lastp))"
    by (rule inj_onI) (use p in \<open>auto simp: vmm_booted_mapped\<close>)
  moreover have "present (kpage (vmm_booted lastp) q) \<and> frame (kpage (vmm_booted lastp) q) < managed (pmm (vmm_booted lastp)) \<and>
      frame (kpage (vmm_booted lastp) q) \<notin> free_frames (pmm (vmm_booted lastp))" if "q \<in> kmapped (vmm_booted lastp)" for q
    using p[OF that] that lastp vmm_booted_frames by (auto simp: vmm_booted_mapped)
  moreover have "kernel_directory (vmm_booted lastp) \<noteq> 0" "\<forall>i \<in> {768..<832}. tables (dirs (vmm_booted lastp) (kernel_directory (vmm_booted lastp))) i \<noteq> 0"
    "inj_on (tables (dirs (vmm_booted lastp) (kernel_directory (vmm_booted lastp)))) {768..<832}"
    by (auto simp: vmm_booted_def inj_on_def)
  ultimately show ?thesis using vmm_booted_frames(3) unfolding vmm_ok_def by blast
qed

definition heap_paged :: "vmm_t kst" where
  "heap_paged = \<lparr> kmem = kmem heap_used, kheap = kheap heap_used, kheap_set = True, placement_address = 0, leak = None,
     task_id = 1, task_name = ''kernel'', vm = vmm_booted 786576 \<rparr>"

lemma heap_paged_inv: "heap_inv heap_paged [(3221749760, 100, False), (3221749860, 65436, True)]"
  using heap_used_inv by (simp add: heap_paged_def heap_inv_def hinv_def)

lemma heap_paged_hvm: "kvm.hvm heap_paged"
proof -
  have "q \<in> kmapped (vmm_booted 786576)" if "786560 \<le> q" "q \<le> 786576" for q using that by (simp add: vmm_booted_mapped)
  moreover have "q \<notin> kmapped (vmm_booted 786576)" if "786576 < q" for q using that by (simp add: vmm_booted_mapped)
  ultimately show ?thesis unfolding kvm.hvm_def using vmm_booted_ok[of 786576] by (simp add: heap_paged_def concrete_heap)
qed

text \<open>C3.  On a well-formed heap whose pages are mapped, a request for less than 128 MB always returns,
  growing the heap (at most twice) when no hole is big enough, provided that the address range, the
  physical frames and the indexes have room for that growth.  The result is a block with all the
  guarantees of an allocation from a hole.\<close>

theorem heap_alloc_returns:
  fixes st :: "vmm_t kst"
  assumes "heap_inv st as" "kvm.hvm st" "0 < n" "n < 134217728"
    "end_address (kheap st) + kvm.max_growth n pa \<le> max_address (kheap st)" "max_address (kheap st) \<le> KHEAP_MAX_ADDR"
    "kvm.max_growth n pa div 4096 \<le> kframes (vm st)"
    "2 < oa_room (free_index (kheap st))" "0 < oa_room (used_index (kheap st))" "trace_room st"
  shows "\<exists>p st' as'. heap_alloc vmm_ops n pa st = Some (p, st') \<and> heap_inv st' as' \<and> block as' p n \<and> p mod 4 = 0 \<and>
    (pa \<longrightarrow> p mod 4096 = 0) \<and> survive as as' \<and> kept (kmem st) (kmem st') (used_areas as) \<and>
    (\<forall>a s. (a, s, False) \<in> set as \<longrightarrow> p + n \<le> a \<or> a + s \<le> p)"
  using kvm.heap_alloc_total[OF assms] unfolding alloc_result_def .

theorem heap_alloc_returns_witness:
  "\<exists>p st' as'. heap_alloc vmm_ops 100000 False heap_paged = Some (p, st') \<and> heap_inv st' as' \<and> block as' p 100000 \<and> p mod 4 = 0 \<and>
    (False \<longrightarrow> p mod 4096 = 0) \<and> survive [(3221749760, 100, False), (3221749860, 65436, True)] as' \<and>
    kept (kmem heap_paged) (kmem st') (used_areas [(3221749760, 100, False), (3221749860, 65436, True)]) \<and>
    (\<forall>a s. (a, s, False) \<in> set [(3221749760, 100, False), (3221749860, 65436, True)] \<longrightarrow> p + 100000 \<le> a \<or> a + s \<le> p)"
proof (rule heap_alloc_returns[OF heap_paged_inv heap_paged_hvm])
  have g: "kvm.max_growth 100000 False = 204800" by (simp add: kvm.max_growth_def expand_size_def request_size_def)
  show "end_address (kheap heap_paged) + kvm.max_growth 100000 False \<le> max_address (kheap heap_paged)"
    "kvm.max_growth 100000 False div 4096 \<le> kframes (vm heap_paged)"
    unfolding g by (simp_all add: heap_paged_def concrete_heap kframes_def vmm_booted_frames)
qed (simp_all add: heap_paged_def concrete_heap)

subsection \<open>Shrinking\<close>

lemma write_footer_eq:
  assumes "t < W32" shows "write_footer x (set_hdr_size x t m) =
    set_ftr_header (sub32 (add32 x t) 8) x (set_ftr_magic (sub32 (add32 x t) 8) HEAP_MAGIC (set_hdr_size x t m))"
  using assms by (simp add: write_footer_def Let_def FOOTER_FROM_HEADER_def fields)

lemma write_footer_cong:
  "t < W32 \<Longrightarrow> m i = m' i \<Longrightarrow> write_footer x (set_hdr_size x t m) i = write_footer x (set_hdr_size x t m') i"
  unfolding write_footer_eq by (simp add: set_ftr_header_def set_ftr_magic_def set_hdr_size_def st32_def st8_def)


definition heap_big :: "vmm_t kst" where
  "heap_big = \<lparr> kmem = write_area 3221749860 2097052 AREA_FREE (write_area 3221749760 100 AREA_USED (\<lambda>_. 0)),
     kheap = (kheap_of [3221749860] [3221749760] 3221749860)\<lparr> end_address := 3223846912 \<rparr>, kheap_set = True, placement_address = 0, leak = None,
     task_id = 1, task_name = ''kernel'', vm = vmm_booted 787072 \<rparr>"

lemma heap_big_inv: "heap_inv heap_big [(3221749760, 100, False), (3221749860, 2097052, True)]"
proof -
  let ?m = "write_area 3221749760 100 AREA_USED (\<lambda>_. 0)"
  have "area_ok (write_area 3221749860 2097052 AREA_FREE ?m) 3221749760 100 False"
    using area_ok_cong[of 3221749760 100 ?m "write_area 3221749860 2097052 AREA_FREE ?m" False]
    by (simp add: write_area_ok write_area_apply)
  then show ?thesis
    by (simp add: heap_inv_def hinv_def geom_def indexed_def concrete_heap heap_big_def oa_usable_def oa_ok_def oa_contents_def
        write_area_ok hdr_magic_def ld32_def ld8_def write_area_apply)
qed

lemma heap_big_hvm: "kvm.hvm heap_big"
proof -
  have "q \<in> kmapped (vmm_booted 787072)" if "786560 \<le> q" "q \<le> 787072" for q using that by (simp add: vmm_booted_mapped)
  moreover have "q \<notin> kmapped (vmm_booted 787072)" if "787072 < q" for q using that by (simp add: vmm_booted_mapped)
  ultimately show ?thesis unfolding kvm.hvm_def using vmm_booted_ok[of 787072] by (simp add: heap_big_def concrete_heap)
qed


subsection \<open>Creation\<close>

lemma place_usable:
  "n < W32 \<Longrightarrow> oa_usable (place_ordered_array n (Some lt))" "oa_contents (place_ordered_array n lt') = []"
  "oa_room (place_ordered_array n lt') = n"
  by (simp_all add: oa_usable_def oa_ok_def oa_contents_def oa_room_def place_ordered_array_def)

text \<open>C7.  \<open>heap_create\<close>, called the way \<open>init_paging\<close> calls it before the heap exists, returns a heap that
  satisfies the heap's invariant and whose pages are mapped: one free area of 64 kB behind the two
  indexes, nothing in use.\<close>

theorem heap_create_establishes:
  fixes st0 :: "vmm_t kst"
  assumes pre: "\<not> kheap_set st0" "0 < placement_address st0" "placement_address st0 < KHEAP_START"
    and v: "vmm_ok (vm st0)" "kmapped (vm st0) = {}" "145 \<le> kframes (vm st0)"
  shows "\<exists>p st. heap_create vmm_ops KHEAP_INITIAL_SIZE KHEAP_MAX_ADDR True False st0 = Some (p, st) \<and>
    heap_inv st [(3221749760, 65536, True)] \<and> kvm.hvm st \<and> max_address (kheap st) = KHEAP_MAX_ADDR \<and>
    kframes (vm st0) = kframes (vm st) + 145"
proof -
  obtain p pl where k: "kmalloc_a vmm_ops sizeof_heap_t st0 = Some (p, st0\<lparr> placement_address := pl \<rparr>)" "p \<noteq> 0"
  proof -
    let ?a = "placement_address st0"
    define p1 where "p1 = (if IS_PAGE_ALIGNED ?a then dword_align ?a else add32 (?a - ?a mod PAGE_SIZE) PAGE_SIZE)"
    have e: "p1 = page_up ?a"
    proof (cases "?a mod 4096 = 0")
      case True
      then have "?a mod 4 = 0" using mod_mod_cancel[of 4 4096 ?a] by simp
      then show ?thesis using True by (simp add: p1_def IS_PAGE_ALIGNED_def dword_align_def page_up_def)
    next
      case False
      then show ?thesis using pre(3) by (simp add: p1_def IS_PAGE_ALIGNED_def page_up_def)
    qed
    have "p1 mod 4096 = 0" "p1 \<noteq> 0" using page_up_props[of ?a] pre(2) unfolding e by auto
    then have "p1 mod 4 = 0" "IS_PAGE_ALIGNED p1" using mod_mod_cancel[of 4 4096 p1] by (simp_all add: IS_PAGE_ALIGNED_def)
    then show ?thesis using that[of p1 "add32 p1 sizeof_heap_t"] pre(1) \<open>p1 \<noteq> 0\<close>
      unfolding kmalloc_a_def kmalloc_int_def p1_def by (auto simp: Let_def split: if_splits)
  qed
  let ?st = "st0\<lparr> placement_address := pl \<rparr>"
  obtain v' where v': "vmo_alloc_kernel vmm_ops KHEAP_START 3221819392 True (kmem st0, vm st0) =
      Some (\<lambda>i. if KHEAP_START \<le> i \<and> i < 3221819392 then 0 else kmem st0 i, v')" "vmm_ok v'"
    "kmapped v' = {786432..<786577}" "kframes (vm st0) = kframes v' + 145"
    using kvm.map_law[of "vm st0" KHEAP_START 3221819392 True "kmem st0"] v by auto
  let ?m = "\<lambda>i. if KHEAP_START \<le> i \<and> i < 3221819392 then 0 else kmem st0 i"
  let ?m2 = "write_area 3221749760 65536 AREA_FREE ?m"
  let ?oa = "place_ordered_array HEAP_INDEX_SIZE (Some area_header_t_less_than)"
  obtain fi where fi: "insert_ordered_array ?m2 3221749760 ?oa = Some fi" "oa_usable fi"
    "mset (oa_contents fi) = {#3221749760#}"
    using oa.add_law[of ?oa ?m2 3221749760] by (auto simp: place_usable)
  let ?h = "\<lparr> start_address = 3221749760, end_address = 3221815296, min_address = KHEAP_START, max_address = KHEAP_MAX_ADDR,
         supervisor = True, readonly = False, free_index = fi, used_index = ?oa, rightmost_area = 3221749760 \<rparr>"
  have "heap_create vmm_ops KHEAP_INITIAL_SIZE KHEAP_MAX_ADDR True False st0 =
      Some (p, ?st\<lparr> kmem := ?m2, vm := v', kheap := ?h \<rparr>)"
    using k v'(1) fi(1) by (simp add: heap_create_def Let_def IS_PAGE_ALIGNED_def write_area_def add32_def sub32_def)
  moreover have "heap_inv (?st\<lparr> kmem := ?m2, vm := v', kheap := ?h \<rparr>) [(3221749760, 65536, True)]"
    using fi(2,3) by (simp add: heap_inv_def hinv_def geom_def indexed_def place_usable write_area_ok hdr_magic_def
        ld32_def ld8_def write_area_apply)
  moreover have "kvm.hvm (?st\<lparr> kmem := ?m2, vm := v', kheap := ?h \<rparr>)"
    using v'(2,3) by (simp add: kvm.hvm_def)
  ultimately show ?thesis using v'(4) by (intro exI[of _ p] exI[of _ "?st\<lparr> kmem := ?m2, vm := v', kheap := ?h \<rparr>"]) simp
qed

definition before_heap :: "vmm_t kst" where
  "before_heap = heap_paged\<lparr> kheap_set := False, placement_address := 1114113, vm := vmm_booted 0 \<rparr>"

theorem heap_create_establishes_witness:
  "\<exists>p st. heap_create vmm_ops KHEAP_INITIAL_SIZE KHEAP_MAX_ADDR True False before_heap = Some (p, st) \<and>
    heap_inv st [(3221749760, 65536, True)] \<and> kvm.hvm st \<and> max_address (kheap st) = KHEAP_MAX_ADDR \<and>
    kframes (vm before_heap) = kframes (vm st) + 145"
  by (rule heap_create_establishes)
    (simp_all add: before_heap_def heap_paged_def vmm_booted_ok vmm_booted_mapped kframes_def vmm_booted_frames)

subsection \<open>Integrity checks and the placement allocator\<close>

lemma validate_index_ok:
  assumes inv: "heap_inv st as"
    and c: "oa_usable idx" "\<And>x. x \<in> set (oa_contents idx) \<Longrightarrow> \<exists>s. (x, s, f) \<in> set as"
  shows "validate_index (kmem st) idx (if f then AREA_FREE else AREA_USED) = Some ()"
  unfolding validate_index_def
proof (rule oa.foreach_get[OF c(1)])
  fix x u assume "x \<in> set (oa_contents idx)"
  then obtain s where s: "(x, s, f) \<in> set as" using c(2) by blast
  have A: "area_ok (kmem st) x s f" "x + s < W32" using heap_inv_areas[OF inv s] by auto
  then show "(let found_footer = FOOTER_FROM_HEADER (kmem st) x in do {
      assertK (hdr_type (kmem st) x = (if f then AREA_FREE else AREA_USED)); assertK (hdr_magic (kmem st) x = HEAP_MAGIC);
      assertK (ftr_magic (kmem st) found_footer = HEAP_MAGIC); assertK (ftr_header (kmem st) found_footer = x) }) = Some ()"
    by (simp add: FOOTER_area[OF A] area_ok_def)
qed

text \<open>C12.  On a well-formed heap all checks of \<open>validate_heap_index\<close> pass, and every pointer into a used
  area passes \<open>kheap_is_valid\<close>.\<close>

theorem validate_heap_index_passes:
  assumes inv: "heap_inv st as"
  shows "validate_heap_index st = Some () \<and> (\<forall>x s p. (x, s, False) \<in> set as \<and> ptr_of x p \<and> p \<le> max_address (kheap st) \<longrightarrow>
    kheap_is_valid p st = Some True)"
proof (intro conjI allI impI)
  have ix: "indexed (kheap st) as {#}" using inv by (simp add: heap_inv_def hinv_def)
  then have "oa_usable (free_index (kheap st))" "oa_usable (used_index (kheap st))" by (simp_all add: indexed_def)
  then show "validate_heap_index st = Some ()"
    using validate_index_ok[OF inv, of "used_index (kheap st)" False] validate_index_ok[OF inv, of "free_index (kheap st)" True]
      indexed_set[OF ix] set_addrs[of _ as] by (simp add: validate_heap_index_def)
  fix x s p assume "(x, s, False) \<in> set as \<and> ptr_of x p \<and> p \<le> max_address (kheap st)"
  then show "kheap_is_valid p st = Some True"
    using find_area_ok[OF inv, of x s p] by (auto simp: kheap_is_valid_def ptr_of_def)
qed

theorem validate_heap_index_passes_witness:
  "validate_heap_index heap_used = Some () \<and> kheap_is_valid 3221749772 heap_used = Some True"
proof -
  have "ptr_of 3221749760 3221749772" by (simp add: ptr_of_def)
  moreover have "3221749772 \<le> max_address (kheap heap_used)" by (simp add: concrete_heap)
  ultimately show ?thesis using validate_heap_index_passes[OF heap_used_inv] by auto
qed

subsection \<open>Reallocation\<close>

lemma area_ok_interior:
  assumes "area_ok m x s f" "\<And>i. x \<le> i \<Longrightarrow> i < x + s \<Longrightarrow> \<not> (x + 12 \<le> i \<and> i + 8 < x + s) \<Longrightarrow> m' i = m i"
  shows "area_ok m' x s f"
proof -
  obtain b where b: "x + s - 8 = b" "b + 8 = x + s" "x + 12 < b" using assms(1) by (force simp: area_ok_def)
  have h: "ld32 m' x = ld32 m x" "ld32 m' (x + 8) = ld32 m (x + 8)" "ld8 m' (x + 4) = ld8 m (x + 4)"
    using assms(2) b by (auto intro!: ld32_cong simp: ld8_def)
  have "m' i = m i" if "b \<le> i" "i < b + 8" for i using assms(2)[of i] b that by simp
  then have f: "ld32 m' b = ld32 m b" "ld32 m' (b + 4) = ld32 m (b + 4)" by (auto intro!: ld32_cong)
  show ?thesis using assms(1) h f unfolding area_ok_def b(1) by (simp add: fields)
qed

lemma heap_inv_interior:
  assumes inv: "heap_inv st as" and y: "(y, m, f) \<in> set as"
    and same: "\<And>i. \<not> (y + 12 \<le> i \<and> i + 8 < y + m) \<Longrightarrow> m' i = kmem st i"
  shows "heap_inv (st\<lparr> kmem := m' \<rparr>) as"
proof -
  obtain pre post where as: "as = pre @ (y, m, f) # post" using y by (meson split_list)
  have inv0: "hinv st (pre @ (y, m, f) # post) {#}" using inv as by (simp add: heap_inv_def)
  note b = hinv_bounds[OF inv0]
  have "hinv (st\<lparr> kmem := m', kheap := kheap st \<rparr>) (pre @ [(y, m, f)] @ post) {#}"
  proof (rule hinv_replace[where a = y and b = "y + m" and mid = "[(y, m, f)]"])
    show "hinv st (pre @ [(y, m, f)] @ post) {#}" using inv0 by simp
    show "tiles m' y [(y, m, f)] (y + m)" using area_ok_interior[OF b(5), of m'] same by simp
  qed (use inv0 b same in \<open>auto simp: hinv_def\<close>)
  then show ?thesis using as by (simp add: heap_inv_def hinv_def)
qed

lemma used_areas_iff: "(a, t, False) \<in> set (used_areas as) \<longleftrightarrow> (a, t, False) \<in> set as"
  by (simp add: used_areas_def)

lemma keptD: "kept m m' as \<Longrightarrow> (a, t, f) \<in> set as \<Longrightarrow> a + 12 \<le> j \<Longrightarrow> j + 8 < a + t \<Longrightarrow> m' j = m j"
  unfolding kept_def by fastforce

lemma last_area_bound:
  assumes "heap_inv st as" "end_address (kheap st) - start_address (kheap st) < 1572864"
  shows "\<not> (snd (snd (last as)) \<and> 1572864 \<le> fst (snd (last as)))"
proof -
  obtain x s f where l: "last as = (x, s, f)" "(x, s, f) \<in> set as"
    using assms(1) unfolding heap_inv_def hinv_def by (metis last_in_set prod_cases3)
  have "start_address (kheap st) \<le> x" "x + s \<le> end_address (kheap st)" using heap_inv_areas[OF assms(1) l(2)] by auto
  then show ?thesis using l(1) assms(2) by auto
qed

lemma coalesce_used: "used_areas (coalesce pre x s post) = used_areas (pre @ post)"
  using used_areas_merge by (auto simp: coalesce_def split: prod.splits)

text \<open>The second half of \<open>krealloc\<close>: the contents are copied into the new block \<open>(y, m)\<close>, then the old
  block is freed.\<close>

lemma copy_and_free:
  assumes inv: "heap_inv st as" and x: "(x, s, False) \<in> set as" "ptr_of x p" and y: "(y, m, False) \<in> set as" "ptr_of y q" "x \<noteq> y"
    and fit: "q + s + 8 \<le> y + m" and lim: "end_address (kheap st) \<le> max_address (kheap st)"
      "end_address (kheap st) - start_address (kheap st) < 1572864" "leak st = None"
    and room: "0 < oa_room (free_index (kheap st))" "0 < oa_room (used_index (kheap st))"
  defines "st2 \<equiv> st\<lparr> kmem := memcpy (kmem st) q p s \<rparr>"
  shows "\<exists>st3 as3. kfree ops p st2 = Some st3 \<and> heap_inv st3 as3 \<and> (y, m, False) \<in> set as3 \<and>
    (\<forall>i. p + i + 8 < x + s \<longrightarrow> kmem st3 (q + i) = kmem st (p + i)) \<and>
    (\<forall>a t j. (a, t, False) \<in> set as \<and> a \<noteq> x \<and> a \<noteq> y \<and> a + 12 \<le> j \<and> j + 8 < a + t \<longrightarrow>
       (a, t, False) \<in> set as3 \<and> kmem st3 j = kmem st j)"
proof -
  obtain pre post where as: "as = pre @ (x, s, False) # post" using x(1) by (meson split_list)
  have out: "memcpy (kmem st) q p s i = kmem st i" if "\<not> (y + 12 \<le> i \<and> i + 8 < y + m)" for i
    using that fit y(2) by (intro memcpy_outside) (auto simp: ptr_of_def)
  have inv2: "heap_inv st2 as" unfolding st2_def by (rule heap_inv_interior[OF inv y(1) out])
  have A: "x + s \<le> end_address (kheap st)" "20 < s" using heap_inv_areas[OF inv x(1)] by (auto simp: area_ok_def)
  have p: "p < end_address (kheap st2)" "p \<le> max_address (kheap st2)"
    using A x(2) lim(1) by (auto simp: st2_def ptr_of_def)
  have small: "\<not> (snd (snd (last (coalesce pre x s post))) \<and> 1572864 \<le> fst (snd (last (coalesce pre x s post))))"
    if "heap_inv st' (coalesce pre x s post)" "Heap_Inv.frame (start_address (kheap st2)) (end_address (kheap st2)) st2 st'" for st'
    using last_area_bound[OF that(1)] that(2) lim(2) by (simp add: Heap_Inv.frame_def st2_def)
  have room2: "0 < oa_room (free_index (kheap st2))" "0 < oa_room (used_index (kheap st2))" "untraceable p st2"
    using room lim(3) by (simp_all add: st2_def untraceable_def)
  obtain st3 where f: "heap_free ops p st2 = Some st3" "heap_inv st3 (coalesce pre x s post)"
    "kept (kmem st2) (kmem st3) (used_areas (pre @ post))"
    using heap_free_core[OF inv2[unfolded as] x(2) p(2) room2(3,1,2), of ops] small shrink_tail_id[of _ "coalesce pre x s post" ops] by metis
  have in3: "(a, t, False) \<in> set (coalesce pre x s post)" "\<forall>j. a + 12 \<le> j \<and> j + 8 < a + t \<longrightarrow> kmem st3 j = kmem st2 j"
    if "(a, t, False) \<in> set as" "a \<noteq> x" for a t
  proof -
    have u: "(a, t, False) \<in> set (used_areas (pre @ post))" using that as unfolding used_areas_iff by auto
    then show "(a, t, False) \<in> set (coalesce pre x s post)" unfolding coalesce_used[symmetric, of pre post x s] used_areas_iff .
    show "\<forall>j. a + 12 \<le> j \<and> j + 8 < a + t \<longrightarrow> kmem st3 j = kmem st2 j" using keptD[OF f(3) u] by blast
  qed
  have disj: "x + s \<le> y \<or> y + m \<le> x"
    using heap_inv_split_disjoint[OF inv[unfolded as], of y m False] y(1,3) as by auto
  have "kmem st3 (q + i) = kmem st (p + i)" if i: "p + i + 8 < x + s" for i
  proof -
    have "memcpy (kmem st) q p s (q + i) = kmem st (p + i)"
    proof (rule memcpy_disjoint[of "x + s - 8 - p"])
      fix j assume "j < x + s - 8 - p"
      then show "p + j < q \<or> q + s \<le> p + j" using disj x(2) y(2) fit by (auto simp: ptr_of_def)
    qed (use i x(2) in \<open>auto simp: ptr_of_def\<close>)
    moreover have "kmem st3 (q + i) = kmem st2 (q + i)"
      using in3(2)[OF y(1)] y(2,3) x(2) i fit by (auto simp: ptr_of_def)
    ultimately show ?thesis by (simp add: st2_def)
  qed
  moreover have "kmem st2 j = kmem st j" if "(a, t, False) \<in> set as" "a \<noteq> y" "a + 12 \<le> j" "j + 8 < a + t" for a t j
  proof -
    obtain pre' post' where "as = pre' @ (y, m, False) # post'" using y(1) by (meson split_list)
    then have "a + t \<le> y \<or> y + m \<le> a" using heap_inv_split_disjoint[of st pre' y m False post' a t False] inv that(1,2) by auto
    then show ?thesis using out[of j] that(3,4) by (auto simp: st2_def)
  qed
  moreover have "kfree ops p st2 = Some st3" using f(1) p(1) by (simp add: kfree_def)
  ultimately show ?thesis using f(2) in3 y(1,3) by (intro exI[of _ st3] exI[of _ "coalesce pre x s post"]) auto
qed

lemma krealloc_move:
  assumes inv: "heap_inv st as" and x: "(x, s, False) \<in> set as" "ptr_of x p" and n: "0 < n" "n < 1073741824" "23 \<le> s"
    and fit: "(x0, s0, True) \<in> set as" "max n s + 23 \<le> s0"
    and room: "2 < oa_room (free_index (kheap st))" "1 < oa_room (used_index (kheap st))" "leak st = None" "kheap_set st"
    and lim: "end_address (kheap st) \<le> max_address (kheap st)" "end_address (kheap st) - start_address (kheap st) < 1572864"
    and big: "\<not> n \<le> s - 23"
  shows "\<exists>q st' as'. krealloc ops p n st = Some (q, st') \<and> heap_inv st' as' \<and> block as' q n \<and>
    (\<forall>i. p + i + 8 < x + s \<longrightarrow> kmem st' (q + i) = kmem st (p + i)) \<and>
    (\<forall>a t j. (a, t, False) \<in> set as \<and> a \<noteq> x \<and> a + 12 \<le> j \<and> j + 8 < a + t \<longrightarrow>
       (a, t, False) \<in> set as' \<and> kmem st' j = kmem st j)"
proof -
  have A: "area_ok (kmem st) x s False" "x + s \<le> end_address (kheap st)" "x + s < W32" "s < 2147483648" "0 < x"
    using heap_inv_areas[OF inv x(1)] by auto
  have hs: "hdr_size (kmem st) x = s" "20 < s" using A(1) by (simp_all add: area_ok_def)
  have ple: "p \<le> max_address (kheap st)" "0 < p" using x(2) A(2) hs(2) lim(1) by (auto simp: ptr_of_def)
  have fa: "find_area_and_validate p st = Some (Some (x, x + s - 8))" by (rule find_area_ok[OF inv x ple(1)])
  define N where "N = (if n \<le> s then s else n)"
  have N: "N = max n s" "0 < N" "s \<le> N" "n \<le> N" using n(1) by (auto simp: N_def)
  have tr: "trace_room st" "N < 1073741824" using room(3) A(2) lim n(2) inv
    heap_inv_areas[OF inv x(1)] by (auto simp: trace_room_def N_def)
  obtain y t pre post m as1 st1 where y: "as = pre @ (y, t, True) # post" "N + 23 \<le> t" "heap_alloc ops N False st = Some (dword_align (y + 12), st1)"
    "alloc_areas (N + 23) False y t pre post y m as1" "heap_inv st1 as1" "capacity st1 = capacity st"
    "Heap_Inv.frame (start_address (kheap st)) (end_address (kheap st)) st st1" "kept (kmem st) (kmem st1) (used_areas as)"
    using heap_alloc_areas[OF inv N(2) tr(2) fit(1) _ _ _ tr(1), of ops] fit(2) room(1,2) unfolding N(1) request_size_def by auto
  let ?q = "dword_align (y + 12)"
  have as1: "as1 = pre @ (y, m, False) # (if 36 \<le> t - (N + 23) then [(y + (N + 23), t - (N + 23), True)] else []) @ post"
    and m: "m = (if 36 \<le> t - (N + 23) then N + 23 else t)" using y(4) unfolding alloc_areas_def by auto
  have mem: "(y, m, False) \<in> set as1" "N + 23 \<le> m" "\<And>a t. (a, t, False) \<in> set as \<Longrightarrow> (a, t, False) \<in> set as1"
    using as1 m y(1,2) by auto
  have ym: "y + m < W32" "20 < m" using heap_inv_areas[OF y(5) mem(1)] by (auto simp: area_ok_def)
  have q: "ptr_of y ?q" using ym by (intro ptr_of_dword_align) simp
  have xy: "a \<noteq> y" if "(a, t', False) \<in> set as" for a t'
    using heap_inv_split_disjoint[OF inv[unfolded y(1)], of a t' False] that y(1,2) heap_inv_areas[OF inv that] by (auto simp: area_ok_def)
  have kp: "kmem st1 j = kmem st j" if "(a, t', False) \<in> set as" "a + 12 \<le> j" "j + 8 < a + t'" for a t' j
    using keptD[OF y(8)] that used_areas_iff by blast
  have cap: "oa_max_size (free_index (kheap st1)) = oa_max_size (free_index (kheap st))"
    "oa_max_size (used_index (kheap st1)) = oa_max_size (used_index (kheap st))" "leak st1 = None"
    using y(6) room(3) by (auto simp: capacity_def)
  have rooms: "0 < oa_room (free_index (kheap st1))" "0 < oa_room (used_index (kheap st1))"
    using oa_room_inv[OF y(5)] oa_room_inv[OF inv] room(1,2) cap(1,2) unfolding as1 y(1) by (auto split: if_splits)
  have fr: "end_address (kheap st1) \<le> max_address (kheap st1)" "end_address (kheap st1) - start_address (kheap st1) < 1572864"
    using y(7) lim by (simp_all add: Heap_Inv.frame_def)
  have fit2: "?q + s + 8 \<le> y + m" using q mem(2) N(3) by (simp add: ptr_of_def)
  obtain st3 as3 where f: "kfree ops p (st1\<lparr> kmem := memcpy (kmem st1) ?q p s \<rparr>) = Some st3" "heap_inv st3 as3" "(y, m, False) \<in> set as3"
    "\<forall>i. p + i + 8 < x + s \<longrightarrow> kmem st3 (?q + i) = kmem st1 (p + i)"
    "\<forall>a t j. (a, t, False) \<in> set as1 \<and> a \<noteq> x \<and> a \<noteq> y \<and> a + 12 \<le> j \<and> j + 8 < a + t \<longrightarrow> (a, t, False) \<in> set as3 \<and> kmem st3 j = kmem st1 j"
    using copy_and_free[OF y(5) mem(3)[OF x(1)] x(2) mem(1) q xy[OF x(1)] fit2 fr cap(3) rooms, of ops] by blast
  have hs1: "hdr_size (kmem st1) x = s" using heap_inv_areas[OF y(5) mem(3)[OF x(1)]] by (simp add: area_ok_def)
  have "kmalloc ops N st = Some (?q, st1)" using y(3) room(4) by (simp add: kmalloc_def kmalloc_int_def)
  then have "krealloc ops p n st = Some (?q, st3)"
    using fa hs hs1 n ple(2) A(5) A(3,4) big f(1) by (cases "n \<le> s") (simp_all add: krealloc_def Let_def N_def)
  moreover have "block as3 ?q n" unfolding block_def using f(3) q mem(2) N(4)
    by (intro exI[of _ y] exI[of _ m]) (auto simp: ptr_of_def)
  moreover have "kmem st3 (?q + i) = kmem st (p + i)" if "p + i + 8 < x + s" for i
    using f(4) kp[OF x(1), of "p + i"] that x(2) by (simp add: ptr_of_def)
  moreover have "(a, t', False) \<in> set as3 \<and> kmem st3 j = kmem st j"
    if "(a, t', False) \<in> set as" "a \<noteq> x" "a + 12 \<le> j" "j + 8 < a + t'" for a t' j
    using f(5) mem(3)[OF that(1)] xy[OF that(1)] kp[OF that(1,3,4)] that by metis
  ultimately show ?thesis using f(2) by (intro exI[of _ ?q] exI[of _ st3] exI[of _ as3]) blast
qed

text \<open>C8.  \<open>krealloc\<close> of a block: when the heap (smaller than the 1.5 MB at which it shrinks) has a hole for
  the larger of the new size and the old area, it returns a block of at least the requested size whose
  first bytes are the contents of the old block, all of them or as many as were usable, and leaves
  every other block where it was, with its contents unchanged.\<close>

theorem krealloc_keeps_contents:
  assumes inv: "heap_inv st as" and x: "(x, s, False) \<in> set as" "ptr_of x p" and n: "0 < n" "n < 1073741824" "23 \<le> s"
    and fit: "(x0, s0, True) \<in> set as" "max n s + 23 \<le> s0"
    and room: "2 < oa_room (free_index (kheap st))" "1 < oa_room (used_index (kheap st))" "leak st = None" "kheap_set st"
    and lim: "end_address (kheap st) \<le> max_address (kheap st)" "end_address (kheap st) - start_address (kheap st) < 1572864"
  shows "\<exists>q st' as'. krealloc ops p n st = Some (q, st') \<and> heap_inv st' as' \<and> block as' q n \<and>
    (\<forall>i. p + i + 8 < x + s \<longrightarrow> kmem st' (q + i) = kmem st (p + i)) \<and>
    (\<forall>a t j. (a, t, False) \<in> set as \<and> a \<noteq> x \<and> a + 12 \<le> j \<and> j + 8 < a + t \<longrightarrow>
       (a, t, False) \<in> set as' \<and> kmem st' j = kmem st j)"
proof (cases "n \<le> s - 23")
  case True
  have A: "area_ok (kmem st) x s False" "x + s \<le> end_address (kheap st)" "x + s < W32" "s < 2147483648" "0 < x"
    using heap_inv_areas[OF inv x(1)] by auto
  have hs: "hdr_size (kmem st) x = s" "20 < s" using A(1) by (simp_all add: area_ok_def)
  have ple: "p \<le> max_address (kheap st)" "0 < p" using x(2) A(2) hs(2) lim(1) by (auto simp: ptr_of_def)
  have fa: "find_area_and_validate p st = Some (Some (x, x + s - 8))" by (rule find_area_ok[OF inv x ple(1)])
  have "krealloc ops p n st = Some (p, st)" using True fa hs n ple(2) A(3-5) by (simp add: krealloc_def Let_def)
  moreover have "block as p n" unfolding block_def using x True n(3) by (intro exI[of _ x] exI[of _ s]) (auto simp: ptr_of_def)
  ultimately show ?thesis using inv by (intro exI[of _ p] exI[of _ st] exI[of _ as]) auto
next
  case False
  then show ?thesis by (rule krealloc_move[OF assms])
qed

theorem krealloc_keeps_contents_witness:
  "\<exists>q st' as'. krealloc no_vm 3221749772 500 heap_used = Some (q, st') \<and> heap_inv st' as' \<and> block as' q 500 \<and>
    (\<forall>i. 3221749772 + i + 8 < 3221749760 + 100 \<longrightarrow> kmem st' (q + i) = kmem heap_used (3221749772 + i)) \<and>
    (\<forall>a t j. (a, t, False) \<in> set [(3221749760, 100, False), (3221749860, 65436, True)] \<and> a \<noteq> 3221749760 \<and> a + 12 \<le> j \<and> j + 8 < a + t \<longrightarrow>
       (a, t, False) \<in> set as' \<and> kmem st' j = kmem heap_used j)"
  by (rule krealloc_keeps_contents[OF heap_used_inv, of 3221749760 100 3221749772 500 3221749860 65436])
    (simp_all add: concrete_heap ptr_of_def)

subsection \<open>Two arithmetic flaws\<close>

definition heap_tiny :: "unit kst" where
  "heap_tiny = kst_of (write_area 3221749781 65515 AREA_FREE (write_area 3221749760 21 AREA_USED (\<lambda>_. 0)))
     (kheap_of [3221749781] [3221749760] 3221749781)"

lemma heap_tiny_inv: "heap_inv heap_tiny [(3221749760, 21, False), (3221749781, 65515, True)]"
proof -
  let ?m = "write_area 3221749760 21 AREA_USED (\<lambda>_. 0)"
  have "area_ok (write_area 3221749781 65515 AREA_FREE ?m) 3221749760 21 False"
    using area_ok_cong[of 3221749760 21 ?m "write_area 3221749781 65515 AREA_FREE ?m" False]
    by (simp add: write_area_ok write_area_apply)
  then show ?thesis
    by (simp add: heap_inv_def hinv_def geom_def indexed_def concrete_heap heap_tiny_def oa_usable_def oa_ok_def oa_contents_def
        write_area_ok hdr_magic_def ld32_def ld8_def write_area_apply)
qed

text \<open>C18.  \<open>krealloc\<close> subtracts 23 from the size of the area without checking that it is that large.  The
  area of a page-aligned allocation of one or two bytes has 21 or 22 bytes, the difference wraps to
  almost 4 GB, and \<open>krealloc\<close> returns the old pointer for any larger size, without growing the block.\<close>

theorem krealloc_small_area_wraps:
  assumes "heap_inv st as" "(x, s, False) \<in> set as" "s < 23" "ptr_of x p" "p \<le> max_address (kheap st)" "0 < n" "n < 4294967290"
  shows "krealloc ops p n st = Some (p, st)"
proof -
  have A: "area_ok (kmem st) x s False" "0 < x" using heap_inv_areas[OF assms(1,2)] by auto
  then have hs: "hdr_size (kmem st) x = s" "20 < s" by (simp_all add: area_ok_def)
  have "sub32 s 23 = s + W32 - 23" using hs(2) assms(3) by (simp add: sub32_def)
  then have "n \<le> sub32 s 23" using hs(2) assms(7) by simp
  then show ?thesis using find_area_ok[OF assms(1,2,4,5)] hs A(2) assms(4,6) by (simp add: krealloc_def Let_def ptr_of_def)
qed

theorem krealloc_small_area_wraps_witness: "krealloc no_vm 3221749772 100000 heap_tiny = Some (3221749772, heap_tiny)"
  by (rule krealloc_small_area_wraps[OF heap_tiny_inv, of 3221749760 21])
    (simp_all add: ptr_of_def heap_tiny_def concrete_heap)


end
