(* ===== verification/Kstring.thy ===== *)
theory Kstring
  imports Heap
begin

text \<open>
  The string functions of \<open>src/lib/string.c\<close>, on the byte memory of the kernel.  A C string is an
  address; the loops run until they meet the terminating zero byte, so they are partial functions: a
  string that is not terminated makes the call not return.  \<open>NULL\<close> is the address 0.
\<close>

subsection \<open>Characters\<close>

definition isspace :: "8 word \<Rightarrow> bool" where
  "isspace c \<longleftrightarrow> c = 32 \<or> c = 10 \<or> c = 9 \<or> c = 11 \<or> c = 12 \<or> c = 13"

definition tolower :: "8 word \<Rightarrow> 8 word" where
  "tolower c = (if 65 \<le> c \<and> c \<le> 90 then or c 32 else c)"

subsection \<open>Copying, comparing and searching\<close>

partial_function (option) strlen_loop :: "mem \<Rightarrow> nat \<Rightarrow> nat \<Rightarrow> nat option" where
  "strlen_loop m str len = (if m str \<noteq> 0 then strlen_loop m (str + 1) (len + 1) else Some len)"

definition strlen :: "mem \<Rightarrow> nat \<Rightarrow> nat option" where
  "strlen m str = strlen_loop m str 0"

partial_function (option) strcpy :: "mem \<Rightarrow> nat \<Rightarrow> nat \<Rightarrow> mem option" where
  "strcpy m s1 s2 = (if m s2 \<noteq> 0 then strcpy (m(s1 := m s2)) (s1 + 1) (s2 + 1) else Some (m(s1 := 0)))"

definition byte_order :: "8 word \<Rightarrow> 8 word \<Rightarrow> int" where
  "byte_order a b = (if a < b then - 1 else 1)"

partial_function (option) strcmp :: "mem \<Rightarrow> nat \<Rightarrow> nat \<Rightarrow> int option" where
  "strcmp m s1 s2 = (if m s1 = m s2 then if m s1 = 0 then Some 0 else strcmp m (s1 + 1) (s2 + 1)
     else Some (byte_order (m s1) (m s2)))"

partial_function (option) stricmp :: "mem \<Rightarrow> nat \<Rightarrow> nat \<Rightarrow> int option" where
  "stricmp m s1 s2 = (if tolower (m s1) = tolower (m s2) then if m s1 = 0 then Some 0 else stricmp m (s1 + 1) (s2 + 1)
     else Some (byte_order (m s1) (m s2)))"

partial_function (option) strchr :: "mem \<Rightarrow> nat \<Rightarrow> 8 word \<Rightarrow> nat option" where
  "strchr m s c = (if m s \<noteq> 0 \<and> m s \<noteq> c then strchr m (s + 1) c else Some (if m s = c then s else 0))"

partial_function (option) strrchr_loop :: "mem \<Rightarrow> nat \<Rightarrow> nat \<Rightarrow> 8 word \<Rightarrow> nat option" where
  "strrchr_loop m s p c = (if p > s \<and> m p \<noteq> c then strrchr_loop m s (p - 1) c else Some (if m p = c then p else 0))"

definition strrchr :: "mem \<Rightarrow> nat \<Rightarrow> 8 word \<Rightarrow> nat option" where
  "strrchr m s c = do {
     len \<leftarrow> strlen m s;
     if len = 0 then Some 0 else strrchr_loop m s (s + len - 1) c }"

text \<open>The loops of \<open>strncmp\<close> and \<open>strnicmp\<close>; the last argument is the number of bytes still to compare.\<close>

definition sign_of :: "8 word \<Rightarrow> 8 word \<Rightarrow> int" where
  "sign_of uc1 uc2 = (if uc1 < uc2 then - 1 else if uc1 > uc2 then 1 else 0)"

primrec strncmp_loop :: "(8 word \<Rightarrow> 8 word) \<Rightarrow> mem \<Rightarrow> nat \<Rightarrow> nat \<Rightarrow> nat \<Rightarrow> int" where
  "strncmp_loop f m s1 s2 0 = sign_of (m s1) (m s2)"
| "strncmp_loop f m s1 s2 (Suc n) =
    (if f (m s1) = f (m s2) then if n = 0 \<or> m s1 = 0 then 0 else strncmp_loop f m (s1 + 1) (s2 + 1) n
     else sign_of (m s1) (m s2))"

definition strncmp :: "mem \<Rightarrow> nat \<Rightarrow> nat \<Rightarrow> nat \<Rightarrow> int" where
  "strncmp m s1 s2 n = (if n = 0 \<or> s1 = 0 \<or> s2 = 0 then 0 else strncmp_loop (\<lambda>c. c) m s1 s2 n)"

definition strnicmp :: "mem \<Rightarrow> nat \<Rightarrow> nat \<Rightarrow> nat \<Rightarrow> int" where
  "strnicmp m s1 s2 n = (if n = 0 \<or> s1 = 0 \<or> s2 = 0 then 0 else strncmp_loop tolower m s1 s2 n)"

primrec memcmp :: "mem \<Rightarrow> nat \<Rightarrow> nat \<Rightarrow> nat \<Rightarrow> int" where
  "memcmp m us1 us2 0 = 0"
| "memcmp m us1 us2 (Suc n) =
    (if m us1 \<noteq> m us2 then byte_order (m us1) (m us2) else memcmp m (us1 + 1) (us2 + 1) n)"

partial_function (option) strstr_skip :: "mem \<Rightarrow> nat \<Rightarrow> nat \<Rightarrow> nat option" where
  "strstr_skip m p1 p2 = (if m p1 \<noteq> 0 \<and> m p2 \<noteq> 0 \<and> m p1 \<noteq> m p2 then strstr_skip m (p1 + 1) p2 else Some p1)"

partial_function (option) strstr_match :: "mem \<Rightarrow> nat \<Rightarrow> nat \<Rightarrow> (nat \<times> nat) option" where
  "strstr_match m p1 p2 = (if m p2 \<noteq> 0 \<and> m p1 = m p2 then strstr_match m (p1 + 1) (p2 + 1) else Some (p1, p2))"

partial_function (option) strstr_loop :: "mem \<Rightarrow> nat \<Rightarrow> nat \<Rightarrow> nat option" where
  "strstr_loop m p1 needle = do {
     match \<leftarrow> strstr_skip m p1 needle;
     if m match = 0 \<or> m needle = 0 then Some 0 else do {
       (q1, q2) \<leftarrow> strstr_match m match needle;
       if m q2 = 0 then Some match else strstr_loop m q1 needle } }"

definition strstr :: "mem \<Rightarrow> nat \<Rightarrow> nat \<Rightarrow> nat option" where
  "strstr m haystack needle = (if m needle = 0 then Some haystack else strstr_loop m haystack needle)"

text \<open>The loop that copies \<open>size - 1\<close> bytes is the forward copy \<open>memcpy\<close>.\<close>

definition strlcpy :: "mem \<Rightarrow> nat \<Rightarrow> nat \<Rightarrow> nat \<Rightarrow> (nat \<times> mem) option" where
  "strlcpy m dst src sz = do {
     len \<leftarrow> strlen m src;
     if sz \<ge> len + 1 then do { m' \<leftarrow> strcpy m dst src; Some (len, m') }
     else if sz = 0 then Some (len, m)
     else Some (len, (memcpy m dst src (sz - 1))(dst + (sz - 1) := 0)) }"

definition strlcat :: "mem \<Rightarrow> nat \<Rightarrow> nat \<Rightarrow> nat \<Rightarrow> (nat \<times> mem) option" where
  "strlcat m dst src sz = do {
     used \<leftarrow> strlen m dst;
     len \<leftarrow> strlen m src;
     let m' = (if sz > 0 \<and> used < sz - 1
       then (let copy = (if len \<ge> sz - used then sz - used - 1 else len)
             in (memcpy m (dst + used) src copy)(dst + used + copy := 0))
       else m);
     Some (used + len, m') }"

definition strdup :: "'v vm_ops \<Rightarrow> nat \<Rightarrow> 'v kst \<Rightarrow> (nat \<times> 'v kst) option" where
  "strdup ops s st = (if s = 0 then Some (0, st) else do {
     len \<leftarrow> strlen (kmem st) s;
     (ret, st1) \<leftarrow> kmalloc ops (len + 1) st;
     (n, m') \<leftarrow> strlcpy (kmem st1) ret s (len + 1);
     Some (ret, st1\<lparr> kmem := m' \<rparr>) })"

subsection \<open>Tokens\<close>

partial_function (option) span_loop :: "bool \<Rightarrow> mem \<Rightarrow> nat \<Rightarrow> nat \<Rightarrow> nat option" where
  "span_loop want m sc1 s2 = (if m sc1 \<noteq> 0 then do {
       r \<leftarrow> strchr m s2 (m sc1);
       if (r \<noteq> 0) = want then span_loop want m (sc1 + 1) s2 else Some sc1 }
     else Some sc1)"

definition strcspn :: "mem \<Rightarrow> nat \<Rightarrow> nat \<Rightarrow> nat option" where
  "strcspn m s1 s2 = do { sc1 \<leftarrow> span_loop False m s1 s2; Some (sc1 - s1) }"

definition strspn :: "mem \<Rightarrow> nat \<Rightarrow> nat \<Rightarrow> nat option" where
  "strspn m s1 s2 = do { sc1 \<leftarrow> span_loop True m s1 s2; Some (sc1 - s1) }"

text \<open>\<open>lit_empty\<close> is the address of the literal \<open>""\<close>; the result is the token (0 for none), the memory and
  the new value of \<open>*lasts\<close>.\<close>

definition strtok_r :: "nat \<Rightarrow> mem \<Rightarrow> nat \<Rightarrow> nat \<Rightarrow> nat \<Rightarrow> (nat \<times> mem \<times> nat) option" where
  "strtok_r lit_empty m s delimiters lasts = do {
     let sbegin0 = (if s \<noteq> 0 then s else lasts);
     n \<leftarrow> strspn m sbegin0 delimiters;
     let sbegin = sbegin0 + n;
     if m sbegin = 0 then Some (0, m, lit_empty) else do {
       k \<leftarrow> strcspn m sbegin delimiters;
       let send = sbegin + k;
       if m send \<noteq> 0 then Some (sbegin, m(send := 0), send + 1) else Some (sbegin, m, send) } }"

partial_function (option) trim_left :: "mem \<Rightarrow> nat \<Rightarrow> nat option" where
  "trim_left m str = (if isspace (m str) then trim_left m (str + 1) else Some str)"

partial_function (option) trim_right :: "mem \<Rightarrow> nat \<Rightarrow> nat \<Rightarrow> nat option" where
  "trim_right m str e = (if e > str \<and> isspace (m e) then trim_right m str (e - 1) else Some e)"

definition trim :: "mem \<Rightarrow> nat \<Rightarrow> (nat \<times> mem) option" where
  "trim m str0 = do {
     len \<leftarrow> strlen m str0;
     if len = 0 then Some (str0, m) else do {
       str \<leftarrow> trim_left m str0;
       if m str = 0 then Some (str, m) else do {
         len' \<leftarrow> strlen m str;
         e \<leftarrow> trim_right m str (str + len' - 1);
         Some (str, m(e + 1 := 0)) } } }"

subsection \<open>Strings in memory\<close>

fun cstr :: "mem \<Rightarrow> nat \<Rightarrow> 8 word list \<Rightarrow> bool" where
  "cstr m a [] \<longleftrightarrow> m a = 0"
| "cstr m a (c # s) \<longleftrightarrow> m a = c \<and> c \<noteq> 0 \<and> cstr m (a + 1) s"

lemma cstr_nth: "cstr m a s \<longleftrightarrow> (\<forall>i < length s. m (a + i) = s ! i \<and> s ! i \<noteq> 0) \<and> m (a + length s) = 0"
proof (induction s arbitrary: a)
  case (Cons c s)
  have "(\<forall>i < length (c # s). m (a + i) = (c # s) ! i \<and> (c # s) ! i \<noteq> 0) \<longleftrightarrow>
      m a = c \<and> c \<noteq> 0 \<and> (\<forall>i < length s. m (a + 1 + i) = s ! i \<and> s ! i \<noteq> 0)"
    by (auto simp: All_less_Suc2)
  then show ?case using Cons.IH[of "a + 1"] by auto
qed simp

lemma cstr_cong: "(\<And>i. a \<le> i \<Longrightarrow> i \<le> a + length s \<Longrightarrow> m' i = m i) \<Longrightarrow> cstr m' a s = cstr m a s"
  unfolding cstr_nth by auto

lemma cstr_append: "cstr m a (s @ t) \<longleftrightarrow> (\<forall>i < length s. m (a + i) = s ! i \<and> s ! i \<noteq> 0) \<and> cstr m (a + length s) t"
proof (induction s arbitrary: a)
  case (Cons c s)
  have "(\<forall>i < length (c # s). m (a + i) = (c # s) ! i \<and> (c # s) ! i \<noteq> 0) \<longleftrightarrow>
      m a = c \<and> c \<noteq> 0 \<and> (\<forall>i < length s. m (a + 1 + i) = s ! i \<and> s ! i \<noteq> 0)"
    by (auto simp: All_less_Suc2)
  then show ?case using Cons.IH[of "a + 1"] by auto
qed simp

lemma cstr_nonzero: "cstr m a s \<Longrightarrow> 0 \<notin> set s"
  by (induction s arbitrary: a) auto

lemma cstr_unique: "cstr m a s \<Longrightarrow> cstr m a t \<Longrightarrow> s = t"
proof (induction s arbitrary: a t)
  case Nil
  then show ?case by (cases t) auto
next
  case (Cons c s)
  then show ?case by (cases t) auto
qed

lemma strlen_loop_eq: "cstr m a s \<Longrightarrow> strlen_loop m a n = Some (n + length s)"
  by (induction s arbitrary: a n) (simp_all add: strlen_loop.simps)

lemma strlen_eq [simp]: "cstr m a s \<Longrightarrow> strlen m a = Some (length s)"
  by (simp add: strlen_def strlen_loop_eq)

lemma strcpy_ok:
  assumes "cstr m src s" "dst + length s < src \<or> src + length s < dst"
  shows "\<exists>m'. strcpy m dst src = Some m' \<and> cstr m' dst s \<and> (\<forall>i. i < dst \<or> dst + length s < i \<longrightarrow> m' i = m i)"
  using assms
proof (induction s arbitrary: m dst src)
  case (Cons c s)
  let ?m = "m(dst := c)"
  have t: "cstr ?m (src + 1) s" using Cons.prems cstr_cong[of "src + 1" s ?m m] by auto
  have d: "dst + 1 + length s < src + 1 \<or> src + 1 + length s < dst + 1" using Cons.prems(2) by auto
  obtain m' where m': "strcpy ?m (dst + 1) (src + 1) = Some m'" "cstr m' (dst + 1) s"
    "\<forall>i. i < dst + 1 \<or> dst + 1 + length s < i \<longrightarrow> m' i = ?m i"
    using Cons.IH[OF t d] by blast
  then have "strcpy m dst src = Some m'" using Cons.prems(1) by (subst strcpy.simps) auto
  moreover have "cstr m' dst (c # s)" using m'(2,3) Cons.prems(1) by simp
  moreover have "m' i = m i" if "i < dst \<or> dst + length (c # s) < i" for i
  proof -
    have "i < dst + 1 \<or> dst + 1 + length s < i" "i \<noteq> dst" using that by auto
    then show ?thesis using m'(3) by auto
  qed
  ultimately show ?case by blast
qed (simp add: strcpy.simps)

lemma strcmp_ok:
  "cstr m a s \<Longrightarrow> cstr m b t \<Longrightarrow> strcmp m a b = Some (if s = t then 0 else if ord_class.lexordp s t then - 1 else 1)"
proof (induction s arbitrary: a b t)
  case Nil
  then show ?case by (cases t) (auto simp: strcmp.simps[of m a b] byte_order_def word_gt_0)
next
  case (Cons c s)
  then show ?case by (cases t) (auto simp: strcmp.simps[of m a b] byte_order_def word_gt_0)
qed

lemma strchr_ok:
  "cstr m a s \<Longrightarrow> c \<noteq> 0 \<Longrightarrow> strchr m a c = Some (if c \<in> set s then a + length (takeWhile (\<lambda>x. x \<noteq> c) s) else 0)"
proof (induction s arbitrary: a)
  case (Cons x s)
  then show ?case by (subst strchr.simps) auto
qed (simp add: strchr.simps)

lemma strchr_found: "cstr m a s \<Longrightarrow> 0 < a \<Longrightarrow> c \<noteq> 0 \<Longrightarrow> \<exists>r. strchr m a c = Some r \<and> (r \<noteq> 0 \<longleftrightarrow> c \<in> set s)"
  by (simp add: strchr_ok)

lemma span_loop_ok:
  assumes "cstr m d ds" "0 < d" "cstr m a s"
  shows "span_loop want m a d = Some (a + length (takeWhile (\<lambda>c. (c \<in> set ds) = want) s))"
  using assms(3)
proof (induction s arbitrary: a)
  case (Cons c s)
  obtain r where r: "strchr m d c = Some r" "r \<noteq> 0 \<longleftrightarrow> c \<in> set ds" using strchr_found[OF assms(1,2)] Cons.prems by auto
  show ?case
  proof (cases "(c \<in> set ds) = want")
    case True
    then have "span_loop want m a d = span_loop want m (a + 1) d" using Cons.prems r by (subst span_loop.simps) auto
    then show ?thesis using Cons.IH[of "a + 1"] Cons.prems True by simp
  next
    case False
    then show ?thesis using Cons.prems r by (subst span_loop.simps) auto
  qed
qed (simp add: span_loop.simps)

lemma strspn_ok: "cstr m d ds \<Longrightarrow> 0 < d \<Longrightarrow> cstr m a s \<Longrightarrow> strspn m a d = Some (length (takeWhile (\<lambda>c. c \<in> set ds) s))"
  using span_loop_ok[of m d ds a s True] by (simp add: strspn_def)

lemma strcspn_ok: "cstr m d ds \<Longrightarrow> 0 < d \<Longrightarrow> cstr m a s \<Longrightarrow> strcspn m a d = Some (length (takeWhile (\<lambda>c. c \<notin> set ds) s))"
  using span_loop_ok[of m d ds a s False] by (simp add: strcspn_def)

subsection \<open>Properties\<close>

text \<open>A memory with the strings \<open>"/usr//bin"\<close> at 100, \<open>"/"\<close> at 200 and \<open>"/usr/lib"\<close> at 300.\<close>

definition bytes_at :: "nat \<Rightarrow> 8 word list \<Rightarrow> mem \<Rightarrow> mem" where
  "bytes_at a bs m = (\<lambda>i. if a \<le> i \<and> i < a + length bs then bs ! (i - a) else m i)"

definition str_mem :: mem where
  "str_mem = bytes_at 100 [47, 117, 115, 114, 47, 47, 98, 105, 110] (bytes_at 200 [47]
     (bytes_at 300 [47, 117, 115, 114, 47, 108, 105, 98] (\<lambda>_. 0)))"

definition usr_bin :: "8 word list" where "usr_bin = [47, 117, 115, 114, 47, 47, 98, 105, 110]"
definition usr_lib :: "8 word list" where "usr_lib = [47, 117, 115, 114, 47, 108, 105, 98]"
definition slash :: "8 word list" where "slash = [47]"

lemma str_mem_strings:
  "cstr str_mem 100 usr_bin" "cstr str_mem 200 slash" "cstr str_mem 300 usr_lib"
  by (simp_all add: str_mem_def bytes_at_def usr_bin_def usr_lib_def slash_def)

text \<open>C15.  \<open>strcmp\<close> of two terminated strings returns 0 exactly when they are equal, and otherwise -1 or 1
  according to the lexicographic order of their bytes taken as unsigned.\<close>

theorem strcmp_lexicographic:
  assumes "cstr m a s" "cstr m b t"
  shows "strcmp m a b = Some (if s = t then 0 else if ord_class.lexordp s t then - 1 else 1)"
  by (rule strcmp_ok[OF assms])

theorem strcmp_lexicographic_witness:
  "strcmp str_mem 100 300 = Some (if usr_bin = usr_lib then 0
    else if ord_class.lexordp usr_bin usr_lib then - 1 else 1)"
  by (rule strcmp_lexicographic[OF str_mem_strings(1,3)])

lemma memcpy_prefix:
  "dst + n \<le> src \<or> src + n \<le> dst \<Longrightarrow> i < n \<Longrightarrow> memcpy m dst src n (dst + i) = m (src + i)"
  by (rule memcpy_disjoint[of n]) auto

text \<open>C14.  \<open>strlcpy\<close> into a buffer of \<open>sz > 0\<close> bytes that does not overlap the source returns the length of
  the source, leaves in the buffer the longest prefix of the source that fits together with its
  terminating zero, and changes no byte outside the buffer.\<close>

theorem strlcpy_bounded:
  assumes "cstr m src s" "0 < sz" "dst + sz \<le> src \<or> src + length s < dst"
  shows "\<exists>m'. strlcpy m dst src sz = Some (length s, m') \<and> cstr m' dst (take (sz - 1) s) \<and>
    (\<forall>i. i < dst \<or> dst + sz \<le> i \<longrightarrow> m' i = m i)"
proof (cases "length s + 1 \<le> sz")
  case True
  then have d: "dst + length s < src \<or> src + length s < dst" using assms(3) by auto
  obtain m' where "strcpy m dst src = Some m'" "cstr m' dst s" "\<forall>i. i < dst \<or> dst + length s < i \<longrightarrow> m' i = m i"
    using strcpy_ok[OF assms(1) d] by blast
  then show ?thesis using True assms(1) by (auto simp: strlcpy_def)
next
  case False
  obtain n where n: "sz = Suc n" using assms(2) by (cases sz) auto
  let ?m = "(memcpy m dst src (sz - 1))(dst + (sz - 1) := 0)"
  have "?m (dst + i) = s ! i \<and> s ! i \<noteq> 0" if "i < n" for i
  proof -
    have "memcpy m dst src n (dst + i) = m (src + i)" using assms(3) False n that by (intro memcpy_prefix) auto
    then show ?thesis using assms(1) False n that by (simp add: cstr_nth)
  qed
  then have "cstr ?m dst (take (sz - 1) s)" using False n by (simp add: cstr_nth)
  moreover have "?m i = m i" if "i < dst \<or> dst + sz \<le> i" for i
    using that assms(2) by (auto simp: memcpy_outside)
  ultimately show ?thesis using False assms by (auto simp: strlcpy_def)
qed

theorem strlcpy_bounded_witness:
  "\<exists>m'. strlcpy str_mem 50 100 5 = Some (length usr_bin, m') \<and>
    cstr m' 50 (take (5 - 1) usr_bin) \<and> (\<forall>i. i < 50 \<or> 50 + 5 \<le> i \<longrightarrow> m' i = str_mem i)"
  by (rule strlcpy_bounded[OF str_mem_strings(1)]) simp_all



subsection \<open>Searching for a substring\<close>

lemma strstr_skip_ok:
  "cstr m a s \<Longrightarrow> m n \<noteq> 0 \<Longrightarrow> \<exists>k. strstr_skip m a n = Some (a + k) \<and> k \<le> length s \<and> (k < length s \<longrightarrow> s ! k = m n) \<and> (\<forall>j<k. s ! j \<noteq> m n)"
proof (induction s arbitrary: a)
  case (Cons c s)
  show ?case
  proof (cases "c = m n")
    case True
    then show ?thesis using Cons.prems by (intro exI[of _ 0]) (simp add: strstr_skip.simps)
  next
    case False
    obtain k where k: "strstr_skip m (a + 1) n = Some (a + 1 + k)" "k \<le> length s" "k < length s \<longrightarrow> s ! k = m n" "\<forall>j<k. s ! j \<noteq> m n"
      using Cons.IH[of "a + 1"] Cons.prems by (metis cstr.simps(2))
    have "strstr_skip m a n = strstr_skip m (a + 1) n" using Cons.prems False by (subst strstr_skip.simps) auto
    then show ?thesis using k False by (intro exI[of _ "Suc k"]) (auto simp: nth_Cons')
  qed
qed (simp add: strstr_skip.simps)

lemma strstr_match_ok:
  "cstr m a s \<Longrightarrow> cstr m b t \<Longrightarrow> \<exists>k. strstr_match m a b = Some (a + k, b + k) \<and> k \<le> length s \<and> k \<le> length t \<and>
     take k s = take k t \<and> (k < length t \<longrightarrow> \<not> (k < length s \<and> s ! k = t ! k))"
proof (induction s arbitrary: a b t)
  case Nil
  then show ?case by (intro exI[of _ 0]) (cases t, auto simp: strstr_match.simps)
next
  case (Cons c s)
  show ?case
  proof (cases "\<exists>t'. t = c # t'")
    case True
    then obtain t' where t: "t = c # t'" by blast
    obtain k where k: "strstr_match m (a + 1) (b + 1) = Some (a + 1 + k, b + 1 + k)" "k \<le> length s" "k \<le> length t'"
      "take k s = take k t'" "k < length t' \<longrightarrow> \<not> (k < length s \<and> s ! k = t' ! k)"
      using Cons.IH[of "a + 1" "b + 1" t'] Cons.prems t by auto
    have "strstr_match m a b = strstr_match m (a + 1) (b + 1)" using Cons.prems t by (subst strstr_match.simps) auto
    then show ?thesis using k t by (intro exI[of _ "Suc k"]) auto
  next
    case False
    then show ?thesis using Cons.prems by (intro exI[of _ 0]) (cases t, auto simp: strstr_match.simps)
  qed
qed

lemma strstr_loop_ok:
  "cstr m a s \<Longrightarrow> cstr m n t \<Longrightarrow> t \<noteq> [] \<Longrightarrow> 0 < a \<Longrightarrow>
   \<exists>r. strstr_loop m a n = Some r \<and> (r \<noteq> 0 \<longrightarrow> (\<exists>k. r = a + k \<and> k + length t \<le> length s \<and> take (length t) (drop k s) = t))"
proof (induction "length s" arbitrary: a s rule: less_induct)
  case less
  obtain c t' where t: "t = c # t'" using less.prems(3) by (cases t) auto
  have n0: "m n \<noteq> 0" "m n = c" using less.prems(2) t by auto
  obtain k where k: "strstr_skip m a n = Some (a + k)" "k \<le> length s" "k < length s \<longrightarrow> s ! k = c"
    using strstr_skip_ok[OF less.prems(1) n0(1)] n0(2) by auto
  have sd: "cstr m (a + k) (drop k s)"
    using less.prems(1) k(2) cstr_append[of m a "take k s" "drop k s"] by simp
  show ?case
  proof (cases "k < length s")
    case False
    then have "m (a + k) = 0" using sd k(2) by simp
    then show ?thesis using k(1) by (intro exI[of _ 0]) (simp add: strstr_loop.simps)
  next
    case True
    have z: "m (a + k) \<noteq> 0" using sd True by (simp add: Cons_nth_drop_Suc[symmetric])
    obtain l where l: "strstr_match m (a + k) n = Some (a + k + l, n + l)" "l \<le> length (drop k s)" "l \<le> length t" "take l (drop k s) = take l t"
      "l < length t \<longrightarrow> \<not> (l < length (drop k s) \<and> drop k s ! l = t ! l)"
      using strstr_match_ok[OF sd less.prems(2)] by blast
    have eq: "strstr_loop m a n = (if m (n + l) = 0 then Some (a + k) else strstr_loop m (a + k + l) n)"
      using k(1) l(1) z n0(1) by (subst strstr_loop.simps) simp
    show ?thesis
    proof (cases "l = length t")
      case True
      then have "m (n + l) = 0" using less.prems(2) by (simp add: cstr_nth)
      then show ?thesis using eq True l(2,4) k(2) by (intro exI[of _ "a + k"]) (auto intro!: exI[of _ k])
    next
      case False
      then have l': "l < length t" using l(3) by simp
      then have nz: "m (n + l) \<noteq> 0" using less.prems(2) by (simp add: cstr_nth)
      have "0 < l"
      proof (rule ccontr)
        assume "\<not> 0 < l"
        then show False using l(5) l' True k(3) t by (simp add: nth_drop)
      qed
      then have small: "length (drop (k + l) s) < length s" using True by simp
      have "cstr m (a + (k + l)) (drop (k + l) s)"
        using less.prems(1) l(2) k(2) cstr_append[of m a "take (k + l) s" "drop (k + l) s"] by simp
      then obtain r where r: "strstr_loop m (a + (k + l)) n = Some r"
        "r \<noteq> 0 \<longrightarrow> (\<exists>j. r = a + (k + l) + j \<and> j + length t \<le> length (drop (k + l) s) \<and> take (length t) (drop j (drop (k + l) s)) = t)"
        using less.hyps[OF small _ less.prems(2,3)] less.prems(4) by auto
      have "\<exists>j. r = a + j \<and> j + length t \<le> length s \<and> take (length t) (drop j s) = t" if rz: "r \<noteq> 0"
      proof -
        obtain j where "r = a + (k + l) + j" "j + length t \<le> length s - (k + l)" "take (length t) (drop j (drop (k + l) s)) = t"
          using r(2) rz by auto
        then show ?thesis using l(2) k(2) by (intro exI[of _ "k + l + j"]) (auto simp: add.commute)
      qed
      then show ?thesis using eq nz r(1) by (auto simp: add.assoc)
    qed
  qed
qed

text \<open>\<open>strstr\<close> on terminated strings returns, and a non-\<open>NULL\<close> result is an occurrence of the needle in
  the haystack.\<close>

theorem strstr_sound:
  assumes "cstr m a s" "cstr m n t" "0 < a"
  shows "\<exists>r. strstr m a n = Some r \<and> (r \<noteq> 0 \<longrightarrow> (\<exists>k. r = a + k \<and> k + length t \<le> length s \<and> take (length t) (drop k s) = t))"
proof (cases t)
  case Nil
  then show ?thesis using assms(2) by (intro exI[of _ a]) (auto simp: strstr_def)
next
  case (Cons c t')
  then show ?thesis using strstr_loop_ok[OF assms(1,2) _ assms(3)] assms(2) by (simp add: strstr_def)
qed

theorem strstr_sound_witness:
  "\<exists>r. strstr str_mem 100 200 = Some r \<and> (r \<noteq> 0 \<longrightarrow> (\<exists>k. r = 100 + k \<and> k + length slash \<le> length usr_bin \<and> take (length slash) (drop k usr_bin) = slash))"
  by (rule strstr_sound[OF str_mem_strings(1,2)]) simp


end
