(* ===== verification/Kstdlib.thy ===== *)
theory Kstdlib
  imports Prelude
begin

text \<open>
  \<open>src/lib/stdlib.c\<close> and \<open>src/lib/vsprintf.c\<close>: conversion between numbers and strings.  A C string is
  represented by its characters without the terminating zero; \<open>int\<close> and \<open>signed long\<close> are 32 bits wide
  and wrap.
\<close>

subsection \<open>Numbers and strings\<close>

definition wrap32 :: "int \<Rightarrow> int" where
  "wrap32 i = s32 (u32 i)"

text \<open>\<open>reverse\<close>: the index \<open>j\<close> starts at \<open>strlen(s) - 1\<close>, which wraps when the string is empty.\<close>

function reverse_loop :: "string \<Rightarrow> nat \<Rightarrow> nat \<Rightarrow> string option" where
  "reverse_loop s i j = (if i < j then do {
       a \<leftarrow> rd s j;
       b \<leftarrow> rd s i;
       s1 \<leftarrow> wr s j b;
       s2 \<leftarrow> wr s1 i a;
       reverse_loop s2 (i + 1) (j - 1) }
     else Some s)"
  by pat_completeness auto
termination
  by (relation "measure (\<lambda>(s, i, j). j - i)") auto

declare reverse_loop.simps [simp del]

definition reverse :: "string \<Rightarrow> string option" where
  "reverse s = reverse_loop s 0 (sub32 (length s) 1)"

text \<open>The digit loop of \<open>itoa\<close>, least significant digit first.\<close>

function itoa_digits :: "int \<Rightarrow> string" where
  "itoa_digits n = (if n > 0 then char_of (48 + nat (n mod 10)) # itoa_digits (n div 10) else [])"
  by pat_completeness auto
termination
  by (relation "measure nat") auto

declare itoa_digits.simps [simp del]

definition itoa :: "int \<Rightarrow> string option" where
  "itoa n = (if n = 0 then Some ''0'' else
     reverse (itoa_digits (if n < 0 then wrap32 (- n) else n) @ (if n < 0 then ''-'' else [])))"

record prng = next_val :: nat

definition rand :: "prng \<Rightarrow> nat \<times> prng" where
  "rand st = (let n = add32 (mul32 (next_val st) 1103515245) 12345 in (n div 65536 mod 32768, st\<lparr> next_val := n \<rparr>))"

definition srand :: "nat \<Rightarrow> prng \<Rightarrow> prng" where
  "srand seed st = st\<lparr> next_val := seed \<rparr>"

definition isdigit :: "char \<Rightarrow> bool" where
  "isdigit c \<longleftrightarrow> 48 \<le> (of_char c :: nat) \<and> (of_char c :: nat) \<le> 57"

primrec ipow_loop :: "int \<Rightarrow> nat \<Rightarrow> int \<Rightarrow> int" where
  "ipow_loop base 0 result = result"
| "ipow_loop base (Suc e) result = ipow_loop base e (wrap32 (result * base))"

definition ipow :: "int \<Rightarrow> int \<Rightarrow> int" where
  "ipow base e = (if base = 0 then 0 else if e < 0 then 0 else if e = 0 then 1 else ipow_loop base (nat e) 1)"

definition atoi_sum :: "string \<Rightarrow> int" where
  "atoi_sum ds = foldl (\<lambda>num i. wrap32 (num + wrap32 ((of_char (ds ! i) - 48) * ipow 10 (int (length ds - i - 1))))) 0 [0..<length ds]"

definition atoi :: "string \<Rightarrow> int" where
  "atoi str = (if str = [] then 0 else
     let s1 = dropWhile (\<lambda>c. \<not> isdigit c \<and> c \<noteq> CHR ''-'') str;
         neg = (s1 \<noteq> [] \<and> hd s1 = CHR ''-'');
         s2 = (if neg then tl s1 else s1);
         ds = takeWhile isdigit s2
     in wrap32 (atoi_sum ds * (if neg then - 1 else 1)))"

subsection \<open>Formatted output\<close>

record flags =
  ZEROPAD :: bool
  SIGN :: bool
  PLUS :: bool
  SPACE :: bool
  LEFT :: bool
  SPECIAL :: bool
  SMALL :: bool

definition no_flags :: flags where
  "no_flags = \<lparr> ZEROPAD = False, SIGN = False, PLUS = False, SPACE = False, LEFT = False, SPECIAL = False, SMALL = False \<rparr>"

definition digit_char :: "bool \<Rightarrow> nat \<Rightarrow> char" where
  "digit_char small d = char_of (if d < 10 then 48 + d else (if small then 97 else 65) + (d - 10))"

text \<open>The digits of \<open>num\<close>, least significant first; \<open>do_div\<close> divides as unsigned.\<close>

function number_digits :: "bool \<Rightarrow> nat \<Rightarrow> nat \<Rightarrow> string" where
  "number_digits small base num =
    (if num = 0 \<or> base < 2 then [] else digit_char small (num mod base) # number_digits small base (num div base))"
  by pat_completeness auto
termination
  by (relation "measure (\<lambda>(small, base, num). num)") auto

declare number_digits.simps [simp del]

text \<open>\<open>number\<close> returns the characters it stores.  \<open>num\<close> is given by its 32 bits.  The first loop over
  \<open>size\<close> leaves it at -1, so at most one of the three padding loops writes anything.\<close>

definition number :: "nat \<Rightarrow> nat \<Rightarrow> int \<Rightarrow> int \<Rightarrow> flags \<Rightarrow> string" where
  "number num base sz precision fl =
    (if base < 2 \<or> base > 36 then [] else
     let fl = (if LEFT fl then fl\<lparr> ZEROPAD := False \<rparr> else fl);
         c = (if ZEROPAD fl then CHR ''0'' else CHR '' '');
         neg = (SIGN fl \<and> s32 num < 0);
         mag = (if neg then u32 (- s32 num) else num);
         sign = (if neg then ''-'' else if PLUS fl then ''+'' else if SPACE fl then '' '' else []);
         sz1 = (if sign \<noteq> [] then sz - 1 else sz);
         sz2 = (if SPECIAL fl then if base = 16 then sz1 - 2 else if base = 8 then sz1 - 1 else sz1 else sz1);
         tmp = (if mag = 0 then ''0'' else number_digits (SMALL fl) base mag);
         prec = (if int (length tmp) > precision then int (length tmp) else precision);
         pad = nat (sz2 - prec);
         special = (if SPECIAL fl then if base = 8 then ''0'' else if base = 16 then [CHR ''0'', digit_char (SMALL fl) 33] else [] else [])
     in (if \<not> ZEROPAD fl \<and> \<not> LEFT fl then replicate pad (CHR '' '') else []) @ sign @ special @
        (if \<not> LEFT fl \<and> ZEROPAD fl then replicate pad c else []) @
        replicate (nat (prec - int (length tmp))) (CHR ''0'') @ rev tmp @
        (if LEFT fl then replicate pad (CHR '' '') else []))"

text \<open>The arguments of a call: 32-bit values (integers and pointers) and strings.\<close>

datatype va_arg = VWord nat | VStr string

fun next_word :: "va_arg list \<Rightarrow> (nat \<times> va_arg list) option" where
  "next_word (VWord w # as) = Some (w, as)"
| "next_word _ = None"

fun next_str :: "va_arg list \<Rightarrow> (string \<times> va_arg list) option" where
  "next_str (VStr s # as) = Some (s, as)"
| "next_str _ = None"

definition skip_atoi :: "string \<Rightarrow> int \<times> string" where
  "skip_atoi s = (foldl (\<lambda>i c. wrap32 (wrap32 (i * 10) + of_char c - 48)) 0 (takeWhile isdigit s), dropWhile isdigit s)"

fun fmt_flags :: "string \<Rightarrow> flags \<Rightarrow> flags \<times> string" where
  "fmt_flags [] fl = (fl, [])"
| "fmt_flags (c # s) fl =
    (if c = CHR ''-'' then fmt_flags s (fl\<lparr> LEFT := True \<rparr>)
     else if c = CHR ''+'' then fmt_flags s (fl\<lparr> PLUS := True \<rparr>)
     else if c = CHR '' '' then fmt_flags s (fl\<lparr> SPACE := True \<rparr>)
     else if c = CHR ''#'' then fmt_flags s (fl\<lparr> SPECIAL := True \<rparr>)
     else if c = CHR ''0'' then fmt_flags s (fl\<lparr> ZEROPAD := True \<rparr>)
     else (fl, c # s))"

text \<open>A width given as \<open>*\<close> takes an argument but leaves the format pointer on the \<open>*\<close>.\<close>

definition fmt_width :: "string \<Rightarrow> va_arg list \<Rightarrow> flags \<Rightarrow> (int \<times> string \<times> va_arg list \<times> flags) option" where
  "fmt_width s as fl =
    (if s \<noteq> [] \<and> isdigit (hd s) then Some (fst (skip_atoi s), snd (skip_atoi s), as, fl)
     else if s \<noteq> [] \<and> hd s = CHR ''*'' then do {
       (w, as') \<leftarrow> next_word as;
       if s32 w < 0 then Some (wrap32 (- s32 w), s, as', fl\<lparr> LEFT := True \<rparr>) else Some (s32 w, s, as', fl) }
     else Some (- 1, s, as, fl))"

definition fmt_precision :: "string \<Rightarrow> va_arg list \<Rightarrow> (int \<times> string \<times> va_arg list) option" where
  "fmt_precision s as =
    (if s \<noteq> [] \<and> hd s = CHR ''.'' then do {
       let s1 = tl s;
       (p, s2, as2) \<leftarrow> (if s1 \<noteq> [] \<and> isdigit (hd s1) then Some (fst (skip_atoi s1), snd (skip_atoi s1), as)
         else if s1 \<noteq> [] \<and> hd s1 = CHR ''*'' then do { (w, as') \<leftarrow> next_word as; Some (s32 w, s1, as') }
         else Some (- 1, s1, as));
       Some (if p < 0 then 0 else p, s2, as2) }
     else Some (- 1, s, as))"

text \<open>One conversion: the characters produced, the pairs of address and value stored by \<open>%n\<close> (\<open>done\<close> is
  the number of characters so far), and the remaining arguments.\<close>

definition fmt_convert :: "char \<Rightarrow> nat \<Rightarrow> int \<Rightarrow> int \<Rightarrow> flags \<Rightarrow> va_arg list \<Rightarrow> (string \<times> (nat \<times> nat) list \<times> va_arg list) option" where
  "fmt_convert c n width prec fl as =
    (if c = CHR ''c'' then do {
       (w, as') \<leftarrow> next_word as;
       let pad = replicate (nat (width - 1)) (CHR '' '');
       Some ((if LEFT fl then [] else pad) @ [char_of (w mod 256)] @ (if LEFT fl then pad else []), [], as') }
     else if c = CHR ''s'' then do {
       (s, as') \<leftarrow> next_str as;
       let len = (if prec < 0 \<or> int (length s) \<le> prec then length s else nat prec);
       let pad = replicate (nat (width - int len)) (CHR '' '');
       Some ((if LEFT fl then [] else pad) @ take len s @ (if LEFT fl then pad else []), [], as') }
     else if c = CHR ''o'' then do { (w, as') \<leftarrow> next_word as; Some (number w 8 width prec fl, [], as') }
     else if c = CHR ''p'' then do {
       (w, as') \<leftarrow> next_word as;
       Some (if width = - 1 then number w 16 8 prec (fl\<lparr> ZEROPAD := True \<rparr>) else number w 16 width prec fl, [], as') }
     else if c = CHR ''x'' then do { (w, as') \<leftarrow> next_word as; Some (number w 16 width prec (fl\<lparr> SMALL := True \<rparr>), [], as') }
     else if c = CHR ''X'' then do { (w, as') \<leftarrow> next_word as; Some (number w 16 width prec fl, [], as') }
     else if c = CHR ''d'' \<or> c = CHR ''i'' then do {
       (w, as') \<leftarrow> next_word as; Some (number w 10 width prec (fl\<lparr> SIGN := True \<rparr>), [], as') }
     else if c = CHR ''u'' then do { (w, as') \<leftarrow> next_word as; Some (number w 10 width prec fl, [], as') }
     else if c = CHR ''n'' then do { (w, as') \<leftarrow> next_word as; Some ([], [(w, n)], as') }
     else Some ((if c \<noteq> CHR ''%'' then ''%'' else []) @ [c], [], as))"

lemma fmt_flags_length: "length (snd (fmt_flags s fl)) \<le> length s"
  by (induction s fl rule: fmt_flags.induct) (auto simp: le_SucI)

lemma dropWhile_length: "length (dropWhile P s) \<le> length s"
  by (induction s) auto

lemma fmt_width_length: "fmt_width s as fl = Some (w, s', as', fl') \<Longrightarrow> length s' \<le> length s"
  using dropWhile_length[of isdigit s] by (auto simp: fmt_width_def skip_atoi_def bind_eq_Some_conv split: if_splits)

lemma fmt_precision_length: "fmt_precision s as = Some (p, s', as') \<Longrightarrow> length s' \<le> length s"
  using dropWhile_length[of isdigit "tl s"]
  by (cases s) (auto simp: fmt_precision_def skip_atoi_def Let_def bind_eq_Some_conv split: if_splits)

text \<open>The main loop.  A format that ends inside a conversion prints a \<open>%\<close>.\<close>

function vsprintf_loop :: "string \<Rightarrow> va_arg list \<Rightarrow> string \<Rightarrow> (nat \<times> nat) list \<Rightarrow> (string \<times> (nat \<times> nat) list) option" where
  "vsprintf_loop [] as str ns = Some (str, ns)"
| "vsprintf_loop (c # fmt) as str ns =
    (if c \<noteq> CHR ''%'' then vsprintf_loop fmt as (str @ [c]) ns
     else case fmt_width (snd (fmt_flags fmt no_flags)) as (fst (fmt_flags fmt no_flags)) of None \<Rightarrow> None
     | Some (width, s2, as2, fl2) \<Rightarrow> (case fmt_precision s2 as2 of None \<Rightarrow> None
       | Some (prec, s3, as3) \<Rightarrow> (case s3 of
           [] \<Rightarrow> Some (str @ ''%'', ns)
         | k # s4 \<Rightarrow> (case fmt_convert k (length str) width prec fl2 as3 of None \<Rightarrow> None
             | Some (out, n', as4) \<Rightarrow> vsprintf_loop s4 as4 (str @ out) (ns @ n')))))"
  by pat_completeness auto
termination
proof (relation "measure (\<lambda>(fmt, as, str, ns). length fmt)", goal_cases)
  case (3 c fmt as str ns a aa b ab ac ad ae af ag ah ai aj ak al am an ao ap)
  then show ?case using fmt_flags_length[of fmt no_flags] by (auto dest!: fmt_width_length fmt_precision_length)
qed auto

text \<open>The result of \<open>vsprintf\<close> is the number of characters stored.\<close>

definition vsprintf :: "string \<Rightarrow> va_arg list \<Rightarrow> (nat \<times> string \<times> (nat \<times> nat) list) option" where
  "vsprintf fmt as = do { (str, ns) \<leftarrow> vsprintf_loop fmt as [] []; Some (length str, str, ns) }"

subsection \<open>Reversal\<close>

lemma reverse_loop_ok:
  "i + j + 1 = length s \<Longrightarrow> \<exists>r. reverse_loop s i j = Some r \<and> length r = length s \<and>
     (\<forall>k < length s. r ! k = (if i \<le> k \<and> k \<le> j then s ! (i + j - k) else s ! k))"
proof (induction s i j rule: reverse_loop.induct)
  case (1 s i j)
  show ?case
  proof (cases "i < j")
    case True
    let ?s = "s[j := s ! i, i := s ! j]"
    obtain r where r: "reverse_loop ?s (i + 1) (j - 1) = Some r" "length r = length s"
      "\<forall>k < length s. r ! k = (if i + 1 \<le> k \<and> k \<le> j - 1 then ?s ! (i + 1 + (j - 1) - k) else ?s ! k)"
      using 1(1)[of "s ! j" "s ! i" "s[j := s ! i]" ?s] True 1(2) by auto
    have "r ! k = (if i \<le> k \<and> k \<le> j then s ! (i + j - k) else s ! k)" if "k < length s" for k
      using r(3) that True 1(2) by (auto simp: nth_list_update)
    moreover have "reverse_loop s i j = Some r" using r(1) True 1(2) by (subst reverse_loop.simps) simp
    ultimately show ?thesis using r(2) by blast
  next
    case False
    then have "reverse_loop s i j = Some s" by (subst reverse_loop.simps) simp
    moreover have "i + j - k = k" if "i \<le> k" "k \<le> j" for k using that False by linarith
    ultimately show ?thesis by simp
  qed
qed

lemma reverse_rev: "s \<noteq> [] \<Longrightarrow> length s < W32 \<Longrightarrow> reverse s = Some (rev s)"
proof -
  assume s: "s \<noteq> []" "length s < W32"
  then have j: "sub32 (length s) 1 = length s - 1" by (simp add: Suc_le_eq)
  obtain r where r: "reverse_loop s 0 (length s - 1) = Some r" "length r = length s"
    "\<forall>k < length s. r ! k = (if 0 \<le> k \<and> k \<le> length s - 1 then s ! (0 + (length s - 1) - k) else s ! k)"
    using reverse_loop_ok[of 0 "length s - 1" s] s(1) by auto
  have "r = rev s" by (rule nth_equalityI) (use r(2,3) in \<open>auto simp: rev_nth\<close>)
  then show ?thesis using r(1) j by (simp add: reverse_def)
qed

lemma reverse_empty: "reverse [] = None"
  unfolding reverse_def by (subst reverse_loop.simps) (simp add: sub32_def)

subsection \<open>Decimal strings\<close>

definition digit_val :: "char \<Rightarrow> int" where
  "digit_val c = of_char c - 48"

definition dec_val :: "string \<Rightarrow> int" where
  "dec_val ds = foldl (\<lambda>v c. v * 10 + digit_val c) 0 ds"

lemma dec_val_snoc: "dec_val (ds @ [c]) = dec_val ds * 10 + digit_val c"
  by (simp add: dec_val_def)

lemma digit_of_char:
  assumes "(d :: nat) < 10"
  shows "digit_val (char_of (48 + d)) = int d" "isdigit (char_of (48 + d))"
proof -
  have "(of_char (char_of (48 + d)) :: int) = of_char (char_of (int (48 + d)))" by (simp only: char_of_nat)
  also have "\<dots> = int (48 + d)" using assms by (simp only: of_char_of) simp
  finally show "digit_val (char_of (48 + d)) = int d" by (simp add: digit_val_def)
  show "isdigit (char_of (48 + d))" using assms by (simp add: isdigit_def)
qed

lemma wrap32_id [simp]: "- 2147483648 \<le> i \<Longrightarrow> i < 2147483648 \<Longrightarrow> wrap32 i = i"
proof (cases "0 \<le> i")
  case True
  then show "i < 2147483648 \<Longrightarrow> wrap32 i = i" by (simp add: wrap32_def s32_def u32_def nat_less_iff)
next
  case False
  assume i: "- 2147483648 \<le> i"
  have "i mod 4294967296 = (i + 4294967296) mod 4294967296" by simp
  also have "\<dots> = i + 4294967296" using False i by (intro mod_pos_pos_trivial) simp_all
  finally have "u32 i = nat (i + 4294967296)" by (simp add: u32_def)
  then show "wrap32 i = i" using False i by (simp add: wrap32_def s32_def nat_less_iff)
qed

lemma digits_props:
  "0 \<le> n \<Longrightarrow> dec_val (rev (itoa_digits n)) = n \<and> list_all isdigit (itoa_digits n) \<and>
     (0 < n \<longrightarrow> itoa_digits n \<noteq> [] \<and> 10 ^ (length (itoa_digits n) - 1) \<le> n)"
proof (induction n rule: itoa_digits.induct)
  case (1 n)
  show ?case
  proof (cases "n > 0")
    case True
    have e: "itoa_digits n = char_of (48 + nat (n mod 10)) # itoa_digits (n div 10)" using True by (subst itoa_digits.simps) simp
    have d: "nat (n mod 10) < 10" "int (nat (n mod 10)) = n mod 10" by (simp_all add: nat_less_iff)
    have IH: "dec_val (rev (itoa_digits (n div 10))) = n div 10" "list_all isdigit (itoa_digits (n div 10))"
      "0 < n div 10 \<longrightarrow> itoa_digits (n div 10) \<noteq> [] \<and> 10 ^ (length (itoa_digits (n div 10)) - 1) \<le> n div 10"
      using 1(1)[OF True] True by (simp_all add: pos_imp_zdiv_nonneg_iff)
    have "10 ^ (length (itoa_digits n) - 1) \<le> n"
    proof (cases "0 < n div 10")
      case True
      then obtain l where l: "length (itoa_digits (n div 10)) = Suc l" using IH(3) by (cases "itoa_digits (n div 10)") auto
      then have "10 ^ l \<le> n div 10" using IH(3) True by simp
      then have "10 * 10 ^ l \<le> 10 * (n div 10)" by simp
      then have "10 * 10 ^ l \<le> n" using mult_div_mod_eq[of 10 n] pos_mod_sign[of 10 n] by linarith
      then show ?thesis using l e by simp
    next
      case False
      then have "itoa_digits (n div 10) = []" by (subst itoa_digits.simps) simp
      then show ?thesis using e True by simp
    qed
    then show ?thesis using e IH(1,2) d by (auto simp: dec_val_snoc digit_of_char[OF d(1)])
  next
    case False
    then show ?thesis using 1(2) by (subst (1 2) itoa_digits.simps) (simp add: dec_val_def)
  qed
qed

lemma ipow_loop_eq: "0 \<le> r \<Longrightarrow> r * 10 ^ e < 2147483648 \<Longrightarrow> ipow_loop 10 e r = r * 10 ^ e"
proof (induction e arbitrary: r)
  case (Suc e)
  have le: "r * 10 \<le> r * 10 * 10 ^ e" using Suc.prems(1) by (simp add: mult_le_cancel_left1)
  have "wrap32 (r * 10) = r * 10" using Suc.prems le by (intro wrap32_id) (simp_all add: mult.assoc)
  then show ?case using Suc.IH[of "r * 10"] Suc.prems by (simp add: mult.assoc)
qed simp

lemma ipow_10: "10 ^ e < (2147483648 :: int) \<Longrightarrow> ipow 10 (int e) = 10 ^ e"
  using ipow_loop_eq[of 1 e] by (cases "e = 0") (simp_all add: ipow_def)

lemma digit_val_range: "isdigit c \<Longrightarrow> 0 \<le> digit_val c \<and> digit_val c \<le> 9"
proof -
  assume "isdigit c"
  moreover have "(of_char c :: int) = int (of_char c)" by (simp add: of_nat_of_char)
  ultimately show ?thesis by (simp add: digit_val_def isdigit_def)
qed

lemma dec_val_nonneg: "list_all isdigit ds \<Longrightarrow> 0 \<le> dec_val ds"
  by (induction ds rule: rev_induct) (use digit_val_range in \<open>auto simp: dec_val_snoc dec_val_def\<close>)

lemma dec_val_prefix:
  "list_all isdigit ds \<Longrightarrow> k \<le> length ds \<Longrightarrow> dec_val (take k ds) * 10 ^ (length ds - k) \<le> dec_val ds"
proof (induction "length ds - k" arbitrary: k)
  case (Suc d)
  then have k: "k < length ds" "d = length ds - Suc k" by auto
  have t: "take (Suc k) ds = take k ds @ [ds ! k]" using k(1) by (simp add: take_Suc_conv_app_nth)
  have "isdigit (ds ! k)" using Suc.prems(1) k(1) by (simp add: list_all_length)
  then have "dec_val (take k ds) * 10 \<le> dec_val (take (Suc k) ds)" unfolding t dec_val_snoc using digit_val_range by simp
  then have "dec_val (take k ds) * 10 * 10 ^ d \<le> dec_val (take (Suc k) ds) * 10 ^ d" by (simp add: mult_right_mono)
  also have "\<dots> \<le> dec_val ds" using Suc.hyps(1)[OF k(2)] Suc.prems k by simp
  finally show ?case using k by (simp add: Suc_diff_Suc[symmetric] mult.assoc)
qed simp

lemma atoi_sum_eq:
  assumes ds: "list_all isdigit ds" and b: "10 ^ (length ds - 1) < (2147483648 :: int)" "dec_val ds < 2147483648"
  shows "atoi_sum ds = dec_val ds"
proof -
  let ?f = "\<lambda>num i. wrap32 (num + wrap32 ((of_char (ds ! i) - 48) * ipow 10 (int (length ds - i - 1))))"
  have "foldl ?f 0 [0..<k] = dec_val (take k ds) * 10 ^ (length ds - k)" if "k \<le> length ds" for k
    using that
  proof (induction k)
    case (Suc k)
    let ?e = "length ds - k - 1"
    have k: "k < length ds" using Suc.prems by simp
    have dig: "isdigit (ds ! k)" using ds k by (simp add: list_all_length)
    have "(10 :: int) ^ ?e \<le> 10 ^ (length ds - 1)" by (rule power_increasing) simp_all
    then have ip: "ipow 10 (int ?e) = 10 ^ ?e" using b(1) by (intro ipow_10) linarith
    have t: "take (Suc k) ds = take k ds @ [ds ! k]" using k by (simp add: take_Suc_conv_app_nth)
    have e: "(10 :: int) ^ (length ds - k) = 10 * 10 ^ ?e" using k by (simp add: power_Suc[symmetric] del: power_Suc)
    have new: "dec_val (take (Suc k) ds) * 10 ^ ?e = dec_val (take k ds) * 10 ^ (length ds - k) + digit_val (ds ! k) * 10 ^ ?e"
      unfolding t dec_val_snoc by (simp only: e) (simp add: algebra_simps)
    have le: "dec_val (take (Suc k) ds) * 10 ^ ?e < 2147483648"
      using dec_val_prefix[OF ds Suc.prems] b(2) by simp
    have tk: "list_all isdigit (take k ds)" using ds by (auto simp: list_all_iff dest: in_set_takeD)
    have pos: "0 \<le> dec_val (take k ds) * 10 ^ (length ds - k)" "0 \<le> digit_val (ds ! k) * 10 ^ ?e"
      using dec_val_nonneg[OF tk] digit_val_range[OF dig] by simp_all
    have "wrap32 (digit_val (ds ! k) * 10 ^ ?e) = digit_val (ds ! k) * 10 ^ ?e"
      using le new pos by (intro wrap32_id) linarith+
    moreover have "wrap32 (dec_val (take k ds) * 10 ^ (length ds - k) + digit_val (ds ! k) * 10 ^ ?e) = dec_val (take (Suc k) ds) * 10 ^ ?e"
      unfolding new using le new pos by (intro wrap32_id) linarith+
    ultimately show ?case using Suc.IH k ip by (simp add: digit_val_def)
  qed (simp add: dec_val_def)
  from this[of "length ds"] show ?thesis by (simp add: atoi_sum_def)
qed

lemma digits_bounds:
  assumes "0 < n" "n < 2147483648"
  shows "itoa_digits n \<noteq> []" "length (itoa_digits n) \<le> 10" "10 ^ (length (itoa_digits n) - 1) < (2147483648 :: int)"
proof -
  have p: "itoa_digits n \<noteq> []" "10 ^ (length (itoa_digits n) - 1) \<le> n" using digits_props[of n] assms by auto
  then show "itoa_digits n \<noteq> []" "10 ^ (length (itoa_digits n) - 1) < (2147483648 :: int)" using assms by auto
  have "length (itoa_digits n) - 1 < 10"
  proof (rule ccontr)
    assume "\<not> length (itoa_digits n) - 1 < 10"
    then have "(10 :: int) ^ 10 \<le> 10 ^ (length (itoa_digits n) - 1)" by (intro power_increasing) simp_all
    then show False using p(2) assms(2) by simp
  qed
  then show "length (itoa_digits n) \<le> 10" by simp
qed

subsection \<open>Properties\<close>

text \<open>C16.  \<open>atoi\<close> reads back what \<open>itoa\<close> writes, for every 32-bit value except the smallest one.\<close>

theorem atoi_itoa:
  assumes "- 2147483648 < n" "n < 2147483648"
  shows "\<exists>s. itoa n = Some s \<and> atoi s = n"
proof (cases "n = 0")
  case True
  then show ?thesis by (simp add: itoa_def atoi_def isdigit_def atoi_sum_def ipow_def)
next
  case False
  define k where "k = \<bar>n\<bar>"
  have k: "0 < k" "k < 2147483648" using assms False by (auto simp: k_def)
  let ?ds = "itoa_digits k"
  have m: "(if n < 0 then wrap32 (- n) else n) = k" using assms by (auto simp: k_def)
  note B = digits_bounds[OF k]
  have P: "dec_val (rev ?ds) = k" "list_all isdigit ?ds" using digits_props[of k] k by auto
  have val: "atoi_sum (rev ?ds) = k" using atoi_sum_eq[of "rev ?ds"] B(3) P k(2) by (simp add: list_all_rev)
  have tw: "takeWhile isdigit (rev ?ds) = rev ?ds" using P(2) by (simp add: takeWhile_eq_all_conv list_all_iff)
  have hd: "isdigit (hd (rev ?ds))" using B(1) P(2) by (simp add: hd_rev list_all_iff)
  have minus: "\<not> isdigit (CHR ''-'')" by (simp add: isdigit_def)
  have "length (?ds @ (if n < 0 then ''-'' else [])) < W32" using B(2) by simp
  then have it: "itoa n = Some (rev (?ds @ (if n < 0 then ''-'' else [])))"
    using False B(1) m by (simp add: itoa_def reverse_rev)
  show ?thesis
  proof (cases "n < 0")
    case True
    then have "wrap32 (- k) = n" using assms by (simp add: k_def)
    then have "atoi (CHR ''-'' # rev ?ds) = n" by (simp add: atoi_def Let_def minus tw val)
    then show ?thesis using it True by simp
  next
    case False
    obtain c cs where cs: "rev ?ds = c # cs" using B(1) by (cases "rev ?ds") auto
    have c: "isdigit c" "c \<noteq> CHR ''-''" using hd cs minus by auto
    have "atoi (rev ?ds) = n"
      unfolding atoi_def Let_def tw[unfolded cs] cs using c False k by (simp add: tw[unfolded cs] val[unfolded cs] k_def del: takeWhile.simps)
    then show ?thesis using it False by simp
  qed
qed

theorem atoi_itoa_witness: "\<exists>s. itoa (- 1234) = Some s \<and> atoi s = - 1234"
  by (rule atoi_itoa) simp_all

text \<open>For the smallest 32-bit value the negation in \<open>itoa\<close> wraps back to a negative number, the digit
  loop does not run, and the result is just a minus sign.\<close>

theorem itoa_min_int: "itoa (- 2147483648) = Some ''-''"
proof -
  have "wrap32 2147483648 = - 2147483648" by (simp add: wrap32_def s32_def u32_def)
  then show ?thesis by (simp add: itoa_def itoa_digits.simps reverse_rev)
qed

lemma number_digits_itoa: "number_digits sm 10 n = itoa_digits (int n)"
proof (induction n rule: less_induct)
  case (less n)
  show ?case
  proof (cases "n = 0")
    case False
    have "nat (int n mod 10) = n mod 10" by (simp add: nat_mod_distrib)
    then have "digit_char sm (n mod 10) = char_of (48 + nat (int n mod 10))" by (simp add: digit_char_def)
    moreover have "number_digits sm 10 (n div 10) = itoa_digits (int n div 10)" using less.IH[of "n div 10"] False by (simp add: zdiv_int)
    ultimately show ?thesis using False by (subst number_digits.simps, subst itoa_digits.simps) simp
  qed (simp add: number_digits.simps itoa_digits.simps)
qed

lemma vsprintf_d: "vsprintf ''%d'' [VWord w] = Some (length (number w 10 (- 1) (- 1) (no_flags\<lparr> SIGN := True \<rparr>)), number w 10 (- 1) (- 1) (no_flags\<lparr> SIGN := True \<rparr>), [])"
  by (simp add: vsprintf_def fmt_width_def fmt_precision_def fmt_convert_def isdigit_def)

text \<open>C17.  \<open>vsprintf\<close> with \<open>%d\<close> prints exactly the string \<open>itoa\<close> computes, for every 32-bit value except the
  smallest one (where \<open>itoa\<close> fails).\<close>

theorem vsprintf_d_itoa:
  assumes "w < 4294967296" "w \<noteq> 2147483648"
  shows "\<exists>s. itoa (s32 w) = Some s \<and> vsprintf ''%d'' [VWord w] = Some (length s, s, [])"
proof -
  let ?n = "s32 w"
  have n: "- 2147483648 < ?n" "?n < 2147483648" "?n = 0 \<longleftrightarrow> w = 0" using assms by (auto simp: s32_def)
  define k where "k = \<bar>?n\<bar>"
  have mag: "int (if ?n < 0 then u32 (- ?n) else w) = k"
    using n assms by (auto simp: k_def u32_def s32_def zmod_zminus1_eq_if)
  have "itoa ?n = Some (if ?n = 0 then ''0'' else (if ?n < 0 then ''-'' else []) @ rev (itoa_digits k))"
  proof (cases "?n = 0")
    case False
    then have k: "0 < k" "k < 2147483648" using n by (auto simp: k_def)
    have "(if ?n < 0 then wrap32 (- ?n) else ?n) = k" using n by (auto simp: k_def)
    then show ?thesis using False digits_bounds[OF k] by (simp add: itoa_def reverse_rev)
  qed (simp add: itoa_def)
  moreover have "number w 10 (- 1) (- 1) (no_flags\<lparr> SIGN := True \<rparr>) =
      (if ?n = 0 then ''0'' else (if ?n < 0 then ''-'' else []) @ rev (itoa_digits k))"
  proof (cases "?n = 0")
    case True
    then show ?thesis using n(3) by (simp add: number_def no_flags_def)
  next
    case False
    then have "(if ?n < 0 then u32 (- ?n) else w) \<noteq> 0" using mag by (auto simp: k_def)
    moreover have "?n < 0 \<Longrightarrow> int (u32 (- ?n)) = k" "\<not> ?n < 0 \<Longrightarrow> int w = k" using mag by auto
    ultimately show ?thesis using False unfolding number_def Let_def number_digits_itoa by (simp add: no_flags_def)
  qed
  ultimately show ?thesis unfolding vsprintf_d by simp
qed

theorem vsprintf_d_itoa_witness: "\<exists>s. itoa (s32 4294967254) = Some s \<and> vsprintf ''%d'' [VWord 4294967254] = Some (length s, s, [])"
  by (rule vsprintf_d_itoa) simp_all

text \<open>The output of \<open>number\<close> is as wide as the field asks for, and wider exactly when sign, prefix and
  digits (at least \<open>precision\<close> of them) need more room.\<close>

theorem number_width:
  assumes "2 \<le> base" "base \<le> 36"
  shows "\<exists>sign special digits. int (length (number num base sz precision fl)) = max sz (sign + special + max precision digits) \<and>
    sign \<in> {0, 1} \<and> special \<in> {0, 1, 2} \<and> 1 \<le> digits"
proof -
  define mag where "mag = (if SIGN fl \<and> s32 num < 0 then u32 (- s32 num) else num)"
  define tmp where "tmp = (if mag = 0 then ''0'' else number_digits (SMALL fl) base mag)"
  define sg where "sg = (if SIGN fl \<and> s32 num < 0 \<or> PLUS fl \<or> SPACE fl then 1 else 0 :: int)"
  define sp where "sp = (if SPECIAL fl then if base = 16 then 2 else if base = 8 then 1 else 0 else 0 :: int)"
  have t: "1 \<le> int (length tmp)"
    using assms(1) by (cases "mag = 0") (simp_all add: tmp_def number_digits.simps)
  define pr where "pr = max precision (int (length tmp))"
  have pr: "(if precision < int (length tmp) then int (length tmp) else precision) = pr" by (simp add: pr_def)
  define sgs where "sgs = (if SIGN fl \<and> s32 num < 0 then ''-'' else if PLUS fl then ''+'' else if SPACE fl then '' '' else [])"
  define sps where "sps = (if SPECIAL fl then if base = 8 then ''0'' else if base = 16 then [CHR ''0'', digit_char (SMALL fl) 33] else [] else [])"
  have sz: "(if SPECIAL fl then if base = 16 then (if sgs \<noteq> [] then sz - 1 else sz) - 2
      else if base = 8 then (if sgs \<noteq> [] then sz - 1 else sz) - 1 else (if sgs \<noteq> [] then sz - 1 else sz) else (if sgs \<noteq> [] then sz - 1 else sz)) = sz - sg - sp"
    by (simp add: sgs_def sg_def sp_def)
  have l: "length sgs = nat sg" "length sps = nat sp" by (simp_all add: sgs_def sps_def sg_def sp_def)
  have fl': "SIGN (if LEFT fl then fl\<lparr> ZEROPAD := False \<rparr> else fl) = SIGN fl" "PLUS (if LEFT fl then fl\<lparr> ZEROPAD := False \<rparr> else fl) = PLUS fl"
      "SPACE (if LEFT fl then fl\<lparr> ZEROPAD := False \<rparr> else fl) = SPACE fl" "SPECIAL (if LEFT fl then fl\<lparr> ZEROPAD := False \<rparr> else fl) = SPECIAL fl"
      "SMALL (if LEFT fl then fl\<lparr> ZEROPAD := False \<rparr> else fl) = SMALL fl" "LEFT (if LEFT fl then fl\<lparr> ZEROPAD := False \<rparr> else fl) = LEFT fl"
      "ZEROPAD (if LEFT fl then fl\<lparr> ZEROPAD := False \<rparr> else fl) = (ZEROPAD fl \<and> \<not> LEFT fl)" by simp_all
  have eq: "number num base sz precision fl =
      (if \<not> ZEROPAD fl \<and> \<not> LEFT fl then replicate (nat (sz - sg - sp - pr)) (CHR '' '') else []) @ sgs @ sps @
      (if \<not> LEFT fl \<and> ZEROPAD fl then replicate (nat (sz - sg - sp - pr)) (CHR ''0'') else []) @
      replicate (nat (pr - int (length tmp))) (CHR ''0'') @ rev tmp @
      (if LEFT fl then replicate (nat (sz - sg - sp - pr)) (CHR '' '') else [])"
    using assms unfolding number_def Let_def fl' mag_def[symmetric] tmp_def[symmetric] sgs_def[symmetric] sps_def[symmetric] sz pr
    by (cases "LEFT fl"; cases "ZEROPAD fl") simp_all
  have "length (number num base sz precision fl) = nat (sz - sg - sp - pr) + nat sg + nat sp + nat (pr - int (length tmp)) + length tmp"
    unfolding eq by (cases "LEFT fl"; cases "ZEROPAD fl") (simp_all add: l)
  moreover have "0 \<le> sg" "0 \<le> sp" "int (length tmp) \<le> pr" by (auto simp: sg_def sp_def pr_def)
  ultimately have "int (length (number num base sz precision fl)) = max sz (sg + sp + pr)" by simp
  moreover have "sg \<in> {0, 1}" "sp \<in> {0, 1, 2}" by (auto simp: sg_def sp_def)
  ultimately show ?thesis using t unfolding pr_def by blast
qed

theorem number_width_witness:
  "\<exists>sign special digits. int (length (number 48879 16 8 (- 1) (no_flags\<lparr> SMALL := True, ZEROPAD := True \<rparr>))) = max 8 (sign + special + max (- 1) digits) \<and>
    sign \<in> {0, 1} \<and> special \<in> {0, 1, 2} \<and> 1 \<le> digits"
  by (rule number_width) simp_all

end
