(* ===== verification/Kalloc.thy ===== *)
theory Kalloc
  imports Kheap
begin

text \<open>
  The contract of \<open>kmalloc\<close> and \<open>kfree\<close> that the other parts of the kernel rely on, as a locale over a
  map from the addresses of the live blocks to their sizes, and its interpretation on the kernel heap.
\<close>

subsection \<open>The contract\<close>

text \<open>\<open>inv s B k\<close>: the allocator's state \<open>s\<close> is well formed, \<open>B\<close> are live blocks (there may be others), and
  requests that add up to at most \<open>k\<close> bytes, with 64 bytes of overhead each, can be served.\<close>

locale allocator =
  fixes malloc :: "nat \<Rightarrow> 's \<Rightarrow> (nat \<times> 's) option"
    and free :: "nat \<Rightarrow> 's \<Rightarrow> 's option"
    and bytes :: "'s \<Rightarrow> mem"
    and set_bytes :: "mem \<Rightarrow> 's \<Rightarrow> 's"
    and inv :: "'s \<Rightarrow> (nat \<rightharpoonup> nat) \<Rightarrow> nat \<Rightarrow> bool"
  assumes malloc_law: "inv s B k \<Longrightarrow> 0 < n \<Longrightarrow> n + 64 \<le> k \<Longrightarrow> \<exists>p s'. malloc n s = Some (p, s') \<and> 0 < p \<and> B p = None \<and>
      inv s' (B(p \<mapsto> n)) (k - (n + 64)) \<and> (\<forall>q m i. B q = Some m \<and> i < m \<longrightarrow> bytes s' (q + i) = bytes s (q + i))"
    and free_law: "inv s B k \<Longrightarrow> B p = Some n \<Longrightarrow> \<exists>s'. free p s = Some s' \<and> inv s' (B(p := None)) k \<and>
      (\<forall>q m i. B q = Some m \<and> q \<noteq> p \<and> i < m \<longrightarrow> bytes s' (q + i) = bytes s (q + i))"
    and write_law: "inv s B k \<Longrightarrow> B p = Some n \<Longrightarrow> i < n \<Longrightarrow> inv (set_bytes ((bytes s)(p + i := v)) s) B k"
    and separate: "inv s B k \<Longrightarrow> B p = Some n \<Longrightarrow> B q = Some m \<Longrightarrow> p \<noteq> q \<Longrightarrow> p + n \<le> q \<or> q + m \<le> p"
    and nonnull: "inv s B k \<Longrightarrow> B p = Some n \<Longrightarrow> 0 < p \<and> 0 < n"
    and weaken: "inv s B k \<Longrightarrow> j \<le> k \<Longrightarrow> B' \<subseteq>\<^sub>m B \<Longrightarrow> inv s B' j"
begin

lemma malloc_free: "inv s B k \<Longrightarrow> 0 < n \<Longrightarrow> n + 64 \<le> k \<Longrightarrow>
  \<exists>p s1 s2. malloc n s = Some (p, s1) \<and> free p s1 = Some s2 \<and> inv s2 B (k - (n + 64))"
proof -
  assume a: "inv s B k" "0 < n" "n + 64 \<le> k"
  obtain p s1 where p: "malloc n s = Some (p, s1)" "B p = None" "inv s1 (B(p \<mapsto> n)) (k - (n + 64))"
    using malloc_law[OF a] by blast
  obtain s2 where "free p s1 = Some s2" "inv s2 ((B(p \<mapsto> n))(p := None)) (k - (n + 64))"
    using free_law[OF p(3), of p n] by auto
  moreover have "(B(p \<mapsto> n))(p := None) = B" using p(2) by auto
  ultimately show ?thesis using p(1) by auto
qed

end

subsection \<open>The kernel heap provides it\<close>

lemma capacity_unify:
  "unify_left h f st = Some (h', b, st') \<Longrightarrow> capacity st' = capacity st"
  "unify_right h f st = Some st' \<Longrightarrow> capacity st' = capacity st"
  by (auto simp: unify_left_def unify_right_def Let_def capacity_def remove_free_def bind_eq_Some_conv dest!: oa_max split: if_splits)

lemma capacity_remove_used: "remove_used x st = Some st' \<Longrightarrow> capacity st' = capacity st"
  by (auto simp: remove_used_def capacity_def bind_eq_Some_conv dest: oa_max)

lemma capacity_trace_free: "trace_free p st = Some st' \<Longrightarrow> capacity st' = capacity st"
  by (auto simp: trace_free_def capacity_def bind_eq_Some_conv split: option.splits)

lemma capacity_contract: "heap_contract ops n st = Some st' \<Longrightarrow> capacity st' = capacity st"
  by (auto simp: heap_contract_def Let_def capacity_def bind_eq_Some_conv split: if_splits)

lemma capacity_shrink: "shrink_tail ops st = Some st' \<Longrightarrow> capacity st' = capacity st"
  by (auto simp: shrink_tail_def Let_def bind_eq_Some_conv dest: capacity_contract split: if_splits)

lemma capacity_heap_free: "heap_free ops p st = Some st' \<Longrightarrow> capacity st' = capacity st"
  by (auto simp: heap_free_def Let_def bind_eq_Some_conv dest!: capacity_unify capacity_remove_used capacity_trace_free
      capacity_shrink capacity_index split: if_splits option.splits)

text \<open>Free areas are separated by used ones, so there is at most one more of them.\<close>

lemma free_le_used: "no_adjacent_free as \<Longrightarrow> length (free_addrs as) \<le> length (used_addrs as) + (if as \<noteq> [] \<and> snd (snd (hd as)) then 1 else 0)"
  by (induction as rule: induct_list012) (auto simp: no_adjacent_free_Cons split: if_splits)

text \<open>The heap with live blocks \<open>B\<close> and \<open>k\<close> contiguous free bytes.\<close>

definition heap_serves :: "area list \<Rightarrow> (nat \<rightharpoonup> nat) \<Rightarrow> nat \<Rightarrow> 'v kst \<Rightarrow> bool" where
  "heap_serves as B k st \<longleftrightarrow> heap_inv st as \<and> no_adjacent_free as \<and> (\<forall>p n. B p = Some n \<longrightarrow> block as p n \<and> p mod 4 = 0 \<and> 0 < n) \<and>
     (\<exists>x s. (x, s, True) \<in> set as \<and> k \<le> s) \<and>
     length (used_addrs as) + k div 32 + 3 < oa_max_size (free_index (kheap st)) \<and>
     length (used_addrs as) + k div 32 + 3 < oa_max_size (used_index (kheap st)) \<and>
     kheap_set st \<and> leak st = None \<and> end_address (kheap st) \<le> max_address (kheap st) \<and>
     end_address (kheap st) - start_address (kheap st) < 1572864"

definition kheap_ok :: "'v kst \<Rightarrow> (nat \<rightharpoonup> nat) \<Rightarrow> nat \<Rightarrow> bool" where
  "kheap_ok st B k \<longleftrightarrow> (\<exists>as. heap_serves as B k st)"

lemma serves_block:
  assumes "heap_serves as B k st" "B p = Some n"
  obtains x s where "(x, s, False) \<in> set as" "ptr_of x p" "p + n + 8 \<le> x + s" "p mod 4 = 0" "0 < n"
proof -
  have "block as p n" "p mod 4 = 0" "0 < n" using assms by (simp_all add: heap_serves_def)
  then obtain x s where "(x, s, False) \<in> set as" "ptr_of x p" "p + n + 8 \<le> x + s" unfolding block_def by blast
  then show thesis by (rule that) fact+
qed

lemma serves_room:
  assumes "heap_serves as B k st"
  shows "2 < oa_room (free_index (kheap st))" "2 < oa_room (used_index (kheap st))" "trace_room st"
proof -
  have "heap_inv st as" "no_adjacent_free as" "leak st = None" using assms by (simp_all add: heap_serves_def)
  note r = oa_room_inv[OF this(1)] free_le_used[OF this(2)] this(3)
  have "length (free_addrs as) \<le> length (used_addrs as) + 1" using r(3) by (auto split: if_splits)
  then show "2 < oa_room (free_index (kheap st))" "2 < oa_room (used_index (kheap st))" "trace_room st"
    using r assms unfolding heap_serves_def by (auto simp: trace_room_def)
qed

lemma no_adjacent_free_Nil [simp]: "no_adjacent_free []"
  by (simp add: no_adjacent_free_def)

lemma alloc_no_adjacent:
  assumes "no_adjacent_free (pre @ (x, s, True) # post)" "alloc_areas sz False x s pre post x m as'"
  shows "no_adjacent_free as'"
  using assms by (auto simp: alloc_areas_def no_adjacent_free_append no_adjacent_free_Cons split: if_splits)

lemma same_area_same_ptr: "ptr_of x p \<Longrightarrow> ptr_of x q \<Longrightarrow> p mod 4 = 0 \<Longrightarrow> q mod 4 = 0 \<Longrightarrow> p = q"
  unfolding ptr_of_def by presburger

lemma block_kept:
  assumes "block as p n" "kept m m' (used_areas as)" "i < n"
  shows "m' (p + i) = m (p + i)"
proof -
  obtain a t where a: "(a, t, False) \<in> set as" "ptr_of a p" "p + n + 8 \<le> a + t" using assms(1) by (auto simp: block_def)
  then show ?thesis using keptD[OF assms(2), of a t False "p + i"] assms(3) by (simp add: used_areas_iff ptr_of_def)
qed

lemma alloc_used:
  assumes "alloc_areas sz False x s pre post x m as'"
  shows "(a, t, False) \<in> set (pre @ post) \<Longrightarrow> (a, t, False) \<in> set as'" "(x, m, False) \<in> set as'"
    "length (used_addrs as') = Suc (length (used_addrs (pre @ post)))"
    "s - sz \<ge> 36 \<Longrightarrow> (x + sz, s - sz, True) \<in> set as'" "(a, t, True) \<in> set (pre @ post) \<Longrightarrow> (a, t, True) \<in> set as'"
    "sz \<le> s \<Longrightarrow> sz \<le> m"
  using assms by (auto simp: alloc_areas_def split: if_splits)

lemma kmalloc_serves:
  assumes sv: "heap_serves as B k st" and n: "0 < n" "n + 64 \<le> k"
  shows "\<exists>p st' as'. kmalloc ops n st = Some (p, st') \<and> 0 < p \<and> B p = None \<and> heap_serves as' (B(p \<mapsto> n)) (k - (n + 64)) st' \<and>
    kept (kmem st) (kmem st') (used_areas as)"
proof -
  have inv: "heap_inv st as" and set: "kheap_set st" using sv by (simp_all add: heap_serves_def)
  obtain x0 s0 where hole: "(x0, s0, True) \<in> set as" "k \<le> s0" using sv by (auto simp: heap_serves_def)
  note room = serves_room[OF sv]
  have s0: "s0 < 1572864" "n < 1073741824" using heap_inv_areas[OF inv hole(1)] sv n hole(2) by (auto simp: heap_serves_def)
  obtain x s pre post m as' st' where a: "as = pre @ (x, s, True) # post" "n + 23 \<le> s"
    "heap_alloc ops n False st = Some (dword_align (x + 12), st')" "alloc_areas (n + 23) False x s pre post x m as'"
    "heap_inv st' as'" "capacity st' = capacity st" "Heap_Inv.frame (start_address (kheap st)) (end_address (kheap st)) st st'"
    "kept (kmem st) (kmem st') (used_areas as)"
    using heap_alloc_areas[OF inv n(1) s0(2) hole(1) _ _ _ room(3), of ops] hole(2) n(2) room(1,2) unfolding request_size_def by auto
  note u = alloc_used[OF a(4)]
  have xm: "x + m < W32" "4096 \<le> x" "20 < m" using heap_inv_areas[OF a(5) u(2)] by (auto simp: area_ok_def)
  let ?p = "dword_align (x + 12)"
  have ptr: "ptr_of x ?p" "?p mod 4 = 0" using xm ptr_of_dword_align[of x] dword_align_props(3)[of "x + 12"] by auto
  have blk: "block as' ?p n" using u(2,6) a(2) ptr(1) unfolding block_def ptr_of_def by (intro exI[of _ x] exI[of _ m]) simp
  have old: "block as' q j" "q \<noteq> ?p" if q: "block as q j" for q j
  proof -
    obtain b t where b: "(b, t, False) \<in> set (pre @ post)" "ptr_of b q" "q + j + 8 \<le> b + t" using q a(1) by (auto simp: block_def)
    then show "block as' q j" using u(1)[of b t] by (auto simp: block_def)
    have "b + t \<le> x \<or> x + s \<le> b" using heap_inv_split_disjoint[OF inv[unfolded a(1)] b(1)] .
    then show "q \<noteq> ?p" using b(2,3) ptr(1) a(2) unfolding ptr_of_def by auto
  qed
  have hole': "\<exists>y t. (y, t, True) \<in> set as' \<and> k - (n + 64) \<le> t"
  proof (cases "(x0, s0) = (x, s)")
    case True
    then have "36 \<le> s - (n + 23)" using hole(2) n(2) by simp
    then show ?thesis using u(4) True hole(2) by (intro exI[of _ "x + (n + 23)"] exI[of _ "s - (n + 23)"]) simp
  next
    case False
    then have "(x0, s0, True) \<in> set as'" using hole(1) a(1) u(5)[of x0 s0] by auto
    then show ?thesis using hole(2) by (intro exI[of _ x0] exI[of _ s0]) simp
  qed
  have "(k - (n + 64)) div 32 + 2 \<le> k div 32" using n(2) by (simp add: div_le_mono flip: div_add_self2)
  then have "heap_serves as' (B(?p \<mapsto> n)) (k - (n + 64)) st'"
    using sv a(1,5-7) blk old(1) ptr(2) n(1) hole' u(3) alloc_no_adjacent[OF _ a(4)]
    unfolding heap_serves_def capacity_def Heap_Inv.frame_def by auto
  moreover have "B ?p = None"
  proof (rule ccontr)
    assume "B ?p \<noteq> None"
    then obtain j where "B ?p = Some j" by auto
    then show False using sv old(2)[of ?p j] by (auto simp: heap_serves_def)
  qed
  moreover have "kmalloc ops n st = Some (?p, st')" using a(3) set by (simp add: kmalloc_def kmalloc_int_def)
  moreover have "0 < ?p" using ptr(1) by (simp add: ptr_of_def)
  ultimately show ?thesis using a(8) by blast
qed

lemma coalesce_hole:
  assumes "(y, t, True) \<in> set (pre @ post)"
  shows "\<exists>z u. (z, u, True) \<in> set (coalesce pre x s post) \<and> t \<le> u"
proof (cases "pre \<noteq> [] \<and> (y, t, True) = last pre \<or> post \<noteq> [] \<and> (y, t, True) = hd post")
  case True
  obtain pre' x' s' where l: "merge_left pre x s = (pre', x', s')" by (metis prod_cases3)
  obtain s'' post' where r: "merge_right s' post = (s'', post')" by fastforce
  have s': "pre \<noteq> [] \<Longrightarrow> last pre = (y, t, True) \<Longrightarrow> t \<le> s'" using l by (simp add: merge_left_def)
  have "s' \<le> s''" "post \<noteq> [] \<Longrightarrow> hd post = (y, t, True) \<Longrightarrow> t \<le> s''" using r by (auto simp: merge_right_def split: if_splits)
  then have "t \<le> s''" using True s' by fastforce
  then show ?thesis using l r by (auto simp: coalesce_def)
next
  case False
  have "(y, t, True) \<in> set (butlast pre)" if "(y, t, True) \<in> set pre"
    using that False by (cases pre rule: rev_cases) auto
  moreover have "(y, t, True) \<in> set (tl post)" if "(y, t, True) \<in> set post" using that False by (cases post) auto
  moreover have set_tl: "set (tl post) \<subseteq> set post" by (cases post) auto
  ultimately have "(y, t, True) \<in> set (butlast pre) \<or> (y, t, True) \<in> set (tl post)" using assms by auto
  then have "(y, t, True) \<in> set (coalesce pre x s post)"
    unfolding coalesce_def merge_left_def merge_right_def using set_tl by (auto simp: Let_def dest: in_set_butlastD)
  then show ?thesis by auto
qed

lemma coalesce_used_addrs: "length (used_addrs (coalesce pre x s post)) = length (used_addrs (pre @ post))"
  unfolding coalesce_def merge_left_def merge_right_def
  by (cases pre rule: rev_cases; cases post) (auto simp: Let_def split: if_splits)

lemma kfree_serves:
  assumes sv: "heap_serves as B k st" and p: "B p = Some n"
  shows "\<exists>st' as'. kfree ops p st = Some st' \<and> heap_serves as' (B(p := None)) k st' \<and>
    (\<forall>q m i. B q = Some m \<and> q \<noteq> p \<and> i < m \<longrightarrow> kmem st' (q + i) = kmem st (q + i))"
proof -
  have inv: "heap_inv st as" and lim: "end_address (kheap st) \<le> max_address (kheap st)"
      "end_address (kheap st) - start_address (kheap st) < 1572864" "leak st = None" using sv by (simp_all add: heap_serves_def)
  obtain x s where x: "(x, s, False) \<in> set as" "ptr_of x p" "p + n + 8 \<le> x + s" "p mod 4 = 0"
    using serves_block[OF sv p] by metis
  obtain pre post where as: "as = pre @ (x, s, False) # post" using x(1) by (meson split_list)
  note room = serves_room[OF sv]
  have A: "x + s \<le> end_address (kheap st)" using heap_inv_areas[OF inv x(1)] by auto
  have pe: "p < end_address (kheap st)" "p \<le> max_address (kheap st)" using A x(3) lim(1) by linarith+
  let ?as = "coalesce pre x s post"
  obtain st1 where c: "heap_free ops p st = shrink_tail ops st1" "heap_inv st1 ?as"
      "Heap_Inv.frame (start_address (kheap st)) (end_address (kheap st)) st st1" "kept (kmem st) (kmem st1) (used_areas (pre @ post))"
    using heap_free_core[OF inv[unfolded as] x(2) pe(2), of ops] room lim(3) by (auto simp: untraceable_def)
  have "shrink_tail ops st1 = Some st1"
    using shrink_tail_id[OF c(2) last_area_bound[OF c(2)]] c(3) lim(2) by (simp add: Heap_Inv.frame_def)
  then have f: "heap_free ops p st = Some st1" using c(1) by simp
  then have k: "kfree ops p st = Some st1" using pe(1) by (simp add: kfree_def)
  have other: "block (pre @ post) q j" if q: "B q = Some j" "q \<noteq> p" for q j
  proof -
    obtain b t where b: "(b, t, False) \<in> set as" "ptr_of b q" "q + j + 8 \<le> b + t" "q mod 4 = 0"
      using serves_block[OF sv q(1)] by metis
    then have "b \<noteq> x" using same_area_same_ptr[of x p q] x(2,4) q(2) by auto
    then show ?thesis using b as by (auto simp: block_def)
  qed
  have blk: "block ?as q j" if "block (pre @ post) q j" for q j
    using that unfolding block_def used_areas_iff[symmetric, of _ _ "pre @ post"] coalesce_used[symmetric, of pre post x s] used_areas_iff .
  obtain y t where h: "(y, t, True) \<in> set (pre @ post)" "k \<le> t" using sv as by (auto simp: heap_serves_def)
  have hole: "\<exists>y t. (y, t, True) \<in> set ?as \<and> k \<le> t" using coalesce_hole[OF h(1), of x s] h(2) by (meson le_trans)
  have "heap_serves ?as (B(p := None)) k st1"
    using sv as c(2,3) capacity_heap_free[OF f] other blk hole coalesce_no_adjacent[of pre x s post] coalesce_used_addrs[of pre x s post]
    unfolding heap_serves_def capacity_def Heap_Inv.frame_def by auto
  moreover have "kmem st1 (q + i) = kmem st (q + i)" if "B q = Some m" "q \<noteq> p" "i < m" for q m i
    by (rule block_kept[OF other[OF that(1,2)] c(4) that(3)])
  ultimately show ?thesis using k by blast
qed

lemma write_serves:
  assumes sv: "heap_serves as B k st" and p: "B p = Some n" "i < n"
  shows "heap_serves as B k (st\<lparr> kmem := (kmem st)(p + i := v) \<rparr>)"
proof -
  obtain x s where x: "(x, s, False) \<in> set as" "ptr_of x p" "p + n + 8 \<le> x + s"
    using serves_block[OF sv p(1)] by metis
  have "heap_inv (st\<lparr> kmem := (kmem st)(p + i := v) \<rparr>) as"
    by (rule heap_inv_interior[of st as x s False]) (use sv x p(2) in \<open>auto simp: heap_serves_def ptr_of_def\<close>)
  then show ?thesis using sv by (simp add: heap_serves_def)
qed

lemma separate_serves:
  assumes sv: "heap_serves as B k st" and "B p = Some n" "B q = Some m" "p \<noteq> q"
  shows "p + n \<le> q \<or> q + m \<le> p"
proof -
  have inv: "heap_inv st as" using sv by (simp add: heap_serves_def)
  obtain x s where x: "(x, s, False) \<in> set as" "ptr_of x p" "p + n + 8 \<le> x + s" "p mod 4 = 0"
    using serves_block[OF sv assms(2)] by metis
  obtain y t where y: "(y, t, False) \<in> set as" "ptr_of y q" "q + m + 8 \<le> y + t" "q mod 4 = 0"
    using serves_block[OF sv assms(3)] by metis
  have "x \<noteq> y" using same_area_same_ptr[of x p q] x y assms(4) by auto
  moreover obtain pre post where "as = pre @ (x, s, False) # post" using x(1) by (meson split_list)
  ultimately have "y + t \<le> x \<or> x + s \<le> y" using heap_inv_split_disjoint[of st pre x s False post y t False] inv y(1) by auto
  then show ?thesis using x(2,3) y(2,3) by (auto simp: ptr_of_def)
qed

interpretation kal: allocator "kmalloc (ops :: 'v vm_ops)" "kfree ops" kmem "\<lambda>m st. st\<lparr> kmem := m \<rparr>" kheap_ok
proof
  fix s :: "'v kst" and B k n
  assume "kheap_ok s B k" "0 < n" "n + 64 \<le> k"
  then obtain as p st' as' where o: "heap_serves as B k s" "kmalloc ops n s = Some (p, st')" "0 < p" "B p = None"
    "heap_serves as' (B(p \<mapsto> n)) (k - (n + 64)) st'" "kept (kmem s) (kmem st') (used_areas as)"
    using kmalloc_serves unfolding kheap_ok_def by meson
  moreover have "kmem st' (q + i) = kmem s (q + i)" if "B q = Some m" "i < m" for q m i
    by (rule block_kept[OF _ o(6) that(2)]) (use o(1) that(1) in \<open>auto simp: heap_serves_def\<close>)
  ultimately show "\<exists>p s'. kmalloc ops n s = Some (p, s') \<and> 0 < p \<and> B p = None \<and> kheap_ok s' (B(p \<mapsto> n)) (k - (n + 64)) \<and>
      (\<forall>q m i. B q = Some m \<and> i < m \<longrightarrow> kmem s' (q + i) = kmem s (q + i))"
    unfolding kheap_ok_def by blast
next
  fix s :: "'v kst" and B k p n
  assume "kheap_ok s B k" "B p = Some n"
  then show "\<exists>s'. kfree ops p s = Some s' \<and> kheap_ok s' (B(p := None)) k \<and>
      (\<forall>q m i. B q = Some m \<and> q \<noteq> p \<and> i < m \<longrightarrow> kmem s' (q + i) = kmem s (q + i))"
    using kfree_serves unfolding kheap_ok_def by meson
next
  show "kheap_ok s B' j" if ok: "kheap_ok s B k" "j \<le> k" "B' \<subseteq>\<^sub>m B" for s :: "'v kst" and B k j B'
  proof -
    obtain as where as: "heap_serves as B k s" using ok(1) by (auto simp: kheap_ok_def)
    have "B p = Some n" if "B' p = Some n" for p n using \<open>B' \<subseteq>\<^sub>m B\<close> that by (metis domI map_le_def)
    moreover have "j div 32 \<le> k div 32" using ok(2) by (rule div_le_mono)
    moreover have "\<exists>x s. (x, s, True) \<in> set as \<and> j \<le> s" using as ok(2) unfolding heap_serves_def by (meson le_trans)
    ultimately have "heap_serves as B' j s" using as unfolding heap_serves_def by auto
    then show ?thesis by (auto simp: kheap_ok_def)
  qed
next
  show "kheap_ok s B k \<Longrightarrow> B p = Some n \<Longrightarrow> 0 < p \<and> 0 < n" for s :: "'v kst" and B k p n
    unfolding kheap_ok_def heap_serves_def block_def ptr_of_def by fastforce
qed (use write_serves separate_serves in \<open>auto simp: kheap_ok_def intro: write_serves dest: separate_serves\<close>)

end
