(* ===== verification/Klist.thy ===== *)
theory Klist
  imports Kalloc
begin

text \<open>
  The doubly linked lists of \<open>src/kernel/list.c\<close>.  Nodes and list heads live in blocks of the kernel heap;
  the model keeps their contents in two typed stores indexed by the addresses of the blocks.  Reading a
  field of an address that is not in the store is an access outside every object and gives \<open>None\<close>, and so
  does every failed \<open>assert\<close>.  The operations that allocate or free take \<open>kmalloc\<close> and \<open>kfree\<close> as arguments;
  the lemmas about them are proved for every allocator with the contract of \<open>Kalloc\<close> and hold for the
  kernel heap by its interpretation.
\<close>

subsection \<open>State\<close>

record node_t =
  data :: nat
  prev :: nat
  nnext :: nat
  owner :: nat

record list_t =
  head :: nat
  tail :: nat
  lcount :: nat

record 's list_st =
  lheap :: 's
  nodes :: "nat \<rightharpoonup> node_t"
  lists :: "nat \<rightharpoonup> list_t"

abbreviation (input) sizeof_node_t :: nat where "sizeof_node_t \<equiv> 16"
abbreviation (input) sizeof_list_t :: nat where "sizeof_list_t \<equiv> 16"

text \<open>Assignments to a field of a node or of a list.\<close>

definition upd_node :: "nat \<Rightarrow> (node_t \<Rightarrow> node_t) \<Rightarrow> 's list_st \<Rightarrow> 's list_st option" where
  "upd_node p f s = (case nodes s p of None \<Rightarrow> None | Some n \<Rightarrow> Some (s\<lparr> nodes := (nodes s)(p \<mapsto> f n) \<rparr>))"

definition upd_list :: "nat \<Rightarrow> (list_t \<Rightarrow> list_t) \<Rightarrow> 's list_st \<Rightarrow> 's list_st option" where
  "upd_list l f s = (case lists s l of None \<Rightarrow> None | Some L \<Rightarrow> Some (s\<lparr> lists := (lists s)(l \<mapsto> f L) \<rparr>))"

subsection \<open>Operations\<close>

partial_function (option) validate_loop :: "nat \<Rightarrow> nat \<Rightarrow> nat \<Rightarrow> 's list_st \<Rightarrow> nat option" where
  "validate_loop l it actual_count s = (if it = 0 then Some actual_count else do {
     n \<leftarrow> nodes s it;
     assertK (owner n = l);
     ok \<leftarrow> (if nnext n \<noteq> 0 then do { n' \<leftarrow> nodes s (nnext n); Some (prev n' = it) } else Some True);
     assertK ok;
     validate_loop l (nnext n) (add32 actual_count 1) s })"

definition list_validate :: "nat \<Rightarrow> 's list_st \<Rightarrow> unit option" where
  "list_validate l s = do {
     assertK (l \<noteq> 0);
     L \<leftarrow> lists s l;
     if lcount L = 0 then assertK (head L = 0 \<and> tail L = 0) else do {
       assertK (head L \<noteq> 0);
       assertK (tail L \<noteq> 0);
       assertK (lcount L > 1 \<longrightarrow> head L \<noteq> tail L);
       h \<leftarrow> nodes s (head L);
       assertK (prev h = 0);
       t \<leftarrow> nodes s (tail L);
       assertK (nnext t = 0);
       actual_count \<leftarrow> validate_loop l (head L) 0 s;
       assertK (lcount L = actual_count) } }"

definition list_size :: "nat \<Rightarrow> 's list_st \<Rightarrow> nat option" where
  "list_size l s = do {
     assertK (l \<noteq> 0);
     list_validate l s;
     L \<leftarrow> lists s l;
     Some (lcount L) }"

text \<open>\<open>kmalloc(sizeof(node_t))\<close> and the four assignments that set up the node.\<close>

definition new_node :: "(nat \<Rightarrow> 's \<Rightarrow> (nat \<times> 's) option) \<Rightarrow> nat \<Rightarrow> nat \<Rightarrow> nat \<Rightarrow> nat \<Rightarrow> 's list_st \<Rightarrow> (nat \<times> 's list_st) option" where
  "new_node malloc d p n l s = do {
     (new, h) \<leftarrow> malloc sizeof_node_t (lheap s);
     Some (new, s\<lparr> lheap := h, nodes := (nodes s)(new \<mapsto> \<lparr> data = d, prev = p, nnext = n, owner = l \<rparr>) \<rparr>) }"

definition list_prepend :: "(nat \<Rightarrow> 's \<Rightarrow> (nat \<times> 's) option) \<Rightarrow> nat \<Rightarrow> nat \<Rightarrow> 's list_st \<Rightarrow> (nat \<times> 's list_st) option" where
  "list_prepend malloc l d s = do {
     assertK (l \<noteq> 0);
     L \<leftarrow> lists s l;
     if head L \<noteq> 0 then do {
       let old_head = head L;
       (new, s1) \<leftarrow> new_node malloc d 0 old_head l s;
       h \<leftarrow> nodes s1 old_head;
       assertK (prev h = 0);
       s2 \<leftarrow> upd_node old_head (\<lambda>n. n\<lparr> prev := new \<rparr>) s1;
       s3 \<leftarrow> upd_list l (\<lambda>L. L\<lparr> head := new, lcount := add32 (lcount L) 1 \<rparr>) s2;
       list_validate l s3;
       Some (new, s3) }
     else do {
       assertK (tail L = 0);
       assertK (lcount L = 0);
       (new, s1) \<leftarrow> new_node malloc d 0 0 l s;
       s2 \<leftarrow> upd_list l (\<lambda>L. L\<lparr> lcount := add32 (lcount L) 1, head := new, tail := new \<rparr>) s1;
       list_validate l s2;
       Some (new, s2) } }"

definition list_create :: "(nat \<Rightarrow> 's \<Rightarrow> (nat \<times> 's) option) \<Rightarrow> 's list_st \<Rightarrow> (nat \<times> 's list_st) option" where
  "list_create malloc s = do {
     (new, h) \<leftarrow> malloc sizeof_list_t (lheap s);
     let s1 = s\<lparr> lheap := h, lists := (lists s)(new \<mapsto> \<lparr> head = 0, tail = 0, lcount = 0 \<rparr>) \<rparr>;
     list_validate new s1;
     Some (new, s1) }"

text \<open>The loop of \<open>list_copy\<close>; \<open>copy_data\<close> is the optional function that copies the data, which may allocate.\<close>

partial_function (option) copy_loop :: "(nat \<Rightarrow> 's \<Rightarrow> (nat \<times> 's) option) \<Rightarrow> (nat \<Rightarrow> 's \<Rightarrow> (nat \<times> 's) option) option \<Rightarrow> nat \<Rightarrow> nat \<Rightarrow> nat \<Rightarrow> 's list_st \<Rightarrow> 's list_st option" where
  "copy_loop malloc copy_data cp it prv s = (if it = 0 then Some s else do {
     (new, s1) \<leftarrow> new_node malloc 0 prv 0 cp s;
     s2 \<leftarrow> (if prv \<noteq> 0 then upd_node prv (\<lambda>n. n\<lparr> nnext := new \<rparr>) s1 else Some s1);
     n \<leftarrow> nodes s2 it;
     (d, h) \<leftarrow> (case copy_data of None \<Rightarrow> Some (data n, lheap s2) | Some f \<Rightarrow> f (data n) (lheap s2));
     s3 \<leftarrow> upd_node new (\<lambda>n. n\<lparr> data := d \<rparr>) (s2\<lparr> lheap := h \<rparr>);
     s4 \<leftarrow> upd_list cp (\<lambda>L. L\<lparr> lcount := add32 (lcount L) 1, tail := new, head := (if head L = 0 then new else head L) \<rparr>) s3;
     n' \<leftarrow> nodes s4 it;
     copy_loop malloc copy_data cp (nnext n') new s4 })"

definition list_copy :: "(nat \<Rightarrow> 's \<Rightarrow> (nat \<times> 's) option) \<Rightarrow> (nat \<Rightarrow> 's \<Rightarrow> (nat \<times> 's) option) option \<Rightarrow> nat \<Rightarrow> 's list_st \<Rightarrow> (nat \<times> 's list_st) option" where
  "list_copy malloc copy_data orig s = do {
     assertK (orig \<noteq> 0);
     (cp, h) \<leftarrow> malloc sizeof_list_t (lheap s);
     let s1 = s\<lparr> lheap := h, lists := (lists s)(cp \<mapsto> \<lparr> head = 0, tail = 0, lcount = 0 \<rparr>) \<rparr>;
     L \<leftarrow> lists s1 orig;
     s2 \<leftarrow> copy_loop malloc copy_data cp (head L) 0 s1;
     list_validate cp s2;
     Some (cp, s2) }"

definition list_append :: "(nat \<Rightarrow> 's \<Rightarrow> (nat \<times> 's) option) \<Rightarrow> nat \<Rightarrow> nat \<Rightarrow> 's list_st \<Rightarrow> (nat \<times> 's list_st) option" where
  "list_append malloc l d s = do {
     assertK (l \<noteq> 0);
     L \<leftarrow> lists s l;
     if tail L \<noteq> 0 then do {
       (new, s1) \<leftarrow> new_node malloc d (tail L) 0 l s;
       t \<leftarrow> nodes s1 (tail L);
       assertK (nnext t = 0);
       s2 \<leftarrow> upd_node (tail L) (\<lambda>n. n\<lparr> nnext := new \<rparr>) s1;
       s3 \<leftarrow> upd_list l (\<lambda>L. L\<lparr> tail := new, lcount := add32 (lcount L) 1 \<rparr>) s2;
       list_validate l s3;
       Some (new, s3) }
     else do {
       assertK (head L = 0);
       assertK (lcount L = 0);
       (new, s1) \<leftarrow> new_node malloc d 0 0 l s;
       s2 \<leftarrow> upd_list l (\<lambda>L. L\<lparr> head := new, tail := new, lcount := add32 (lcount L) 1 \<rparr>) s1;
       list_validate l s2;
       Some (new, s2) } }"

definition list_node_insert_before :: "(nat \<Rightarrow> 's \<Rightarrow> (nat \<times> 's) option) \<Rightarrow> nat \<Rightarrow> nat \<Rightarrow> 's list_st \<Rightarrow> (nat \<times> 's list_st) option" where
  "list_node_insert_before malloc node d s = do {
     assertK (node \<noteq> 0);
     n \<leftarrow> nodes s node;
     assertK (owner n \<noteq> 0);
     let l = owner n;
     L \<leftarrow> lists s l;
     if prev n = 0 then do {
       assertK (head L = node);
       list_prepend malloc l d s }
     else do {
       assertK (head L \<noteq> node);
       (new, s1) \<leftarrow> new_node malloc d (prev n) node l s;
       assertK (prev n \<noteq> 0);
       s2 \<leftarrow> upd_node (prev n) (\<lambda>n. n\<lparr> nnext := new \<rparr>) s1;
       s3 \<leftarrow> upd_node node (\<lambda>n. n\<lparr> prev := new \<rparr>) s2;
       s4 \<leftarrow> upd_list l (\<lambda>L. L\<lparr> lcount := add32 (lcount L) 1 \<rparr>) s3;
       list_validate l s4;
       Some (new, s4) } }"

definition list_node_insert_after :: "(nat \<Rightarrow> 's \<Rightarrow> (nat \<times> 's) option) \<Rightarrow> nat \<Rightarrow> nat \<Rightarrow> 's list_st \<Rightarrow> (nat \<times> 's list_st) option" where
  "list_node_insert_after malloc node d s = do {
     assertK (node \<noteq> 0);
     n \<leftarrow> nodes s node;
     assertK (owner n \<noteq> 0);
     let l = owner n;
     L \<leftarrow> lists s l;
     if nnext n = 0 then do {
       assertK (tail L = node);
       list_append malloc l d s }
     else do {
       assertK (tail L \<noteq> node);
       assertK (nnext n \<noteq> 0);
       (new, s1) \<leftarrow> new_node malloc d node (nnext n) l s;
       s2 \<leftarrow> upd_node node (\<lambda>n. n\<lparr> nnext := new \<rparr>) s1;
       s3 \<leftarrow> upd_node (nnext n) (\<lambda>n. n\<lparr> prev := new \<rparr>) s2;
       s4 \<leftarrow> upd_list l (\<lambda>L. L\<lparr> lcount := add32 (lcount L) 1 \<rparr>) s3;
       list_validate l s4;
       Some (new, s4) } }"

text \<open>\<open>kfree\<close> of a node or of a list head takes it out of its store.\<close>

definition free_node :: "(nat \<Rightarrow> 's \<Rightarrow> 's option) \<Rightarrow> nat \<Rightarrow> 's list_st \<Rightarrow> 's list_st option" where
  "free_node free p s = do { h \<leftarrow> free p (lheap s); Some (s\<lparr> lheap := h, nodes := (nodes s)(p := None) \<rparr>) }"

definition list_remove_node :: "(nat \<Rightarrow> 's \<Rightarrow> 's option) \<Rightarrow> nat \<Rightarrow> nat \<Rightarrow> 's list_st \<Rightarrow> 's list_st option" where
  "list_remove_node free l elem s = do {
     assertK (l \<noteq> 0);
     assertK (elem \<noteq> 0);
     e \<leftarrow> nodes s elem;
     assertK (owner e = l);
     s1 \<leftarrow> (if prev e \<noteq> 0 then upd_node (prev e) (\<lambda>n. n\<lparr> nnext := nnext e \<rparr>) s else Some s);
     s2 \<leftarrow> (if nnext e \<noteq> 0 then upd_node (nnext e) (\<lambda>n. n\<lparr> prev := prev e \<rparr>) s1 else Some s1);
     s3 \<leftarrow> upd_list l (\<lambda>L. L\<lparr> lcount := sub32 (lcount L) 1, head := (if elem = head L then nnext e else head L),
                              tail := (if elem = tail L then prev e else tail L) \<rparr>) s2;
     list_validate l s3;
     free_node free elem s3 }"

partial_function (option) destroy_loop :: "(nat \<Rightarrow> 's \<Rightarrow> 's option) \<Rightarrow> nat \<Rightarrow> 's list_st \<Rightarrow> 's list_st option" where
  "destroy_loop free it s = (if it = 0 then Some s else do {
     n \<leftarrow> nodes s it;
     s1 \<leftarrow> free_node free it s;
     destroy_loop free (nnext n) s1 })"

definition list_destroy :: "(nat \<Rightarrow> 's \<Rightarrow> 's option) \<Rightarrow> nat \<Rightarrow> 's list_st \<Rightarrow> 's list_st option" where
  "list_destroy free l s = do {
     assertK (l \<noteq> 0);
     list_validate l s;
     L \<leftarrow> lists s l;
     s1 \<leftarrow> destroy_loop free (head L) s;
     s2 \<leftarrow> upd_list l (\<lambda>L. L\<lparr> head := 0, tail := 0, lcount := 0 \<rparr>) s1;
     h \<leftarrow> free l (lheap s2);
     Some (s2\<lparr> lheap := h, lists := (lists s2)(l := None) \<rparr>) }"

text \<open>The searches; \<open>step\<close> is the field that leads to the next node.\<close>

partial_function (option) find_loop :: "(node_t \<Rightarrow> nat) \<Rightarrow> nat \<Rightarrow> nat \<Rightarrow> 's list_st \<Rightarrow> nat option" where
  "find_loop step d it s = (if it = 0 then Some 0 else do {
     n \<leftarrow> nodes s it;
     if data n = d then Some it else find_loop step d (step n) s })"

definition list_find_first :: "nat \<Rightarrow> nat \<Rightarrow> 's list_st \<Rightarrow> nat option" where
  "list_find_first l d s = do {
     assertK (l \<noteq> 0);
     L \<leftarrow> lists s l;
     assertK (head L \<noteq> 0);
     list_validate l s;
     find_loop nnext d (head L) s }"

definition list_find_last :: "nat \<Rightarrow> nat \<Rightarrow> 's list_st \<Rightarrow> nat option" where
  "list_find_last l d s = do {
     assertK (l \<noteq> 0);
     L \<leftarrow> lists s l;
     assertK (tail L \<noteq> 0);
     list_validate l s;
     find_loop prev d (tail L) s }"

definition list_remove_first :: "(nat \<Rightarrow> 's \<Rightarrow> 's option) \<Rightarrow> nat \<Rightarrow> nat \<Rightarrow> 's list_st \<Rightarrow> (bool \<times> 's list_st) option" where
  "list_remove_first free l d s = do {
     assertK (l \<noteq> 0);
     n \<leftarrow> list_find_first l d s;
     if n \<noteq> 0 then do { s' \<leftarrow> list_remove_node free l n s; Some (True, s') } else Some (False, s) }"

definition list_remove_last :: "(nat \<Rightarrow> 's \<Rightarrow> 's option) \<Rightarrow> nat \<Rightarrow> nat \<Rightarrow> 's list_st \<Rightarrow> (bool \<times> 's list_st) option" where
  "list_remove_last free l d s = do {
     assertK (l \<noteq> 0);
     n \<leftarrow> list_find_last l d s;
     if n \<noteq> 0 then do { s' \<leftarrow> list_remove_node free l n s; Some (True, s') } else Some (False, s) }"

text \<open>The two loops of \<open>list_node_find_next_predicate\<close>: to the end of the list, and from its head up to
  the node itself.  The predicate is a function of the node's address.\<close>

partial_function (option) next_loop :: "(nat \<Rightarrow> bool) \<Rightarrow> nat \<Rightarrow> nat \<Rightarrow> 's list_st \<Rightarrow> nat option" where
  "next_loop pred it stop s = (if it = stop then Some 0 else do {
     n \<leftarrow> nodes s it;
     if pred it then Some it else next_loop pred (nnext n) stop s })"

definition list_node_find_next_predicate :: "(nat \<Rightarrow> bool) \<Rightarrow> nat \<Rightarrow> 's list_st \<Rightarrow> nat option" where
  "list_node_find_next_predicate pred node s = do {
     assertK (node \<noteq> 0);
     n \<leftarrow> nodes s node;
     r \<leftarrow> next_loop pred (nnext n) 0 s;
     if r \<noteq> 0 then Some r else do {
       L \<leftarrow> lists s (owner n);
       r' \<leftarrow> next_loop pred (head L) node s;
       assertK (r' \<noteq> node);
       Some r' } }"

subsection \<open>The list a head represents\<close>

text \<open>A list is given by the addresses and the data of its nodes in order.\<close>

fun first :: "nat \<Rightarrow> (nat \<times> nat) list \<Rightarrow> nat" where
  "first q [] = q"
| "first q ((a, d) # xs) = a"

definition lastp :: "nat \<Rightarrow> (nat \<times> nat) list \<Rightarrow> nat" where
  "lastp p xs = (if xs = [] then p else fst (last xs))"

fun chain :: "(nat \<rightharpoonup> node_t) \<Rightarrow> nat \<Rightarrow> nat \<Rightarrow> nat \<Rightarrow> (nat \<times> nat) list \<Rightarrow> bool" where
  "chain N l p q [] = True"
| "chain N l p q ((a, d) # xs) \<longleftrightarrow> a \<noteq> 0 \<and> N a = Some \<lparr> data = d, prev = p, nnext = first q xs, owner = l \<rparr> \<and> chain N l a q xs"

definition list_is :: "'s list_st \<Rightarrow> nat \<Rightarrow> (nat \<times> nat) list \<Rightarrow> bool" where
  "list_is s l xs \<longleftrightarrow> l \<noteq> 0 \<and> lists s l = Some \<lparr> head = first 0 xs, tail = lastp 0 xs, lcount = length xs \<rparr> \<and>
     chain (nodes s) l 0 0 xs \<and> distinct (map fst xs) \<and> length xs < W32"

lemma lastp_simps [simp]: "lastp p [] = p" "lastp p (xs @ [x]) = fst x" "lastp p (x # xs) = lastp (fst x) xs"
  by (simp_all add: lastp_def)

lemma lastp_append [simp]: "lastp p (xs @ ys) = lastp (lastp p xs) ys"
  by (simp add: lastp_def)

lemma first_append [simp]: "first q (xs @ ys) = first (first q ys) xs"
  by (cases xs) auto

lemma chain_append: "chain N l p q (xs @ ys) \<longleftrightarrow> chain N l p (first q ys) xs \<and> chain N l (lastp p xs) q ys"
  by (induction N l p q xs rule: chain.induct) auto

lemma chain_cong: "(\<And>a. a \<in> fst ` set xs \<Longrightarrow> N' a = N a) \<Longrightarrow> chain N' l p q xs = chain N l p q xs"
  by (induction N l p q xs rule: chain.induct) auto

lemma chain_nonzero: "chain N l p q xs \<Longrightarrow> a \<in> fst ` set xs \<Longrightarrow> a \<noteq> 0 \<and> (\<exists>n. N a = Some n \<and> owner n = l)"
  by (induction N l p q xs rule: chain.induct) auto

lemma first_zero: "chain N l p q xs \<Longrightarrow> first 0 xs = 0 \<longleftrightarrow> xs = []"
  by (cases xs) auto

lemma lastp_zero: "chain N l p q xs \<Longrightarrow> lastp 0 xs = 0 \<longleftrightarrow> xs = []"
  using chain_nonzero[of N l p q xs "fst (last xs)"] by (auto simp: lastp_def)

text \<open>The node at a position of the list.\<close>

lemma chain_node:
  "chain N l p q (xs @ (a, d) # ys) \<Longrightarrow> N a = Some \<lparr> data = d, prev = lastp p xs, nnext = first q ys, owner = l \<rparr> \<and> a \<noteq> 0"
  by (simp add: chain_append)

lemma chain_set_next:
  assumes "chain N l p q xs" "distinct (map fst xs)" "\<And>a. a \<in> fst ` set (butlast xs) \<Longrightarrow> N' a = N a"
    "xs \<noteq> [] \<Longrightarrow> N' (lastp 0 xs) = map_option (\<lambda>n. n\<lparr> nnext := q' \<rparr>) (N (lastp 0 xs))"
  shows "chain N' l p q' xs"
proof (cases xs rule: rev_cases)
  case (snoc zs z)
  then have "chain N' l p (fst z) zs = chain N l p (fst z) zs" using assms(3) by (intro chain_cong) auto
  then show ?thesis using assms(1,4) snoc by (cases z) (auto simp: chain_append)
qed simp

lemma chain_set_prev:
  assumes "chain N l p q xs" "distinct (map fst xs)" "\<And>a. a \<in> fst ` set (tl xs) \<Longrightarrow> N' a = N a"
    "xs \<noteq> [] \<Longrightarrow> N' (first 0 xs) = map_option (\<lambda>n. n\<lparr> prev := p' \<rparr>) (N (first 0 xs))"
  shows "chain N' l p' q xs"
proof (cases xs)
  case (Cons z zs)
  then have "chain N' l (fst z) q zs = chain N l (fst z) q zs" using assms(3) by (intro chain_cong) auto
  then show ?thesis using assms(1,4) Cons by (cases z) auto
qed simp

subsection \<open>Validation\<close>

lemma validate_loop_ok:
  "chain (nodes s) l p 0 xs \<Longrightarrow> c + length xs < W32 \<Longrightarrow> validate_loop l (first 0 xs) c s = Some (c + length xs)"
proof (induction xs arbitrary: p c)
  case (Cons x xs)
  obtain a d where x: "x = (a, d)" by (cases x)
  have n: "nodes s a = Some \<lparr> data = d, prev = p, nnext = first 0 xs, owner = l \<rparr>" "a \<noteq> 0" "chain (nodes s) l a 0 xs"
    using Cons.prems(1) x by auto
  have "first 0 xs = 0 \<or> (\<exists>n'. nodes s (first 0 xs) = Some n' \<and> prev n' = a)" using n(3) by (cases xs) auto
  then show ?case using n Cons.IH[OF n(3), of "c + 1"] Cons.prems(2) x by (subst validate_loop.simps) auto
qed (simp add: validate_loop.simps)

lemma list_validate_ok: "list_is s l xs \<Longrightarrow> list_validate l s = Some ()"
proof (cases xs)
  case Nil
  then show "list_is s l xs \<Longrightarrow> ?thesis" by (simp add: list_is_def list_validate_def)
next
  case (Cons x zs)
  assume l: "list_is s l xs"
  obtain ys y where snoc: "xs = ys @ [y]" using Cons by (metis list.distinct(1) rev_exhaust)
  have h: "nodes s (fst x) = Some \<lparr> data = snd x, prev = 0, nnext = first 0 zs, owner = l \<rparr>" "fst x \<noteq> 0"
    using l Cons by (cases x, simp add: list_is_def)+
  have t: "nodes s (fst y) = Some \<lparr> data = snd y, prev = lastp 0 ys, nnext = 0, owner = l \<rparr>" "fst y \<noteq> 0"
    using l snoc by (cases y, simp add: list_is_def chain_append)+
  have f: "first 0 xs = fst x" using Cons by (cases x) simp
  have f': "lastp 0 xs = fst y" using snoc by simp
  have L: "lists s l = Some \<lparr> head = fst x, tail = fst y, lcount = length xs \<rparr>" "l \<noteq> 0" using l f f' by (auto simp: list_is_def)
  have "fst x \<noteq> fst y" if "length xs > 1"
  proof -
    have "y \<in> set zs" using that Cons snoc by (cases ys) auto
    then show "fst x \<noteq> fst y" using l Cons by (auto simp: list_is_def)
  qed
  moreover have "validate_loop l (fst x) 0 s = Some (length xs)"
    using validate_loop_ok[of s l 0 xs 0] l f by (simp add: list_is_def)
  moreover have "length xs \<noteq> 0" using Cons by simp
  ultimately show ?thesis unfolding list_validate_def L(1) by (simp add: h t L(2))
qed

subsection \<open>Insertion\<close>

text \<open>No other list is changed.\<close>

definition others_kept :: "nat \<Rightarrow> 's list_st \<Rightarrow> 's list_st \<Rightarrow> bool" where
  "others_kept l s s' \<longleftrightarrow> (\<forall>m zs. m \<noteq> l \<and> list_is s m zs \<longrightarrow> list_is s' m zs)"

lemma others_keptI:
  assumes "\<And>m. m \<noteq> l \<Longrightarrow> lists s m \<noteq> None \<Longrightarrow> lists s' m = lists s m"
    "\<And>a n. nodes s a = Some n \<Longrightarrow> owner n \<noteq> l \<Longrightarrow> nodes s' a = Some n"
  shows "others_kept l s s'"
  unfolding others_kept_def
proof (intro allI impI)
  fix m zs assume m: "m \<noteq> l \<and> list_is s m zs"
  then have c: "chain (nodes s) m 0 0 zs" by (simp add: list_is_def)
  have "nodes s' a = nodes s a" if "a \<in> fst ` set zs" for a
    using chain_nonzero[OF c that] assms(2)[of a] m by auto
  then have "chain (nodes s') m 0 0 zs" using chain_cong[of zs "nodes s'" "nodes s"] c by blast
  then show "list_is s' m zs" using m assms(1)[of m] by (auto simp: list_is_def)
qed

lemma others_kept_trans: "others_kept l s s' \<Longrightarrow> others_kept l s' s'' \<Longrightarrow> others_kept l s s''"
  by (simp add: others_kept_def)

text \<open>The store after a new node has been linked in between \<open>xs\<close> and \<open>ys\<close>.\<close>

lemma link_ok:
  assumes l: "list_is s l (xs @ ys)" "Suc (length (xs @ ys)) < W32" and new: "new \<noteq> 0" "nodes s new = None"
    and N: "nodes s' new = Some \<lparr> data = d, prev = lastp 0 xs, nnext = first 0 ys, owner = l \<rparr>"
      "xs \<noteq> [] \<Longrightarrow> nodes s' (lastp 0 xs) = map_option (\<lambda>n. n\<lparr> nnext := new \<rparr>) (nodes s (lastp 0 xs))"
      "ys \<noteq> [] \<Longrightarrow> nodes s' (first 0 ys) = map_option (\<lambda>n. n\<lparr> prev := new \<rparr>) (nodes s (first 0 ys))"
      "\<And>a. a \<noteq> new \<Longrightarrow> (xs \<noteq> [] \<Longrightarrow> a \<noteq> lastp 0 xs) \<Longrightarrow> (ys \<noteq> [] \<Longrightarrow> a \<noteq> first 0 ys) \<Longrightarrow> nodes s' a = nodes s a"
    and L: "lists s' = (lists s)(l \<mapsto> \<lparr> head = first new xs, tail = lastp new ys, lcount = Suc (length (xs @ ys)) \<rparr>)"
  shows "list_is s' l (xs @ (new, d) # ys) \<and> others_kept l s s'"
proof
  have c: "chain (nodes s) l 0 (first 0 ys) xs" "chain (nodes s) l (lastp 0 xs) 0 ys" "distinct (map fst (xs @ ys))"
    using l(1) by (auto simp: list_is_def chain_append)
  have fresh: "new \<notin> fst ` set (xs @ ys)" using chain_nonzero[of "nodes s" l 0 0 "xs @ ys" new] l(1) new(2) by (auto simp: list_is_def)
  then have fresh': "new \<notin> fst ` set xs" "new \<notin> fst ` set ys" by (auto simp: image_Un)
  have lx: "lastp 0 xs \<in> fst ` set xs" if "xs \<noteq> []" using that by (simp add: lastp_def)
  have fy: "first 0 ys \<in> fst ` set ys" if "ys \<noteq> []" using that by (cases ys) auto
  have disj: "fst ` set xs \<inter> fst ` set ys = {}" using c(3) by auto
  have cx: "chain (nodes s') l 0 new xs"
  proof (rule chain_set_next[OF c(1)])
    fix a assume a: "a \<in> fst ` set (butlast xs)"
    then have "a \<noteq> lastp 0 xs" using c(3) by (cases xs rule: rev_cases) (auto simp: rev_image_eqI)
    moreover have "a \<in> fst ` set xs" using a by (auto dest: in_set_butlastD)
    moreover from this have "a \<noteq> new" "ys \<noteq> [] \<Longrightarrow> a \<noteq> first 0 ys" using fresh' fy disj by blast+
    ultimately show "nodes s' a = nodes s a" using N(4)[of a] by blast
  qed (use c(3) N(2) in auto)
  have cy: "chain (nodes s') l new 0 ys"
  proof (rule chain_set_prev[OF c(2)])
    fix a assume a: "a \<in> fst ` set (tl ys)"
    then have "a \<noteq> first 0 ys" using c(3) by (cases ys) (auto simp: rev_image_eqI)
    moreover have "a \<in> fst ` set ys" using a by (cases ys) auto
    moreover from this have "a \<noteq> new" "xs \<noteq> [] \<Longrightarrow> a \<noteq> lastp 0 xs" using fresh' lx disj by blast+
    ultimately show "nodes s' a = nodes s a" using N(4)[of a] by blast
  qed (use c(3) N(3) in auto)
  show "list_is s' l (xs @ (new, d) # ys)"
    using l L cx cy N(1) new(1) fresh c(3) by (auto simp: list_is_def chain_append)
  show "others_kept l s s'"
  proof (rule others_keptI)
    show "lists s' m = lists s m" if "m \<noteq> l" for m using that L by simp
    fix a n assume a: "nodes s a = Some n" "owner n \<noteq> l"
    have "owner m = l" if "nodes s b = Some m" "b \<in> fst ` set (xs @ ys)" for b m
      using chain_nonzero[of "nodes s" l 0 0 "xs @ ys" b] that l(1) by (auto simp: list_is_def)
    then have "a \<notin> fst ` set xs" "a \<notin> fst ` set ys" using a by (auto simp: image_Un)
    moreover have "a \<noteq> new" using a(1) new(2) by auto
    ultimately show "nodes s' a = Some n" using N(4)[of a] a(1) lx fy by metis
  qed
qed

subsection \<open>Unlinking\<close>

text \<open>The nodes after the neighbours of a node between \<open>xs\<close> and \<open>ys\<close> have been linked to each other.\<close>

definition unlinked :: "(nat \<times> nat) list \<Rightarrow> (nat \<times> nat) list \<Rightarrow> (nat \<rightharpoonup> node_t) \<Rightarrow> (nat \<rightharpoonup> node_t)" where
  "unlinked xs ys N = (let N1 = (if xs = [] then N else N(lastp 0 xs := map_option (\<lambda>n. n\<lparr> nnext := first 0 ys \<rparr>) (N (lastp 0 xs))))
     in if ys = [] then N1 else N1(first 0 ys := map_option (\<lambda>n. n\<lparr> prev := lastp 0 xs \<rparr>) (N1 (first 0 ys))))"

lemma first_eq: "first p xs = (if xs = [] then p else fst (hd xs))"
  by (cases xs) auto

lemma lastp_eq: "lastp p xs = (if xs = [] then p else fst (last xs))"
  by (simp add: lastp_def)

lemma unlinked_dom: "dom (unlinked xs ys N) = dom N"
  by (auto simp: unlinked_def Let_def split: if_splits)

lemma lastp_in: "xs \<noteq> [] \<Longrightarrow> lastp p xs \<in> fst ` set xs"
  by (simp add: lastp_def)

lemma map_le_upd: "B x = None \<Longrightarrow> B(x \<mapsto> v) \<subseteq>\<^sub>m B' \<Longrightarrow> B \<subseteq>\<^sub>m B'"
  by (metis fun_upd_triv fun_upd_upd map_le_trans upd_None_map_le)

lemma unlink_facts:
  assumes l: "list_is s l (xs @ (a, d) # ys)"
  shows "chain (nodes s) l 0 a xs" "chain (nodes s) l a 0 ys" "distinct (map fst xs)" "distinct (map fst ys)"
  "fst ` set xs \<inter> fst ` set ys = {}" "a \<notin> fst ` set xs" "a \<notin> fst ` set ys"
  "xs \<noteq> [] \<Longrightarrow> lastp 0 xs \<in> fst ` set xs" "ys \<noteq> [] \<Longrightarrow> first 0 ys \<in> fst ` set ys"
  using l by (auto simp: list_is_def chain_append lastp_def first_eq)

lemma unlinked_at:
  assumes l: "list_is s l (xs @ (a, d) # ys)"
  shows "xs \<noteq> [] \<Longrightarrow> unlinked xs ys (nodes s) (lastp 0 xs) = map_option (\<lambda>n. n\<lparr> nnext := first 0 ys \<rparr>) (nodes s (lastp 0 xs))"
  "ys \<noteq> [] \<Longrightarrow> unlinked xs ys (nodes s) (first 0 ys) = map_option (\<lambda>n. n\<lparr> prev := lastp 0 xs \<rparr>) (nodes s (first 0 ys))"
  "(xs \<noteq> [] \<Longrightarrow> b \<noteq> lastp 0 xs) \<Longrightarrow> (ys \<noteq> [] \<Longrightarrow> b \<noteq> first 0 ys) \<Longrightarrow> unlinked xs ys (nodes s) b = nodes s b"
proof -
  have "xs \<noteq> [] \<Longrightarrow> ys \<noteq> [] \<Longrightarrow> lastp 0 xs \<noteq> first 0 ys" using unlink_facts(5,8,9)[OF l] by force
  then show "xs \<noteq> [] \<Longrightarrow> unlinked xs ys (nodes s) (lastp 0 xs) = map_option (\<lambda>n. n\<lparr> nnext := first 0 ys \<rparr>) (nodes s (lastp 0 xs))"
    "ys \<noteq> [] \<Longrightarrow> unlinked xs ys (nodes s) (first 0 ys) = map_option (\<lambda>n. n\<lparr> prev := lastp 0 xs \<rparr>) (nodes s (first 0 ys))"
    by (auto simp: unlinked_def Let_def)
qed (simp add: unlinked_def Let_def)

lemma unlinked_owner:
  assumes l: "list_is s l (xs @ (a, d) # ys)" and b: "nodes s b = Some n" "owner n \<noteq> l"
  shows "unlinked xs ys (nodes s) b = Some n"
proof -
  have "b \<notin> fst ` set xs" "b \<notin> fst ` set ys"
    using chain_nonzero[OF unlink_facts(1)[OF l], of b] chain_nonzero[OF unlink_facts(2)[OF l], of b] b by auto
  then show ?thesis using unlinked_at(3)[OF l, of b] unlink_facts(8,9)[OF l] b(1) by metis
qed

lemma unlink_ok:
  assumes l: "list_is s l (xs @ (a, d) # ys)"
  shows "list_is (s\<lparr> nodes := unlinked xs ys (nodes s), lists := (lists s)(l \<mapsto> \<lparr> head = first (first 0 ys) xs, tail = lastp (lastp 0 xs) ys,
     lcount = length (xs @ ys) \<rparr>) \<rparr>) l (xs @ ys)"
proof -
  have cx: "chain (unlinked xs ys (nodes s)) l 0 (first 0 ys) xs"
  proof (rule chain_set_next[OF unlink_facts(1)[OF l]])
    fix b assume b: "b \<in> fst ` set (butlast xs)"
    then have "b \<noteq> lastp 0 xs" using unlink_facts(3)[OF l] by (cases xs rule: rev_cases) (auto simp: rev_image_eqI)
    moreover have "b \<in> fst ` set xs" using b by (auto dest: in_set_butlastD)
    ultimately show "unlinked xs ys (nodes s) b = nodes s b" using unlink_facts(5,9)[OF l] by (intro unlinked_at(3)[OF l]) blast+
  qed (use unlink_facts(3)[OF l] unlinked_at(1)[OF l] in auto)
  have cy: "chain (unlinked xs ys (nodes s)) l (lastp 0 xs) 0 ys"
  proof (rule chain_set_prev[OF unlink_facts(2)[OF l]])
    fix b assume b: "b \<in> fst ` set (tl ys)"
    then have "b \<noteq> first 0 ys" using unlink_facts(4)[OF l] by (cases ys) (auto simp: rev_image_eqI)
    moreover have "b \<in> fst ` set ys" using b by (cases ys) auto
    ultimately show "unlinked xs ys (nodes s) b = nodes s b" using unlink_facts(5,8)[OF l] by (intro unlinked_at(3)[OF l]) blast+
  qed (use unlink_facts(4)[OF l] unlinked_at(2)[OF l] in auto)
  show ?thesis using cx cy l by (auto simp: list_is_def chain_append)
qed

text \<open>The first two assignments of \<open>list_remove_node\<close>.\<close>

lemma unlink_step:
  assumes l: "list_is s l (xs @ (a, d) # ys)"
  shows "\<exists>s1. (if lastp 0 xs \<noteq> 0 then upd_node (lastp 0 xs) (\<lambda>n. n\<lparr> nnext := first 0 ys \<rparr>) s else Some s) = Some s1 \<and>
    (if first 0 ys \<noteq> 0 then upd_node (first 0 ys) (\<lambda>n. n\<lparr> prev := lastp 0 xs \<rparr>) s1 else Some s1) = Some (s\<lparr> nodes := unlinked xs ys (nodes s) \<rparr>)"
proof -
  note f = unlink_facts[OF l]
  have "lastp 0 xs \<noteq> 0 \<longleftrightarrow> xs \<noteq> []" "first 0 ys \<noteq> 0 \<longleftrightarrow> ys \<noteq> []" using lastp_zero[OF f(1)] first_zero[OF f(2)] by auto
  moreover obtain n where "xs \<noteq> [] \<Longrightarrow> nodes s (lastp 0 xs) = Some n" using chain_nonzero[OF f(1) f(8)] by blast
  moreover obtain m where "ys \<noteq> [] \<Longrightarrow> nodes s (first 0 ys) = Some m" using chain_nonzero[OF f(2) f(9)] by blast
  moreover have "xs \<noteq> [] \<Longrightarrow> ys \<noteq> [] \<Longrightarrow> lastp 0 xs \<noteq> first 0 ys" using f(5,8,9) by force
  ultimately show ?thesis by (cases "xs = []"; cases "ys = []") (simp_all add: upd_node_def unlinked_def)
qed

subsection \<open>Searching\<close>

text \<open>The address of the first node that satisfies a predicate, or \<open>NULL\<close>.\<close>

definition found :: "(nat \<times> nat \<Rightarrow> bool) \<Rightarrow> (nat \<times> nat) list \<Rightarrow> nat" where
  "found P xs = (case find P xs of None \<Rightarrow> 0 | Some x \<Rightarrow> fst x)"

lemma found_simps [simp]: "found P [] = 0" "found P (x # xs) = (if P x then fst x else found P xs)"
  by (simp_all add: found_def)

lemma found_append: "\<forall>x \<in> set xs. fst x \<noteq> 0 \<Longrightarrow> found P (xs @ ys) = (if found P xs \<noteq> 0 then found P xs else found P ys)"
  by (induction xs) auto

lemma find_loop_next: "chain (nodes s) l p 0 xs \<Longrightarrow> find_loop nnext d (first 0 xs) s = Some (found (\<lambda>x. snd x = d) xs)"
proof (induction xs arbitrary: p)
  case (Cons x xs)
  then show ?case by (cases x, subst find_loop.simps) auto
qed (simp add: find_loop.simps)

lemma find_loop_prev: "chain (nodes s) l 0 q xs \<Longrightarrow> find_loop prev d (lastp 0 xs) s = Some (found (\<lambda>x. snd x = d) (rev xs))"
proof (induction xs arbitrary: q rule: rev_induct)
  case (snoc x xs)
  then show ?case by (cases x, subst find_loop.simps) (auto simp: chain_append)
qed (simp add: find_loop.simps)

lemma list_find_ok:
  assumes "list_is s l xs" "xs \<noteq> []"
  shows "list_find_first l d s = Some (found (\<lambda>x. snd x = d) xs)" "list_find_last l d s = Some (found (\<lambda>x. snd x = d) (rev xs))"
proof -
  have c: "chain (nodes s) l 0 0 xs" using assms(1) by (simp add: list_is_def)
  have z: "first 0 xs \<noteq> 0" "lastp 0 xs \<noteq> 0" using first_zero[OF c] lastp_zero[OF c] assms(2) by auto
  show "list_find_first l d s = Some (found (\<lambda>x. snd x = d) xs)" "list_find_last l d s = Some (found (\<lambda>x. snd x = d) (rev xs))"
    using assms(1) z find_loop_next[OF c] find_loop_prev[OF c] list_validate_ok[OF assms(1)]
    by (simp_all add: list_find_first_def list_find_last_def list_is_def)
qed

lemma next_loop_ok:
  "chain (nodes s) l p q xs \<Longrightarrow> q \<notin> fst ` set xs \<Longrightarrow> next_loop pred (first q xs) q s = Some (found (\<lambda>x. pred (fst x)) xs)"
proof (induction xs arbitrary: p)
  case (Cons x xs)
  obtain a d where x: "x = (a, d)" by (cases x)
  then show ?case using Cons by (subst next_loop.simps) auto
qed (simp add: next_loop.simps)

lemma find_next_ok:
  assumes l: "list_is s l (xs @ (a, d) # ys)"
  shows "list_node_find_next_predicate pred a s = Some (found (\<lambda>x. pred (fst x)) (ys @ xs))"
proof -
  have N: "nodes s a = Some \<lparr> data = d, prev = lastp 0 xs, nnext = first 0 ys, owner = l \<rparr>" "a \<noteq> 0"
    using chain_node[of "nodes s" l 0 0 xs a d ys] l by (auto simp: list_is_def)
  note f = unlink_facts[OF l]
  have nz: "\<forall>x \<in> set ys. fst x \<noteq> 0" using chain_nonzero[OF f(2)] by auto
  have 1: "next_loop pred (first 0 ys) 0 s = Some (found (\<lambda>x. pred (fst x)) ys)" by (rule next_loop_ok[OF f(2)]) (use nz in auto)
  have 2: "next_loop pred (first a xs) a s = Some (found (\<lambda>x. pred (fst x)) xs)" by (rule next_loop_ok[OF f(1) f(6)])
  have "found (\<lambda>x. pred (fst x)) xs \<noteq> a" using f(6) N(2) by (induction xs) auto
  moreover have "lists s l = Some \<lparr> head = first a xs, tail = lastp a ys, lcount = Suc (length (xs @ ys)) \<rparr>" using l by (simp add: list_is_def)
  ultimately show ?thesis using N 1 2 found_append[OF nz, of "\<lambda>x. pred (fst x)" xs] by (simp add: list_node_find_next_predicate_def)
qed

context allocator
begin

text \<open>The stores hold exactly blocks of the right size.\<close>

definition store_ok :: "'s list_st \<Rightarrow> (nat \<rightharpoonup> nat) \<Rightarrow> nat \<Rightarrow> bool" where
  "store_ok s B k \<longleftrightarrow> inv (lheap s) B k \<and> (\<forall>p \<in> dom (nodes s). B p = Some 16) \<and> (\<forall>l \<in> dom (lists s). B l = Some 16) \<and>
     dom (nodes s) \<inter> dom (lists s) = {}"

lemma new_node_ok:
  assumes "store_ok s B k" "80 \<le> k"
  obtains new h where "\<And>d p n l. new_node malloc d p n l s =
      Some (new, s\<lparr> lheap := h, nodes := (nodes s)(new \<mapsto> \<lparr> data = d, prev = p, nnext = n, owner = l \<rparr>) \<rparr>)"
    "new \<noteq> 0" "nodes s new = None" "lists s new = None" "B new = None" "inv h (B(new \<mapsto> 16)) (k - 80)"
proof -
  obtain new h where m: "malloc 16 (lheap s) = Some (new, h)" "0 < new" "B new = None" "inv h (B(new \<mapsto> 16)) (k - 80)"
    using malloc_law[of "lheap s" B k 16] assms by (auto simp: store_ok_def)
  have "nodes s new = None" "lists s new = None" using assms(1) m(3) by (force simp: store_ok_def)+
  then show thesis using m by (intro that[of new h]) (auto simp: new_node_def)
qed

text \<open>The result of linking in a new node after \<open>xs\<close>.\<close>

definition inserted :: "'s list_st \<Rightarrow> nat \<Rightarrow> (nat \<times> nat) list \<Rightarrow> (nat \<times> nat) list \<Rightarrow> nat \<Rightarrow> (nat \<rightharpoonup> nat) \<Rightarrow> nat \<Rightarrow> nat \<Rightarrow> 's list_st \<Rightarrow> bool" where
  "inserted s l xs ys d B k new s' \<longleftrightarrow> list_is s' l (xs @ (new, d) # ys) \<and> others_kept l s s' \<and> B new = None \<and>
     store_ok s' (B(new \<mapsto> 16)) (k - 80)"

lemma linkI:
  assumes l: "list_is s l (xs @ ys)" "Suc (length (xs @ ys)) < W32" and ok: "store_ok s B k"
    and new: "new \<noteq> 0" "nodes s new = None" "lists s new = None" "B new = None" "inv (lheap s') (B(new \<mapsto> 16)) (k - 80)"
    and N: "nodes s' new = Some \<lparr> data = d, prev = lastp 0 xs, nnext = first 0 ys, owner = l \<rparr>"
      "xs \<noteq> [] \<Longrightarrow> nodes s' (lastp 0 xs) = map_option (\<lambda>n. n\<lparr> nnext := new \<rparr>) (nodes s (lastp 0 xs))"
      "ys \<noteq> [] \<Longrightarrow> nodes s' (first 0 ys) = map_option (\<lambda>n. n\<lparr> prev := new \<rparr>) (nodes s (first 0 ys))"
      "\<And>a. a \<noteq> new \<Longrightarrow> (xs \<noteq> [] \<Longrightarrow> a \<noteq> lastp 0 xs) \<Longrightarrow> (ys \<noteq> [] \<Longrightarrow> a \<noteq> first 0 ys) \<Longrightarrow> nodes s' a = nodes s a"
    and L: "lists s' = (lists s)(l \<mapsto> \<lparr> head = first new xs, tail = lastp new ys, lcount = Suc (length (xs @ ys)) \<rparr>)"
  shows "list_validate l s' = Some () \<and> inserted s l xs ys d B k new s'"
proof -
  have lo: "list_is s' l (xs @ (new, d) # ys)" "others_kept l s s'" using link_ok[OF l new(1,2) N L] by auto
  have lx: "nodes s (lastp 0 xs) \<noteq> None" if "xs \<noteq> []"
    using chain_nonzero[of "nodes s" l 0 0 "xs @ ys" "lastp 0 xs"] l(1) that by (auto simp: list_is_def lastp_def)
  have fy: "nodes s (first 0 ys) \<noteq> None" if "ys \<noteq> []"
    using chain_nonzero[of "nodes s" l 0 0 "xs @ ys" "first 0 ys"] l(1) that by (cases ys) (auto simp: list_is_def)
  have dn: "dom (nodes s') \<subseteq> insert new (dom (nodes s))"
  proof
    fix a assume a: "a \<in> dom (nodes s')"
    show "a \<in> insert new (dom (nodes s))"
    proof (cases "a = new \<or> xs \<noteq> [] \<and> a = lastp 0 xs \<or> ys \<noteq> [] \<and> a = first 0 ys")
      case True then show ?thesis using lx fy by blast
    next
      case False
      then have "nodes s' a = nodes s a" using N(4)[of a] by blast
      then show ?thesis using a by (simp add: domIff)
    qed
  qed
  have dl: "dom (lists s') = dom (lists s)" using l(1) L by (auto simp: list_is_def)
  have o: "\<forall>p \<in> dom (nodes s). B p = Some 16" "\<forall>l \<in> dom (lists s). B l = Some 16" "dom (nodes s) \<inter> dom (lists s) = {}"
    using ok by (auto simp: store_ok_def)
  have nl: "new \<notin> dom (lists s)" using new(3) by (simp add: domIff)
  have "(B(new \<mapsto> 16)) p = Some 16" if "p \<in> dom (nodes s') \<or> p \<in> dom (lists s)" for p
  proof (cases "p = new")
    case False
    then have "B p = Some 16" using that dn o(1,2) by blast
    then show ?thesis using False by simp
  qed simp
  moreover have "dom (nodes s') \<inter> dom (lists s) = {}" using dn o(3) nl by blast
  ultimately have "store_ok s' (B(new \<mapsto> 16)) (k - 80)" unfolding store_ok_def dl using new(5) by blast
  then show ?thesis using lo new(4) list_validate_ok[OF lo(1)] by (simp add: inserted_def)
qed

lemma list_append_ok:
  assumes l: "list_is s l xs" "Suc (length xs) < W32" and ok: "store_ok s B k" "80 \<le> k"
  shows "\<exists>new s'. list_append malloc l d s = Some (new, s') \<and> inserted s l xs [] d B k new s'"
proof -
  obtain new h where n: "\<And>d p n l. new_node malloc d p n l s =
      Some (new, s\<lparr> lheap := h, nodes := (nodes s)(new \<mapsto> \<lparr> data = d, prev = p, nnext = n, owner = l \<rparr>) \<rparr>)"
    "new \<noteq> 0" "nodes s new = None" "lists s new = None" "B new = None" "inv h (B(new \<mapsto> 16)) (k - 80)"
    using new_node_ok[OF ok] by blast
  have L: "l \<noteq> 0" "lists s l = Some \<lparr> head = first 0 xs, tail = lastp 0 xs, lcount = length xs \<rparr>" using l(1) by (auto simp: list_is_def)
  show ?thesis
  proof (cases xs rule: rev_cases)
    case Nil
    define s' where "s' = s\<lparr> lheap := h, nodes := (nodes s)(new \<mapsto> \<lparr> data = d, prev = 0, nnext = 0, owner = l \<rparr>),
      lists := (lists s)(l \<mapsto> \<lparr> head = new, tail = new, lcount = 1 \<rparr>) \<rparr>"
    have "list_validate l s' = Some () \<and> inserted s l [] [] d B k new s'"
      by (rule linkI) (use l ok n Nil in \<open>auto simp: s'_def\<close>)
    then show ?thesis using Nil L n(1) by (intro exI[of _ new] exI[of _ s']) (simp add: list_append_def upd_list_def s'_def)
  next
    case (snoc zs z)
    obtain a e where z: "z = (a, e)" by (cases z)
    have a: "nodes s a = Some \<lparr> data = e, prev = lastp 0 zs, nnext = 0, owner = l \<rparr>" "a \<noteq> 0"
      using chain_node[of "nodes s" l 0 0 zs a e "[]"] l(1) snoc z by (auto simp: list_is_def)
    define s' where "s' = s\<lparr> lheap := h, nodes := (nodes s)(new \<mapsto> \<lparr> data = d, prev = a, nnext = 0, owner = l \<rparr>,
        a \<mapsto> \<lparr> data = e, prev = lastp 0 zs, nnext = new, owner = l \<rparr>),
      lists := (lists s)(l \<mapsto> \<lparr> head = first 0 xs, tail = new, lcount = Suc (length xs) \<rparr>) \<rparr>"
    have "a \<noteq> new" using a(1) n(3) by auto
    then have "list_validate l s' = Some () \<and> inserted s l xs [] d B k new s'"
      by (intro linkI) (use l ok n snoc z a in \<open>auto simp: s'_def\<close>)
    moreover have "list_append malloc l d s = (do { list_validate l s'; Some (new, s') })"
      using snoc z L n(1) a \<open>a \<noteq> new\<close> l(2) by (simp add: list_append_def upd_list_def upd_node_def s'_def)
    ultimately show ?thesis by auto
  qed
qed

lemma list_prepend_ok:
  assumes l: "list_is s l xs" "Suc (length xs) < W32" and ok: "store_ok s B k" "80 \<le> k"
  shows "\<exists>new s'. list_prepend malloc l d s = Some (new, s') \<and> inserted s l [] xs d B k new s'"
proof -
  obtain new h where n: "\<And>d p n l. new_node malloc d p n l s =
      Some (new, s\<lparr> lheap := h, nodes := (nodes s)(new \<mapsto> \<lparr> data = d, prev = p, nnext = n, owner = l \<rparr>) \<rparr>)"
    "new \<noteq> 0" "nodes s new = None" "lists s new = None" "B new = None" "inv h (B(new \<mapsto> 16)) (k - 80)"
    using new_node_ok[OF ok] by blast
  have L: "l \<noteq> 0" "lists s l = Some \<lparr> head = first 0 xs, tail = lastp 0 xs, lcount = length xs \<rparr>" using l(1) by (auto simp: list_is_def)
  show ?thesis
  proof (cases xs)
    case Nil
    define s' where "s' = s\<lparr> lheap := h, nodes := (nodes s)(new \<mapsto> \<lparr> data = d, prev = 0, nnext = 0, owner = l \<rparr>),
      lists := (lists s)(l \<mapsto> \<lparr> head = new, tail = new, lcount = 1 \<rparr>) \<rparr>"
    have "list_validate l s' = Some () \<and> inserted s l [] [] d B k new s'"
      by (rule linkI) (use l ok n Nil in \<open>auto simp: s'_def\<close>)
    then show ?thesis using Nil L n(1) by (intro exI[of _ new] exI[of _ s']) (simp add: list_prepend_def upd_list_def s'_def)
  next
    case (Cons z zs)
    obtain a e where z: "z = (a, e)" by (cases z)
    have a: "nodes s a = Some \<lparr> data = e, prev = 0, nnext = first 0 zs, owner = l \<rparr>" "a \<noteq> 0"
      using l(1) Cons z by (auto simp: list_is_def)
    define s' where "s' = s\<lparr> lheap := h, nodes := (nodes s)(new \<mapsto> \<lparr> data = d, prev = 0, nnext = a, owner = l \<rparr>,
        a \<mapsto> \<lparr> data = e, prev = new, nnext = first 0 zs, owner = l \<rparr>),
      lists := (lists s)(l \<mapsto> \<lparr> head = new, tail = lastp 0 xs, lcount = Suc (length xs) \<rparr>) \<rparr>"
    have "a \<noteq> new" using a(1) n(3) by auto
    then have "list_validate l s' = Some () \<and> inserted s l [] xs d B k new s'"
      by (intro linkI) (use l ok n Cons z a in \<open>auto simp: s'_def\<close>)
    moreover have "list_prepend malloc l d s = (do { list_validate l s'; Some (new, s') })"
      using Cons z L n(1) a \<open>a \<noteq> new\<close> l(2) by (simp add: list_prepend_def upd_list_def upd_node_def s'_def)
    ultimately show ?thesis by auto
  qed
qed

text \<open>Insertion in the middle, between \<open>xs @ [(a, e)]\<close> and \<open>(b, f) # ys\<close>.\<close>

lemma link_middle:
  fixes d :: nat
  assumes l: "list_is s l (xs @ (a, e) # (b, f) # ys)" "Suc (length (xs @ (a, e) # (b, f) # ys)) < W32" and ok: "store_ok s B k"
    and n: "new \<noteq> 0" "nodes s new = None" "lists s new = None" "B new = None" "inv h (B(new \<mapsto> 16)) (k - 80)"
  defines "s' \<equiv> s\<lparr> lheap := h, nodes := (nodes s)(new \<mapsto> \<lparr> data = d, prev = a, nnext = b, owner = l \<rparr>,
        a \<mapsto> \<lparr> data = e, prev = lastp 0 xs, nnext = new, owner = l \<rparr>, b \<mapsto> \<lparr> data = f, prev = new, nnext = first 0 ys, owner = l \<rparr>),
      lists := (lists s)(l \<mapsto> \<lparr> head = first a xs, tail = lastp b ys, lcount = Suc (length (xs @ (a, e) # (b, f) # ys)) \<rparr>) \<rparr>"
  shows "list_validate l s' = Some () \<and> inserted s l (xs @ [(a, e)]) ((b, f) # ys) d B k new s'"
proof -
  have N: "nodes s a = Some \<lparr> data = e, prev = lastp 0 xs, nnext = b, owner = l \<rparr>" "a \<noteq> 0"
      "nodes s b = Some \<lparr> data = f, prev = a, nnext = first 0 ys, owner = l \<rparr>" "a \<noteq> b"
    using chain_node[of "nodes s" l 0 0 xs a e "(b, f) # ys"] chain_node[of "nodes s" l 0 0 "xs @ [(a, e)]" b f ys] l(1)
    by (auto simp: list_is_def)
  then have ne: "a \<noteq> new" "b \<noteq> new" using n(2) by auto
  have f: "first x (xs @ [(a, e)]) = first a xs" for x by simp
  show ?thesis
    by (rule linkI) (use l ok n N ne f in \<open>auto simp: s'_def\<close>)
qed

lemma list_node_insert_after_ok:
  assumes l: "list_is s l (xs @ (a, e) # ys)" "Suc (length (xs @ (a, e) # ys)) < W32" and ok: "store_ok s B k" "80 \<le> k"
  shows "\<exists>new s'. list_node_insert_after malloc a d s = Some (new, s') \<and> inserted s l (xs @ [(a, e)]) ys d B k new s'"
proof -
  have N: "nodes s a = Some \<lparr> data = e, prev = lastp 0 xs, nnext = first 0 ys, owner = l \<rparr>" "a \<noteq> 0"
    using chain_node[of "nodes s" l 0 0 xs a e ys] l(1) by (auto simp: list_is_def)
  have L: "l \<noteq> 0" "lists s l = Some \<lparr> head = first a xs, tail = lastp a ys, lcount = length (xs @ (a, e) # ys) \<rparr>"
    using l(1) by (auto simp: list_is_def)
  show ?thesis
  proof (cases ys)
    case Nil
    then show ?thesis using list_append_ok[of s l "xs @ [(a, e)]" B k d] l ok N L by (simp add: list_node_insert_after_def)
  next
    case (Cons y zs)
    obtain b f where y: "y = (b, f)" by (cases y)
    obtain new h where n: "\<And>d p n l. new_node malloc d p n l s =
        Some (new, s\<lparr> lheap := h, nodes := (nodes s)(new \<mapsto> \<lparr> data = d, prev = p, nnext = n, owner = l \<rparr>) \<rparr>)"
      "new \<noteq> 0" "nodes s new = None" "lists s new = None" "B new = None" "inv h (B(new \<mapsto> 16)) (k - 80)"
      using new_node_ok[OF ok] by blast
    have b: "nodes s b = Some \<lparr> data = f, prev = a, nnext = first 0 zs, owner = l \<rparr>" "b \<noteq> 0" "a \<noteq> b" "lastp a ys \<noteq> a"
      using chain_node[of "nodes s" l 0 0 "xs @ [(a, e)]" b f zs] l(1) Cons y by (auto simp: list_is_def lastp_def image_iff split: if_splits)
    note m = link_middle[OF l(1)[unfolded Cons y] l(2)[unfolded Cons y] ok(1) n(2-6), of d]
    have "a \<noteq> new" "b \<noteq> new" using N(1) b(1) n(3) by auto
    then show ?thesis using m N L n(1) b l(2) unfolding Cons y list_node_insert_after_def
      by (simp add: upd_list_def upd_node_def fun_upd_twist)
  qed
qed

lemma list_node_insert_before_ok:
  assumes l: "list_is s l (xs @ (b, f) # ys)" "Suc (length (xs @ (b, f) # ys)) < W32" and ok: "store_ok s B k" "80 \<le> k"
  shows "\<exists>new s'. list_node_insert_before malloc b d s = Some (new, s') \<and> inserted s l xs ((b, f) # ys) d B k new s'"
proof -
  have N: "nodes s b = Some \<lparr> data = f, prev = lastp 0 xs, nnext = first 0 ys, owner = l \<rparr>" "b \<noteq> 0"
    using chain_node[of "nodes s" l 0 0 xs b f ys] l(1) by (auto simp: list_is_def)
  have L: "l \<noteq> 0" "lists s l = Some \<lparr> head = first b xs, tail = lastp b ys, lcount = length (xs @ (b, f) # ys) \<rparr>"
    using l(1) by (auto simp: list_is_def)
  show ?thesis
  proof (cases xs rule: rev_cases)
    case Nil
    then show ?thesis using list_prepend_ok[of s l "(b, f) # ys" B k d] l ok N L by (simp add: list_node_insert_before_def)
  next
    case (snoc zs z)
    obtain a e where z: "z = (a, e)" by (cases z)
    obtain new h where n: "\<And>d p n l. new_node malloc d p n l s =
        Some (new, s\<lparr> lheap := h, nodes := (nodes s)(new \<mapsto> \<lparr> data = d, prev = p, nnext = n, owner = l \<rparr>) \<rparr>)"
      "new \<noteq> 0" "nodes s new = None" "lists s new = None" "B new = None" "inv h (B(new \<mapsto> 16)) (k - 80)"
      using new_node_ok[OF ok] by blast
    have x: "xs @ (b, f) # ys = zs @ (a, e) # (b, f) # ys" using snoc z by simp
    have a: "nodes s a = Some \<lparr> data = e, prev = lastp 0 zs, nnext = b, owner = l \<rparr>" "a \<noteq> 0"
      using chain_node[of "nodes s" l 0 0 zs a e "(b, f) # ys"] l(1) x by (auto simp: list_is_def)
    have h: "first a zs \<noteq> b" "a \<noteq> b" using l(1) unfolding x by (cases zs; auto simp: list_is_def)+
    note m = link_middle[OF l(1)[unfolded x] l(2)[unfolded x] ok(1) n(2-6), of d]
    have "a \<noteq> new" "b \<noteq> new" using N(1) a(1) n(3) by auto
    then show ?thesis using m N L n(1) a h l(2) unfolding x snoc z list_node_insert_before_def
      by (simp add: upd_list_def upd_node_def)
  qed
qed

subsection \<open>Removal\<close>

lemma list_remove_node_ok:
  assumes l: "list_is s l (xs @ (a, d) # ys)" and ok: "store_ok s B k"
  shows "\<exists>s'. list_remove_node free l a s = Some s' \<and> list_is s' l (xs @ ys) \<and> others_kept l s s' \<and> store_ok s' (B(a := None)) k"
proof -
  let ?ny = "unlinked xs ys (nodes s)"
  define s3 where "s3 = s\<lparr> nodes := ?ny, lists := (lists s)(l \<mapsto> \<lparr> head = first (first 0 ys) xs, tail = lastp (lastp 0 xs) ys, lcount = length (xs @ ys) \<rparr>) \<rparr>"
  have u: "list_is s3 l (xs @ ys)" using unlink_ok[OF l] by (simp add: s3_def)
  have N: "nodes s a = Some \<lparr> data = d, prev = lastp 0 xs, nnext = first 0 ys, owner = l \<rparr>" "a \<noteq> 0"
    using chain_node[of "nodes s" l 0 0 xs a d ys] l by (auto simp: list_is_def)
  have L: "l \<noteq> 0" "lists s l = Some \<lparr> head = first a xs, tail = lastp a ys, lcount = Suc (length (xs @ ys)) \<rparr>" "Suc (length (xs @ ys)) < W32"
    using l by (auto simp: list_is_def)
  obtain h where h: "free a (lheap s) = Some h" "inv h (B(a := None)) k"
    using free_law[of "lheap s" B k a 16] ok N(1) by (force simp: store_ok_def)
  define s' where "s' = s3\<lparr> lheap := h, nodes := ?ny(a := None) \<rparr>"
  have ends: "a = first a xs \<longleftrightarrow> xs = []" "a = lastp a ys \<longleftrightarrow> ys = []" using l by (auto simp: list_is_def lastp_def image_iff first_eq)
  obtain s1 where s1: "(if lastp 0 xs \<noteq> 0 then upd_node (lastp 0 xs) (\<lambda>n. n\<lparr> nnext := first 0 ys \<rparr>) s else Some s) = Some s1"
    "(if first 0 ys \<noteq> 0 then upd_node (first 0 ys) (\<lambda>n. n\<lparr> prev := lastp 0 xs \<rparr>) s1 else Some s1) = Some (s\<lparr> nodes := ?ny \<rparr>)"
    using unlink_step[OF l] by blast
  have hd: "(if a = first a xs then first 0 ys else first a xs) = first (first 0 ys) xs"
    "(if a = lastp a ys then lastp 0 xs else lastp a ys) = lastp (lastp 0 xs) ys" using ends by (auto simp: first_eq lastp_eq)
  have "list_remove_node free l a s = (do { list_validate l s3; free_node free a s3 })"
    unfolding list_remove_node_def
    by (simp only: N L(1) bind.bind_lunit node_t.select_convs bind_assertK s1 not_False_eq_True if_True)
      (use L(3) in \<open>simp add: L(2) upd_list_def s3_def hd cong: if_cong split del: if_split\<close>)
  then have "list_remove_node free l a s = Some s'" using list_validate_ok[OF u] h(1) by (simp add: free_node_def s'_def s3_def)
  moreover have "list_is s' l (xs @ ys)"
  proof -
    have "a \<notin> fst ` set (xs @ ys)" using l by (auto simp: list_is_def)
    then have "chain (?ny(a := None)) l 0 0 (xs @ ys) = chain ?ny l 0 0 (xs @ ys)" by (intro chain_cong) auto
    then show ?thesis using u by (simp add: list_is_def s'_def s3_def)
  qed
  moreover have "others_kept l s s'"
    by (rule others_keptI) (use unlinked_owner[OF l] N(1) in \<open>auto simp: s'_def s3_def\<close>)
  moreover have "store_ok s' (B(a := None)) k"
    using ok h(2) N(1) l unlinked_dom[of xs ys "nodes s"] unfolding store_ok_def by (auto simp: s'_def s3_def list_is_def)
  ultimately show ?thesis by blast
qed

lemma found_split:
  "found (\<lambda>x. snd x = d) xs \<noteq> 0 \<Longrightarrow> \<exists>ys zs. xs = ys @ (found (\<lambda>x. snd x = d) xs, d) # zs \<and> d \<notin> snd ` set ys"
proof (induction xs)
  case (Cons x xs)
  show ?case
  proof (cases "snd x = d")
    case True
    then show ?thesis by (intro exI[of _ "[]"] exI[of _ xs]) (auto simp: prod_eq_iff)
  next
    case False
    then obtain ys zs where "xs = ys @ (found (\<lambda>x. snd x = d) xs, d) # zs" "d \<notin> snd ` set ys" using Cons by auto
    then show ?thesis using False by (intro exI[of _ "x # ys"] exI[of _ zs]) auto
  qed
qed simp

lemma found_none: "\<forall>x \<in> set xs. fst x \<noteq> 0 \<Longrightarrow> found (\<lambda>x. snd x = d) xs = 0 \<longleftrightarrow> d \<notin> snd ` set xs"
  by (induction xs) auto

lemma list_remove_first_ok:
  assumes l: "list_is s l xs" "xs \<noteq> []" and ok: "store_ok s B k"
  shows "if d \<in> snd ` set xs
    then \<exists>ys a zs s'. xs = ys @ (a, d) # zs \<and> d \<notin> snd ` set ys \<and> list_remove_first free l d s = Some (True, s') \<and>
      list_is s' l (ys @ zs) \<and> others_kept l s s' \<and> store_ok s' (B(a := None)) k
    else list_remove_first free l d s = Some (False, s)"
proof -
  have nz: "\<forall>x \<in> set xs. fst x \<noteq> 0" using l(1) chain_nonzero[of "nodes s" l 0 0 xs] by (auto simp: list_is_def)
  have l0: "l \<noteq> 0" using l(1) by (simp add: list_is_def)
  let ?f = "found (\<lambda>x. snd x = d) xs"
  show ?thesis
  proof (cases "d \<in> snd ` set xs")
    case True
    then have f: "?f \<noteq> 0" using found_none[OF nz] by blast
    then obtain ys zs where e: "xs = ys @ (?f, d) # zs" "d \<notin> snd ` set ys" using found_split[of d xs] by blast
    obtain s' where "list_remove_node free l ?f s = Some s'" "list_is s' l (ys @ zs)" "others_kept l s s'" "store_ok s' (B(?f := None)) k"
      using list_remove_node_ok[of s l ys ?f d zs B k] l(1) e(1) ok by metis
    then have "list_remove_first free l d s = Some (True, s')" using f l0 list_find_ok(1)[OF l, of d] by (simp add: list_remove_first_def)
    then show ?thesis using True e \<open>list_is s' l (ys @ zs)\<close> \<open>others_kept l s s'\<close> \<open>store_ok s' (B(?f := None)) k\<close> by metis
  next
    case False
    then have "?f = 0" using found_none[OF nz] by blast
    then show ?thesis using False l0 list_find_ok(1)[OF l, of d] by (simp add: list_remove_first_def)
  qed
qed

subsection \<open>Creating, destroying and copying\<close>

lemma list_create_ok:
  assumes "store_ok s B k" "80 \<le> k"
  shows "\<exists>l s'. list_create malloc s = Some (l, s') \<and> list_is s' l [] \<and> others_kept l s s' \<and> lists s l = None \<and> B l = None \<and>
    nodes s' = nodes s \<and> store_ok s' (B(l \<mapsto> 16)) (k - 80)"
proof -
  obtain l h where m: "malloc 16 (lheap s) = Some (l, h)" "0 < l" "B l = None" "inv h (B(l \<mapsto> 16)) (k - 80)"
    using malloc_law[of "lheap s" B k 16] assms by (auto simp: store_ok_def)
  define s' where "s' = s\<lparr> lheap := h, lists := (lists s)(l \<mapsto> \<lparr> head = 0, tail = 0, lcount = 0 \<rparr>) \<rparr>"
  have n: "nodes s l = None" "lists s l = None" using assms(1) m(3) by (force simp: store_ok_def)+
  have li: "list_is s' l []" using m(2) by (simp add: list_is_def s'_def)
  have "list_create malloc s = Some (l, s')" using m list_validate_ok[OF li] by (simp add: list_create_def s'_def)
  moreover have "others_kept l s s'" by (rule others_keptI) (auto simp: s'_def)
  moreover have "store_ok s' (B(l \<mapsto> 16)) (k - 80)" using assms(1) m(3,4) n unfolding store_ok_def by (auto simp: s'_def)
  ultimately show ?thesis using li n m(3) by (auto simp: s'_def)
qed

lemma free_node_ok:
  assumes "store_ok s B k" "nodes s a = Some n"
  obtains h where "free_node free a s = Some (s\<lparr> lheap := h, nodes := (nodes s)(a := None) \<rparr>)"
    "store_ok (s\<lparr> lheap := h, nodes := (nodes s)(a := None) \<rparr>) (B(a := None)) k"
proof -
  have B: "B a = Some 16" using assms by (auto simp: store_ok_def)
  obtain h where h: "free a (lheap s) = Some h" "inv h (B(a := None)) k" using free_law[of "lheap s" B k a 16] B assms(1) by (auto simp: store_ok_def)
  have "lists s a = None" using assms unfolding store_ok_def by auto
  then have "store_ok (s\<lparr> lheap := h, nodes := (nodes s)(a := None) \<rparr>) (B(a := None)) k"
    using assms(1) h(2) unfolding store_ok_def by auto
  then show thesis using h(1) by (intro that[of h]) (simp_all add: free_node_def)
qed

lemma free_list_ok:
  assumes "store_ok s B k" "lists s l = Some L"
  obtains h where "free l (lheap s) = Some h" "store_ok (s\<lparr> lheap := h, lists := (lists s)(l := None) \<rparr>) (B(l := None)) k"
proof -
  have B: "B l = Some 16" using assms by (auto simp: store_ok_def)
  obtain h where h: "free l (lheap s) = Some h" "inv h (B(l := None)) k"
    using free_law[of "lheap s" B k l 16] B assms(1) by (auto simp: store_ok_def)
  have "nodes s l = None" using assms unfolding store_ok_def by auto
  then have "store_ok (s\<lparr> lheap := h, lists := (lists s)(l := None) \<rparr>) (B(l := None)) k"
    using assms(1) h(2) unfolding store_ok_def by auto
  then show thesis using h(1) by (intro that[of h])
qed

lemma destroy_loop_ok:
  assumes "store_ok s B k" "chain (nodes s) l p 0 xs" "distinct (map fst xs)"
  shows "\<exists>h. destroy_loop free (first 0 xs) s = Some (s\<lparr> lheap := h, nodes := nodes s |` (- fst ` set xs) \<rparr>) \<and>
    store_ok (s\<lparr> lheap := h, nodes := nodes s |` (- fst ` set xs) \<rparr>) (B |` (- fst ` set xs)) k"
  using assms
proof (induction xs arbitrary: s B p)
  case Nil
  then show ?case by (intro exI[of _ "lheap s"]) (simp add: destroy_loop.simps)
next
  case (Cons x xs)
  obtain a d where x: "x = (a, d)" by (cases x)
  have a: "nodes s a = Some \<lparr> data = d, prev = p, nnext = first 0 xs, owner = l \<rparr>" "a \<noteq> 0" "chain (nodes s) l a 0 xs"
    using Cons.prems(2) x by auto
  obtain h where h: "free_node free a s = Some (s\<lparr> lheap := h, nodes := (nodes s)(a := None) \<rparr>)"
    "store_ok (s\<lparr> lheap := h, nodes := (nodes s)(a := None) \<rparr>) (B(a := None)) k" using free_node_ok[OF Cons.prems(1) a(1)] by blast
  let ?s = "s\<lparr> lheap := h, nodes := (nodes s)(a := None) \<rparr>"
  have nin: "a \<notin> fst ` set xs" "distinct (map fst xs)" using Cons.prems(3) x by auto
  have "chain (nodes ?s) l a 0 xs = chain (nodes s) l a 0 xs" by (rule chain_cong) (use nin(1) in auto)
  then have c: "chain (nodes ?s) l a 0 xs" using a(3) by blast
  have r: "((nodes s)(a := None)) |` (- fst ` set xs) = nodes s |` (- fst ` set (x # xs))"
    "(B(a := None)) |` (- fst ` set xs) = B |` (- fst ` set (x # xs))"
    using x by (auto simp: restrict_map_def fun_eq_iff)
  obtain h' where "destroy_loop free (first 0 xs) ?s = Some (?s\<lparr> lheap := h', nodes := nodes ?s |` (- fst ` set xs) \<rparr>)"
    "store_ok (?s\<lparr> lheap := h', nodes := nodes ?s |` (- fst ` set xs) \<rparr>) ((B(a := None)) |` (- fst ` set xs)) k"
    using Cons.IH[OF h(2) c nin(2)] by blast
  then show ?case using a h(1) x r by (intro exI[of _ h']) (subst destroy_loop.simps, simp)
qed

lemma list_destroy_ok:
  assumes l: "list_is s l xs" and ok: "store_ok s B k"
  shows "\<exists>s'. list_destroy free l s = Some s' \<and> others_kept l s s' \<and> lists s' l = None \<and>
    nodes s' = nodes s |` (- fst ` set xs) \<and> store_ok s' (B |` (- insert l (fst ` set xs))) k"
proof -
  have c: "chain (nodes s) l 0 0 xs" "distinct (map fst xs)" "l \<noteq> 0"
    "lists s l = Some \<lparr> head = first 0 xs, tail = lastp 0 xs, lcount = length xs \<rparr>" using l by (auto simp: list_is_def)
  let ?N = "nodes s |` (- fst ` set xs)" and ?B = "B |` (- fst ` set xs)"
  obtain h where h: "destroy_loop free (first 0 xs) s = Some (s\<lparr> lheap := h, nodes := ?N \<rparr>)"
    "store_ok (s\<lparr> lheap := h, nodes := ?N \<rparr>) ?B k" using destroy_loop_ok[OF ok c(1,2)] by blast
  let ?s1 = "s\<lparr> lheap := h, nodes := ?N \<rparr>"
  have "lists ?s1 l = Some \<lparr> head = first 0 xs, tail = lastp 0 xs, lcount = length xs \<rparr>" using c(4) by simp
  then obtain h' where h': "free l (lheap ?s1) = Some h'" "store_ok (?s1\<lparr> lheap := h', lists := (lists ?s1)(l := None) \<rparr>) (?B(l := None)) k"
    by (rule free_list_ok[OF h(2)])
  define s' where "s' = ?s1\<lparr> lheap := h', lists := (lists ?s1)(l := None) \<rparr>"
  have "list_destroy free l s = Some s'" using c(3,4) h(1) h'(1) list_validate_ok[OF l] by (simp add: list_destroy_def upd_list_def s'_def)
  moreover have "?N a = Some n" if "nodes s a = Some n" "owner n \<noteq> l" for a n
    using chain_nonzero[OF c(1), of a] that by (auto simp: restrict_map_def)
  then have "others_kept l s s'" by (intro others_keptI) (auto simp: s'_def)
  moreover have "?B(l := None) = B |` (- insert l (fst ` set xs))" by (auto simp: restrict_map_def fun_eq_iff)
  moreover have "lists s' l = None" "nodes s' = ?N" by (simp_all add: s'_def)
  ultimately show ?thesis using h'(2)[folded s'_def] by metis
qed

text \<open>What \<open>list_copy\<close> needs of the function that copies the data: it takes at most \<open>c\<close> bytes of the heap,
  keeps the live blocks, and its result is related to the original by \<open>R\<close>.\<close>

definition copies :: "(nat \<Rightarrow> 's \<Rightarrow> (nat \<times> 's) option) option \<Rightarrow> nat \<Rightarrow> (nat \<Rightarrow> nat \<Rightarrow> bool) \<Rightarrow> bool" where
  "copies cd c R \<longleftrightarrow> (case cd of None \<Rightarrow> (\<forall>d. R d d)
    | Some f \<Rightarrow> (\<forall>d h B k. inv h B k \<and> c \<le> k \<longrightarrow> (\<exists>d' h' B'. f d h = Some (d', h') \<and> R d d' \<and> inv h' B' (k - c) \<and> B \<subseteq>\<^sub>m B')))"

lemma copy_data_ok:
  assumes "copies cd c R" "inv h B k" "c \<le> k"
  obtains d' h' B' where "(case cd of None \<Rightarrow> Some (d, h) | Some f \<Rightarrow> f d h) = Some (d', h')" "R d d'" "inv h' B' (k - c)" "B \<subseteq>\<^sub>m B'"
proof (cases cd)
  case None
  have "inv h B (k - c)" using weaken[OF assms(2), of "k - c" B] by simp
  then show ?thesis using None assms(1) that[of d h B] by (simp add: copies_def)
next
  case (Some f)
  then show ?thesis using assms that by (force simp: copies_def)
qed

text \<open>One round of the copying loop.\<close>

lemma copy_step:
  assumes ok: "store_ok s B k" and cp: "list_is s cp ys" "Suc (length ys) < W32" and a: "nodes s a = Some n" "owner n \<noteq> cp" "a \<noteq> 0"
    and cd: "copies cd c R" "80 + c \<le> k"
  shows "\<exists>new d' s4 B'. copy_loop malloc cd cp a (lastp 0 ys) s = copy_loop malloc cd cp (nnext n) new s4 \<and> R (data n) d' \<and>
    list_is s4 cp (ys @ [(new, d')]) \<and> others_kept cp s s4 \<and> store_ok s4 B' (k - (80 + c)) \<and> B \<subseteq>\<^sub>m B'"
proof -
  obtain new h where w: "\<And>d p n l. new_node malloc d p n l s =
      Some (new, s\<lparr> lheap := h, nodes := (nodes s)(new \<mapsto> \<lparr> data = d, prev = p, nnext = n, owner = l \<rparr>) \<rparr>)"
    "new \<noteq> 0" "nodes s new = None" "lists s new = None" "B new = None" "inv h (B(new \<mapsto> 16)) (k - 80)"
    using new_node_ok[OF ok] cd(2) by (metis add_leD1)
  obtain d' h' B' where f: "(case cd of None \<Rightarrow> Some (data n, h) | Some f \<Rightarrow> f (data n) h) = Some (d', h')" "R (data n) d'"
      "inv h' B' (k - 80 - c)" "B(new \<mapsto> 16) \<subseteq>\<^sub>m B'"
    using copy_data_ok[OF cd(1) w(6)] cd(2) by (metis le_diff_conv2 add.commute add_leD1)
  have c: "chain (nodes s) cp 0 0 ys" "cp \<noteq> 0" "lists s cp = Some \<lparr> head = first 0 ys, tail = lastp 0 ys, lcount = length ys \<rparr>"
    using cp(1) by (auto simp: list_is_def)
  define N where "N = (if ys = [] then (nodes s)(new \<mapsto> \<lparr> data = d', prev = 0, nnext = 0, owner = cp \<rparr>)
    else (nodes s)(new \<mapsto> \<lparr> data = d', prev = lastp 0 ys, nnext = 0, owner = cp \<rparr>,
      lastp 0 ys := map_option (\<lambda>n. n\<lparr> nnext := new \<rparr>) (nodes s (lastp 0 ys))))"
  define s4 where "s4 = s\<lparr> lheap := h', nodes := N, lists := (lists s)(cp \<mapsto> \<lparr> head = first new ys, tail = new, lcount = Suc (length ys) \<rparr>) \<rparr>"
  obtain m where m: "ys \<noteq> [] \<Longrightarrow> nodes s (lastp 0 ys) = Some m \<and> owner m = cp \<and> lastp 0 ys \<noteq> 0"
    using chain_nonzero[OF c(1), of "lastp 0 ys"] lastp_in[of ys] by blast
  have ne: "a \<noteq> new" "ys \<noteq> [] \<Longrightarrow> a \<noteq> lastp 0 ys" "ys \<noteq> [] \<Longrightarrow> lastp 0 ys \<noteq> new" using m a w(3) by auto
  have "list_is s4 cp (ys @ (new, d') # []) \<and> others_kept cp s s4"
    by (rule link_ok[where d = d']) (use cp w(2,3) ne m in \<open>auto simp: s4_def N_def\<close>)
  moreover have "copy_loop malloc cd cp a (lastp 0 ys) s = copy_loop malloc cd cp (nnext n) new s4"
    using a ne m c(2,3) f(1) cp(2) first_zero[OF c(1)]
    by (subst copy_loop.simps, cases "ys = []")
      (simp_all add: w(1) upd_node_def upd_list_def s4_def N_def first_eq fun_upd_twist cong: option.case_cong)
  moreover have "store_ok s4 B' (k - (80 + c))"
  proof -
    have "dom (nodes s4) = insert new (dom (nodes s))" "dom (lists s4) = dom (lists s)" using m c(3) by (auto simp: s4_def N_def)
    moreover have "B' p = Some 16" if "p = new \<or> B p = Some 16" for p
      using f(4) that w(5) unfolding map_le_def by (metis domI fun_upd_apply option.distinct(1))
    ultimately show ?thesis using ok f(3) w(4) unfolding store_ok_def s4_def by (auto simp: diff_diff_add)
  qed
  moreover have "B \<subseteq>\<^sub>m B'" by (rule map_le_upd[of B new]) (use f(4) w(5) in auto)
  ultimately show ?thesis using f(2) by (metis append_Cons append_Nil)
qed

lemma copy_loop_ok:
  assumes "store_ok s B k" "list_is s l (ws @ xs)" "list_is s cp ys" "l \<noteq> cp" "length ys + length xs < W32" "copies cd c R"
    "(80 + c) * length xs \<le> k"
  shows "\<exists>s' zs B'. copy_loop malloc cd cp (first 0 xs) (lastp 0 ys) s = Some s' \<and> list_is s' cp (ys @ zs) \<and>
    list_all2 R (map snd xs) (map snd zs) \<and> others_kept cp s s' \<and> store_ok s' B' (k - (80 + c) * length xs) \<and> B \<subseteq>\<^sub>m B'"
  using assms
proof (induction xs arbitrary: s B k ws ys)
  case Nil
  then show ?case by (intro exI[of _ s] exI[of _ "[]"] exI[of _ B]) (simp add: copy_loop.simps others_kept_def)
next
  case (Cons x xs)
  obtain a d where x: "x = (a, d)" by (cases x)
  have a: "nodes s a = Some \<lparr> data = d, prev = lastp 0 ws, nnext = first 0 xs, owner = l \<rparr>" "a \<noteq> 0"
    using chain_node[of "nodes s" l 0 0 ws a d xs] Cons.prems(2) x by (auto simp: list_is_def)
  obtain new d' s4 B4 where st: "copy_loop malloc cd cp a (lastp 0 ys) s = copy_loop malloc cd cp (first 0 xs) new s4" "R d d'"
      "list_is s4 cp (ys @ [(new, d')])" "others_kept cp s s4" "store_ok s4 B4 (k - (80 + c))" "B \<subseteq>\<^sub>m B4"
    using copy_step[OF Cons.prems(1,3) _ a(1) _ a(2) Cons.prems(6)] Cons.prems(4,5,7) by auto
  have l4: "list_is s4 l ((ws @ [x]) @ xs)" using st(4) Cons.prems(2,4) by (simp add: others_kept_def)
  have le: "length (ys @ [(new, d')]) + length xs < W32" "(80 + c) * length xs \<le> k - (80 + c)" using Cons.prems(5,7) by simp_all
  obtain s' zs B' where r: "copy_loop malloc cd cp (first 0 xs) (lastp 0 (ys @ [(new, d')])) s4 = Some s'" "list_is s' cp ((ys @ [(new, d')]) @ zs)"
    "list_all2 R (map snd xs) (map snd zs)" "others_kept cp s4 s'" "store_ok s' B' (k - (80 + c) - (80 + c) * length xs)" "B4 \<subseteq>\<^sub>m B'"
    using Cons.IH[OF st(5) l4 st(3) Cons.prems(4) le(1) Cons.prems(6) le(2)] by blast
  have "copy_loop malloc cd cp (first 0 (x # xs)) (lastp 0 ys) s = Some s'" using st(1) r(1) x by simp
  moreover have "list_is s' cp (ys @ (new, d') # zs)" using r(2) by simp
  moreover have "list_all2 R (map snd (x # xs)) (map snd ((new, d') # zs))" using r(3) st(2) x by simp
  moreover have "store_ok s' B' (k - (80 + c) * length (x # xs))" using r(5) by (simp add: diff_diff_add)
  ultimately show ?case using others_kept_trans[OF st(4) r(4)] map_le_trans[OF st(6) r(6)] by blast
qed

lemma list_copy_ok:
  assumes ok: "store_ok s B k" and l: "list_is s l xs" and cd: "copies cd c R" and k: "80 + (80 + c) * length xs \<le> k"
  shows "\<exists>cp s' ys B'. list_copy malloc cd l s = Some (cp, s') \<and> list_is s' cp ys \<and> list_all2 R (map snd xs) (map snd ys) \<and>
    lists s cp = None \<and> others_kept cp s s' \<and> store_ok s' B' (k - (80 + (80 + c) * length xs)) \<and> B \<subseteq>\<^sub>m B'"
proof -
  have "80 \<le> k" using k by simp
  obtain cp s1 where c: "list_create malloc s = Some (cp, s1)" "list_is s1 cp []" "others_kept cp s s1" "lists s cp = None" "B cp = None"
      "store_ok s1 (B(cp \<mapsto> 16)) (k - 80)"
    using list_create_ok[OF ok \<open>80 \<le> k\<close>] by blast
  have ne: "l \<noteq> cp" using c(4) l by (auto simp: list_is_def)
  have l1: "list_is s1 l ([] @ xs)" using c(3) l ne by (simp add: others_kept_def)
  have le: "length ([] :: (nat \<times> nat) list) + length xs < W32" "(80 + c) * length xs \<le> k - 80" using k l by (auto simp: list_is_def)
  obtain s' zs B' where r: "copy_loop malloc cd cp (first 0 xs) (lastp 0 []) s1 = Some s'" "list_is s' cp ([] @ zs)"
    "list_all2 R (map snd xs) (map snd zs)" "others_kept cp s1 s'" "store_ok s' B' (k - 80 - (80 + c) * length xs)" "B(cp \<mapsto> 16) \<subseteq>\<^sub>m B'"
    using copy_loop_ok[OF c(6) l1 c(2) ne le(1) cd le(2)] by blast
  obtain h where h: "malloc 16 (lheap s) = Some (cp, h)" "s1 = s\<lparr> lheap := h, lists := (lists s)(cp \<mapsto> \<lparr> head = 0, tail = 0, lcount = 0 \<rparr>) \<rparr>"
    using c(1) by (auto simp: list_create_def bind_eq_Some_conv Let_def)
  have "list_copy malloc cd l s = Some (cp, s')"
    using h r(1) l ne list_validate_ok[OF r(2)] unfolding list_copy_def by (simp add: list_is_def)
  moreover have "B \<subseteq>\<^sub>m B'" by (rule map_le_upd[of B cp]) (use r(6) c(5) in auto)
  ultimately show ?thesis using r(2,3,5) others_kept_trans[OF c(3) r(4)] c(4) by (auto simp: diff_diff_add)
qed

end

subsection \<open>A concrete list\<close>

text \<open>A heap with three blocks of 40 bytes in use, and in them a list with two nodes.\<close>

definition heap3 :: "unit kst" where
  "heap3 = kst_of (write_area 3221749880 65416 AREA_FREE (write_area 3221749840 40 AREA_USED (write_area 3221749800 40 AREA_USED
       (write_area 3221749760 40 AREA_USED (\<lambda>_. 0)))))
     ((kheap_of [] [] 3221749880)\<lparr>
       free_index := \<lparr> oa_array = [3221749880] @ replicate 63 0, oa_size = 1, oa_max_size = 64, oa_less_than = Some area_header_t_less_than \<rparr>,
       used_index := \<lparr> oa_array = [3221749760, 3221749800, 3221749840] @ replicate 61 0, oa_size = 3, oa_max_size = 64,
         oa_less_than = Some area_header_t_less_than \<rparr> \<rparr>)"

abbreviation areas3 :: "area list" where
  "areas3 \<equiv> [(3221749760, 40, False), (3221749800, 40, False), (3221749840, 40, False), (3221749880, 65416, True)]"

lemma heap3_inv: "heap_inv heap3 areas3"
proof -
  let ?m1 = "write_area 3221749760 40 AREA_USED (\<lambda>_. 0)"
  let ?m2 = "write_area 3221749800 40 AREA_USED ?m1"
  let ?m3 = "write_area 3221749840 40 AREA_USED ?m2"
  let ?m = "write_area 3221749880 65416 AREA_FREE ?m3"
  have "area_ok ?m 3221749760 40 False"
    using area_ok_cong[of 3221749760 40 ?m1 ?m False] by (simp add: write_area_ok write_area_apply)
  moreover have "area_ok ?m 3221749800 40 False"
    using area_ok_cong[of 3221749800 40 ?m2 ?m False] by (simp add: write_area_ok write_area_apply)
  moreover have "area_ok ?m 3221749840 40 False"
    using area_ok_cong[of 3221749840 40 ?m3 ?m False] by (simp add: write_area_ok write_area_apply)
  moreover have "area_ok ?m 3221749880 65416 True" by (simp add: write_area_ok)
  ultimately show ?thesis
    by (simp add: heap_inv_def hinv_def geom_def indexed_def concrete_heap heap3_def oa_usable_def oa_ok_def oa_contents_def
        hdr_magic_def ld32_def ld8_def write_area_apply)
qed

definition blocks3 :: "nat \<rightharpoonup> nat" where
  "blocks3 = [3221749772 \<mapsto> 16, 3221749812 \<mapsto> 16, 3221749852 \<mapsto> 16]"

lemma blockI: "(x, t, False) \<in> set as \<Longrightarrow> p = x + 12 \<Longrightarrow> n + 20 \<le> t \<Longrightarrow> block as p n"
  unfolding block_def ptr_of_def by (intro exI[of _ x] exI[of _ t]) simp

lemma heap3_ok: "kheap_ok heap3 blocks3 1600"
proof -
  have "block areas3 3221749772 16" by (rule blockI[of 3221749760 40]) simp_all
  moreover have "block areas3 3221749812 16" by (rule blockI[of 3221749800 40]) simp_all
  moreover have "block areas3 3221749852 16" by (rule blockI[of 3221749840 40]) simp_all
  ultimately have "block areas3 p n \<and> p mod 4 = 0 \<and> 0 < n" if "blocks3 p = Some n" for p n
    using that by (auto simp: blocks3_def split: if_splits)
  then show ?thesis
    unfolding kheap_ok_def heap_serves_def
    by (intro exI[of _ areas3] conjI heap3_inv) (auto simp: no_adjacent_free_Cons concrete_heap heap3_def)
qed

definition list2 :: "unit kst list_st" where
  "list2 = \<lparr> lheap = heap3, nodes = [3221749812 \<mapsto> \<lparr> data = 7, prev = 0, nnext = 3221749852, owner = 3221749772 \<rparr>,
       3221749852 \<mapsto> \<lparr> data = 9, prev = 3221749812, nnext = 0, owner = 3221749772 \<rparr>],
     lists = [3221749772 \<mapsto> \<lparr> head = 3221749812, tail = 3221749852, lcount = 2 \<rparr>] \<rparr>"

lemma list2_is: "list_is list2 3221749772 [(3221749812, 7), (3221749852, 9)]"
  by (simp add: list_is_def list2_def)

lemma list2_store: "kal.store_ok list2 blocks3 1600"
  using heap3_ok by (auto simp: kal.store_ok_def list2_def blocks3_def split: if_splits)

subsection \<open>Properties\<close>

text \<open>C22.  Inserting after a node that is anywhere in a list returns a node that was not in use before; the
  list then represents the old sequence with the new element right behind the node, every other list
  represents what it did, and the heap is well formed and has one more live block.\<close>

theorem list_insert_after_refines:
  assumes "kal.store_ok s B k" "80 \<le> k" "list_is s l (xs @ (a, e) # ys)" "Suc (length (xs @ (a, e) # ys)) < W32"
  shows "\<exists>new s'. list_node_insert_after (kmalloc ops) a d s = Some (new, s') \<and> list_is s' l (xs @ (a, e) # (new, d) # ys) \<and>
    (\<forall>m zs. m \<noteq> l \<and> list_is s m zs \<longrightarrow> list_is s' m zs) \<and> B new = None \<and> kal.store_ok s' (B(new \<mapsto> 16)) (k - 80)"
  using kal.list_node_insert_after_ok[OF assms(3,4,1,2), of ops d] by (auto simp: kal.inserted_def others_kept_def)

theorem list_insert_after_refines_witness:
  "\<exists>new s'. list_node_insert_after (kmalloc no_vm) 3221749812 8 list2 = Some (new, s') \<and>
    list_is s' 3221749772 ([] @ (3221749812, 7) # (new, 8) # [(3221749852, 9)]) \<and> blocks3 new = None \<and> kal.store_ok s' (blocks3(new \<mapsto> 16)) (1600 - 80)"
  using list_insert_after_refines[OF list2_store, of 3221749772 "[]" 3221749812 7 "[(3221749852, 9)]" no_vm 8] list2_is by auto

text \<open>C24.  \<open>list_remove_first\<close> on a non-empty list removes the first element with the given data, returns its
  node to the heap and leaves the other elements, their order and every other list alone; when there is
  no such element it returns false and changes nothing.\<close>

theorem list_remove_first_refines:
  assumes "kal.store_ok s B k" "list_is s l xs" "xs \<noteq> []"
  shows "if d \<in> snd ` set xs
    then \<exists>ys a zs s'. xs = ys @ (a, d) # zs \<and> d \<notin> snd ` set ys \<and> list_remove_first (kfree ops) l d s = Some (True, s') \<and>
      list_is s' l (ys @ zs) \<and> (\<forall>m vs. m \<noteq> l \<and> list_is s m vs \<longrightarrow> list_is s' m vs) \<and> kal.store_ok s' (B(a := None)) k
    else list_remove_first (kfree ops) l d s = Some (False, s)"
  using kal.list_remove_first_ok[OF assms(2,3,1), of d ops] unfolding others_kept_def .

theorem list_remove_first_refines_witness:
  "\<exists>s'. list_remove_first (kfree no_vm) 3221749772 9 list2 = Some (True, s') \<and> list_is s' 3221749772 [(3221749812, 7)]"
proof -
  have "\<exists>ys a zs s'. [(3221749812, 7), (3221749852, 9)] = ys @ (a, 9) # zs \<and> 9 \<notin> snd ` set ys \<and>
      list_remove_first (kfree no_vm) 3221749772 9 list2 = Some (True, s') \<and> list_is s' 3221749772 (ys @ zs)"
    using list_remove_first_refines[OF list2_store list2_is, of 9 no_vm] by (auto split: if_splits)
  then show ?thesis by (auto simp: Cons_eq_append_conv)
qed



text \<open>C25.  \<open>list_destroy\<close> gives back every node and the list head to the heap, and nothing else.\<close>

theorem list_destroy_frees:
  assumes "kal.store_ok s B k" "list_is s l xs"
  shows "\<exists>s'. list_destroy (kfree ops) l s = Some s' \<and> lists s' l = None \<and> nodes s' = nodes s |` (- fst ` set xs) \<and>
    (\<forall>m zs. m \<noteq> l \<and> list_is s m zs \<longrightarrow> list_is s' m zs) \<and> kal.store_ok s' (B |` (- insert l (fst ` set xs))) k"
  using kal.list_destroy_ok[OF assms(2,1), of ops] unfolding others_kept_def by blast

theorem list_destroy_frees_witness:
  "\<exists>s'. list_destroy (kfree no_vm) 3221749772 list2 = Some s' \<and> nodes s' = Map.empty"
proof -
  obtain s' where "list_destroy (kfree no_vm) 3221749772 list2 = Some s'" "nodes s' = nodes list2 |` (- fst ` set [(3221749812, 7 :: nat), (3221749852, 9)])"
    using list_destroy_frees[OF list2_store list2_is, of no_vm] by auto
  moreover have "nodes list2 |` (- fst ` set [(3221749812, 7 :: nat), (3221749852, 9)]) = Map.empty" by (auto simp: list2_def restrict_map_def fun_eq_iff)
  ultimately show ?thesis by auto
qed

text \<open>C26.  \<open>list_node_find_next_predicate\<close> returns for every node of a well-formed list: the next node in
  cyclic order that satisfies the predicate, the start node itself excluded, or \<open>NULL\<close> when there is none.\<close>

theorem find_next_predicate_ring:
  assumes "list_is s l (xs @ (a, d) # ys)"
  shows "list_node_find_next_predicate pred a s = Some (case find (\<lambda>x. pred (fst x)) (ys @ xs) of None \<Rightarrow> 0 | Some x \<Rightarrow> fst x)"
  using find_next_ok[OF assms, of pred] by (simp add: found_def)

theorem find_next_predicate_ring_witness:
  "list_node_find_next_predicate (\<lambda>a. a < 3221749850) 3221749852 list2 = Some 3221749812"
  using find_next_predicate_ring[of list2 3221749772 "[(3221749812, 7)]" 3221749852 9 "[]" "\<lambda>a. a < 3221749850"] list2_is by simp

end
