(* ===== verification/Kpath.thy ===== *)
theory Kpath
  imports Prelude
begin

text \<open>
  Path names: \<open>src/lib/path.c\<close>.  A C string is the list of its characters before the terminating zero, and a
  path buffer has room for 1024 bytes (\<open>PATH_MAX + 1\<close>).  \<open>None\<close> stands for an access outside the buffer.  The
  string functions appear by what they do to such lists; \<open>Kstring\<close> proves this of their byte-level code:
  the loop over \<open>strtok_r(s, "/")\<close> visits the maximal runs of other characters in order, \<open>strlcpy\<close> and
  \<open>strlcat\<close> keep the prefix that fits.
\<close>

subsection \<open>Strings\<close>

abbreviation (input) PATH_MAX :: nat where "PATH_MAX \<equiv> 1023"

definition strlcpy_str :: "string \<Rightarrow> nat \<Rightarrow> string" where
  "strlcpy_str src sz = take (sz - 1) src"

definition strlcat_str :: "string \<Rightarrow> string \<Rightarrow> nat \<Rightarrow> string" where
  "strlcat_str dst src sz = (if sz > 0 \<and> length dst < sz - 1
     then dst @ take (if length src \<ge> sz - length dst then sz - length dst - 1 else length src) src else dst)"

text \<open>The tokens of a string, and the parts before and behind its last slash.\<close>

function tokens :: "string \<Rightarrow> string list" where
  "tokens s = (let s1 = dropWhile (\<lambda>c. c = CHR ''/'') s in
     if s1 = [] then [] else takeWhile (\<lambda>c. c \<noteq> CHR ''/'') s1 # tokens (dropWhile (\<lambda>c. c \<noteq> CHR ''/'') s1))"
  by pat_completeness auto
termination
proof (relation "measure length")
  fix s s1 :: string
  assume s1: "s1 = dropWhile (\<lambda>c. c = CHR ''/'') s" "s1 \<noteq> []"
  obtain c t where e: "s1 = c # t" using s1(2) by (meson neq_Nil_conv)
  have "hd s1 \<noteq> CHR ''/''" using hd_dropWhile[OF s1(2)[unfolded s1(1)]] unfolding s1(1) .
  then have "length (dropWhile (\<lambda>c. c \<noteq> CHR ''/'') s1) \<le> length t" unfolding e by (simp add: length_dropWhile_le)
  moreover have "length s1 \<le> length s" unfolding s1(1) by (rule length_dropWhile_le)
  ultimately show "(dropWhile (\<lambda>c. c \<noteq> CHR ''/'') s1, s) \<in> measure length" unfolding e by simp
qed simp

declare tokens.simps [simp del]

definition before_last_slash :: "string \<Rightarrow> string" where
  "before_last_slash s = rev (tl (dropWhile (\<lambda>c. c \<noteq> CHR ''/'') (rev s)))"

definition after_last_slash :: "string \<Rightarrow> string" where
  "after_last_slash s = rev (takeWhile (\<lambda>c. c \<noteq> CHR ''/'') (rev s))"

subsection \<open>Operations\<close>

definition path_dirname :: "string \<Rightarrow> string option" where
  "path_dirname path = do {
     assertK (path \<noteq> []);
     let p1 = (if last path = CHR ''/'' then butlast path else path);
     let p2 = (if CHR ''/'' \<in> set p1 then before_last_slash p1 else p1);
     Some (if p2 = [] then ''/'' else p2) }"

text \<open>\<open>__path_join\<close>: the result and the new contents of \<open>path\<close>.\<close>

definition path_join_token :: "string \<Rightarrow> string \<Rightarrow> (bool \<times> string) option" where
  "path_join_token path right =
    (if length right > 255 then Some (False, path)
     else if CHR ''/'' \<in> set right then Some (False, path)
     else if right = ''.'' then Some (True, path)
     else if right = ''..'' then do { p \<leftarrow> path_dirname path; Some (True, p) }
     else do {
       assertK (path \<noteq> []);
       p1 \<leftarrow> (if last path \<noteq> CHR ''/'' \<and> (right = [] \<or> hd right \<noteq> CHR ''/'')
              then do { assertK (length path + 1 \<le> PATH_MAX); Some (path @ ''/'') } else Some path);
       let trunc = (length p1 + length right > PATH_MAX);
       Some (\<not> trunc, strlcat_str p1 right PATH_MAX) })"

fun path_join_tokens :: "string \<Rightarrow> string list \<Rightarrow> (bool \<times> string) option" where
  "path_join_tokens path [] = Some (True, path)"
| "path_join_tokens path (token # ts) = do {
     (ok, p) \<leftarrow> path_join_token path token;
     if ok then path_join_tokens p ts else Some (False, p) }"

definition path_join :: "string \<Rightarrow> string \<Rightarrow> (bool \<times> string) option" where
  "path_join path right = path_join_tokens path (tokens (strlcpy_str right (PATH_MAX + 1)))"

fun collapse_tokens :: "string \<Rightarrow> string list \<Rightarrow> string option" where
  "collapse_tokens buf [] = Some buf"
| "collapse_tokens buf (token # ts) = do { (ok, buf') \<leftarrow> path_join buf token; collapse_tokens buf' ts }"

definition path_collapse_dots :: "string \<Rightarrow> (bool \<times> string) option" where
  "path_collapse_dots path =
    (if path = [] \<or> hd path \<noteq> CHR ''/'' then Some (False, path)
     else do { buf \<leftarrow> collapse_tokens ''/'' (tokens path); Some (True, buf) })"

definition path_basename :: "string \<Rightarrow> string option" where
  "path_basename path = do {
     assertK (path \<noteq> []);
     if last path = CHR ''/'' \<and> length path = 1 then Some path else do {
       let p1 = (if last path = CHR ''/'' then butlast path else path);
       assertK (CHR ''/'' \<in> set p1);
       Some (strlcpy_str (strlcpy_str (after_last_slash p1) 256) 256) } }"

subsection \<open>Components\<close>

text \<open>The absolute path with the given components.\<close>

definition slashed :: "string list \<Rightarrow> string" where
  "slashed cs = (if cs = [] then ''/'' else concat (map (\<lambda>c. CHR ''/'' # c) cs))"

text \<open>A component that a path may contain, and one that a normal path may contain.\<close>

definition component :: "string \<Rightarrow> bool" where
  "component c \<longleftrightarrow> c \<noteq> [] \<and> CHR ''/'' \<notin> set c"

definition plain :: "string \<Rightarrow> bool" where
  "plain c \<longleftrightarrow> component c \<and> c \<noteq> ''.'' \<and> c \<noteq> ''..''"

text \<open>The reference definition: a stack of components, on which \<open>..\<close> pops.\<close>

definition push :: "string list \<Rightarrow> string \<Rightarrow> string list" where
  "push st c = (if c = ''.'' then st else if c = ''..'' then butlast st else st @ [c])"

fun normalize :: "string list \<Rightarrow> string list \<Rightarrow> string list" where
  "normalize st [] = st"
| "normalize st (c # cs) = normalize (push st c) cs"

lemma tokens_component: "\<forall>t \<in> set (tokens s). component t"
proof (induction s rule: tokens.induct)
  case (1 s)
  let ?s = "dropWhile (\<lambda>c. c = CHR ''/'') s"
  show ?case
  proof (cases "?s = []")
    case False
    then have "hd ?s \<noteq> CHR ''/''" by (rule hd_dropWhile)
    then have "component (takeWhile (\<lambda>c. c \<noteq> CHR ''/'') ?s)" using False by (cases ?s) (auto simp: component_def dest: set_takeWhileD)
    then show ?thesis using 1[OF refl False] False by (subst tokens.simps) (simp add: Let_def)
  qed (simp add: tokens.simps)
qed

lemma tokens_slash [simp]: "tokens (CHR ''/'' # s) = tokens s" "tokens [] = []"
  by (simp_all add: tokens.simps)

lemma tokens_append:
  assumes "component c" "s = [] \<or> hd s = CHR ''/''"
  shows "tokens (c @ s) = c # tokens s"
proof -
  have d: "dropWhile (\<lambda>x. x = CHR ''/'') (c @ s) = c @ s" using assms(1) by (cases c) (auto simp: component_def)
  have t: "takeWhile (\<lambda>x. x \<noteq> CHR ''/'') (c @ s) = c" "dropWhile (\<lambda>x. x \<noteq> CHR ''/'') (c @ s) = s"
    using assms by (auto simp: component_def takeWhile_append dropWhile_append takeWhile_eq_Nil_iff dropWhile_eq_self_iff)
  show ?thesis using assms(1) by (subst tokens.simps) (simp add: d t component_def)
qed

lemma tokens_slashed: "\<forall>c \<in> set cs. component c \<Longrightarrow> tokens (slashed cs) = cs"
proof -
  have "\<forall>c \<in> set cs. component c \<Longrightarrow> tokens (concat (map (\<lambda>c. CHR ''/'' # c) cs)) = cs" for cs
  proof (induction cs)
    case (Cons c cs)
    then show ?case using tokens_append[of c "[]"] by (cases cs) (simp_all add: tokens_append)
  qed simp
  then show "\<forall>c \<in> set cs. component c \<Longrightarrow> tokens (slashed cs) = cs"
    unfolding slashed_def by (cases "cs = []") (simp, simp del: tokens_slash(1))
qed

subsection \<open>Joining\<close>

definition slash_each :: "string list \<Rightarrow> string" where
  "slash_each cs = concat (map (\<lambda>c. CHR ''/'' # c) cs)"

lemma slash_each_simps [simp]:
  "slash_each [] = []" "slash_each (c # cs) = CHR ''/'' # c @ slash_each cs" "slash_each (cs @ ds) = slash_each cs @ slash_each ds"
  by (simp_all add: slash_each_def)

lemma slashed_eq: "slashed cs = (if cs = [] then ''/'' else slash_each cs)"
  by (simp add: slashed_def slash_each_def)

lemma last_component: "component c \<Longrightarrow> last (xs @ c) = last c \<and> last c \<noteq> CHR ''/''"
proof -
  assume c: "component c"
  then have "last c \<in> set c" by (simp add: component_def)
  then show ?thesis using c by (metis component_def last_appendR)
qed

lemma before_last_slash_eq: "CHR ''/'' \<notin> set c \<Longrightarrow> before_last_slash (x @ CHR ''/'' # c) = x"
proof -
  assume "CHR ''/'' \<notin> set c"
  then have "dropWhile (\<lambda>x. x \<noteq> CHR ''/'') (rev c @ CHR ''/'' # rev x) = CHR ''/'' # rev x" by (subst dropWhile_append2) auto
  then show ?thesis by (simp add: before_last_slash_def)
qed

lemma path_dirname_slashed:
  assumes "\<forall>c \<in> set st. component c"
  shows "path_dirname (slashed st) = Some (slashed (butlast st))"
proof (cases st rule: rev_cases)
  case Nil
  then show ?thesis by (simp add: slashed_def path_dirname_def)
next
  case (snoc cs c)
  have c: "component c" using assms snoc by simp
  have e: "slashed st = slash_each cs @ CHR ''/'' # c" using snoc by (simp add: slashed_eq)
  have l: "last (slashed st) \<noteq> CHR ''/''" unfolding e using last_component[OF c, of "slash_each cs @ ''/''"] c by (simp add: component_def)
  have "before_last_slash (slashed st) = slash_each cs" unfolding e using c by (intro before_last_slash_eq) (simp add: component_def)
  moreover have "CHR ''/'' \<in> set (slashed st)" "slashed st \<noteq> []" by (simp_all add: e)
  moreover have "slash_each cs = [] \<longleftrightarrow> cs = []" by (cases cs) auto
  ultimately show ?thesis using snoc l by (auto simp: path_dirname_def slashed_eq)
qed

lemma plainD:
  assumes "plain c"
  shows "c \<noteq> []" "CHR ''/'' \<notin> set c" "c \<noteq> ''.''" "c \<noteq> ''..''" "hd c \<noteq> CHR ''/''"
proof -
  show c: "c \<noteq> []" "CHR ''/'' \<notin> set c" "c \<noteq> ''.''" "c \<noteq> ''..''" using assms by (simp_all add: plain_def component_def)
  show "hd c \<noteq> CHR ''/''" using c(2) hd_in_set[OF c(1)] by auto
qed

lemma join_component:
  assumes "\<forall>c \<in> set st. component c" "plain c" "length c \<le> 255" "length (slash_each st) + Suc (length c) \<le> 1022"
  shows "path_join_token (slashed st) c = Some (True, slashed (st @ [c]))"
proof -
  note c = plainD[OF assms(2)]
  show ?thesis
  proof (cases st rule: rev_cases)
    case Nil
    then show ?thesis using c assms(3,4) by (simp add: path_join_token_def slashed_eq strlcat_str_def)
  next
    case (snoc ds d)
    have d: "last (slash_each ds @ CHR ''/'' # d) \<noteq> CHR ''/''"
      using last_component[of d "slash_each ds @ ''/''"] assms(1) snoc by simp
    have "slashed st = slash_each ds @ CHR ''/'' # d" using snoc by (simp add: slashed_eq)
    moreover have "slashed (st @ [c]) = slash_each ds @ CHR ''/'' # d @ CHR ''/'' # c" using snoc by (simp add: slashed_eq)
    moreover have "length (slash_each ds) + length d + length c + 2 \<le> 1022" using assms(4) snoc by simp
    moreover from this have "length (slash_each ds) + length d < 1020" using c(1) by (cases c) simp_all
    ultimately show ?thesis using c d assms(3) by (simp add: path_join_token_def strlcat_str_def)
  qed
qed

lemma collapse_step:
  assumes "\<forall>c \<in> set st. component c" "component c" "length c \<le> 255" "length (slash_each st) + Suc (length c) \<le> 1022"
  shows "path_join (slashed st) c = Some (True, slashed (push st c))"
proof -
  have "tokens (strlcpy_str c (PATH_MAX + 1)) = [c]" using tokens_append[OF assms(2), of "[]"] assms(3) by (simp add: strlcpy_str_def)
  then have e: "path_join (slashed st) c = (do { (ok, p) \<leftarrow> path_join_token (slashed st) c; Some (ok, p) })"
    by (cases "path_join_token (slashed st) c") (auto simp: path_join_def)
  show ?thesis
  proof (cases "plain c")
    case True
    then show ?thesis using e join_component[OF assms(1) True assms(3,4)] by (simp add: plain_def push_def)
  next
    case False
    then have "c = ''.'' \<or> c = ''..''" using assms(2) by (auto simp: plain_def)
    then show ?thesis using e path_dirname_slashed[OF assms(1)] by (auto simp: path_join_token_def push_def)
  qed
qed

lemma slash_each_butlast: "length (slash_each (butlast st)) \<le> length (slash_each st)"
  by (cases st rule: rev_cases) simp_all

lemma collapse_tokens_eq:
  assumes "\<forall>c \<in> set st. component c" "\<forall>t \<in> set ts. component t \<and> length t \<le> 255" "length (slash_each st) + length (slash_each ts) \<le> 1022"
  shows "collapse_tokens (slashed st) ts = Some (slashed (normalize st ts)) \<and> (\<forall>c \<in> set (normalize st ts). component c) \<and>
    length (slash_each (normalize st ts)) \<le> length (slash_each st) + length (slash_each ts)"
  using assms
proof (induction ts arbitrary: st)
  case (Cons t ts)
  let ?st = "push st t"
  have j: "path_join (slashed st) t = Some (True, slashed ?st)" using Cons.prems by (intro collapse_step) auto
  have c: "\<forall>c \<in> set ?st. component c" using Cons.prems by (auto simp: push_def dest: in_set_butlastD)
  have l: "length (slash_each ?st) \<le> length (slash_each st) + Suc (length t)" using slash_each_butlast[of st] by (auto simp: push_def)
  then show ?case using Cons.IH[OF c] Cons.prems(2,3) j by auto
qed simp

lemma tokens_length: "length (slash_each (tokens s)) \<le> length s + (if s = [] \<or> hd s = CHR ''/'' then 0 else 1)"
proof (induction s rule: tokens.induct)
  case (1 s)
  note IH = 1
  define s1 where "s1 = dropWhile (\<lambda>c. c = CHR ''/'') s"
  show ?case
  proof (cases "s1 = []")
    case False
    let ?t = "takeWhile (\<lambda>c. c \<noteq> CHR ''/'') s1" and ?r = "dropWhile (\<lambda>c. c \<noteq> CHR ''/'') s1"
    have r: "?r = [] \<or> hd ?r = CHR ''/''" using hd_dropWhile[of "\<lambda>c. c \<noteq> CHR ''/''" s1] by auto
    have 1: "length ?t + length ?r = length s1" using takeWhile_dropWhile_id[of "\<lambda>c. c \<noteq> CHR ''/''" s1] by (metis length_append)
    have 2: "length s1 \<le> length s" unfolding s1_def by (rule length_dropWhile_le)
    have 3: "length s1 < length s" if "hd s = CHR ''/''" "s \<noteq> []"
      using that length_dropWhile_le[of "\<lambda>c. c = CHR ''/''" "tl s"] by (cases s) (auto simp: s1_def le_imp_less_Suc)
    have 4: "tokens s = ?t # tokens ?r" using False by (subst tokens.simps) (simp add: s1_def[symmetric])
    have 5: "length (slash_each (tokens ?r)) \<le> length ?r" using IH[OF s1_def False] r by auto
    have "s \<noteq> []" using False by (auto simp: s1_def)
    then show ?thesis unfolding 4 using 1 2 3 5 by (cases "hd s = CHR ''/''") auto
  qed (simp add: tokens.simps s1_def)
qed

lemma normalize_dots: "\<forall>c \<in> set st. c \<noteq> ''.'' \<and> c \<noteq> ''..'' \<Longrightarrow> \<forall>c \<in> set (normalize st ts). c \<noteq> ''.'' \<and> c \<noteq> ''..''"
proof (induction ts arbitrary: st)
  case (Cons t ts)
  have "\<forall>c \<in> set (push st t). c \<noteq> ''.'' \<and> c \<noteq> ''..''" using Cons.prems in_set_butlastD[of _ st] by (auto simp: push_def)
  from Cons.IH[OF this] show ?case by simp
qed simp

lemma normalize_subset: "set (normalize st ts) \<subseteq> set st \<union> set ts"
proof (induction ts arbitrary: st)
  case (Cons t ts)
  have "set (push st t) \<subseteq> set st \<union> {t}" using in_set_butlastD[of _ st] by (auto simp: push_def)
  then show ?case using Cons.IH[of "push st t"] by auto
qed simp

lemma normalize_id: "\<forall>c \<in> set ts. c \<noteq> ''.'' \<and> c \<noteq> ''..'' \<Longrightarrow> normalize st ts = st @ ts"
  by (induction ts arbitrary: st) (simp_all add: push_def)

lemma slashed_hd: "slashed cs \<noteq> [] \<and> hd (slashed cs) = CHR ''/''"
  by (cases cs) (simp_all add: slashed_eq)

lemma collapse_eq:
  assumes "path \<noteq> []" "hd path = CHR ''/''" "length (slash_each (tokens path)) \<le> 1022" "\<forall>t \<in> set (tokens path). length t \<le> 255"
  shows "path_collapse_dots path = Some (True, slashed (normalize [] (tokens path)))"
  using assms collapse_tokens_eq[of "[]" "tokens path"] tokens_component[of path] by (simp add: path_collapse_dots_def slashed_eq)

subsection \<open>Properties\<close>

text \<open>C27.  For an absolute path whose components are at most 255 characters long, \<open>path_collapse_dots\<close>
  computes the path of the components that remain when \<open>.\<close> is dropped and \<open>..\<close> removes the component before
  it; the result is not longer than the input, and collapsing it again changes nothing.\<close>

theorem path_collapse_dots_normalizes:
  assumes "path \<noteq> []" "hd path = CHR ''/''" "length path \<le> 1022" "\<forall>t \<in> set (tokens path). length t \<le> 255"
  shows "path_collapse_dots path = Some (True, slashed (normalize [] (tokens path))) \<and>
    length (slashed (normalize [] (tokens path))) \<le> length path \<and>
    path_collapse_dots (slashed (normalize [] (tokens path))) = Some (True, slashed (normalize [] (tokens path)))"
proof -
  let ?n = "normalize [] (tokens path)"
  have len: "length (slash_each (tokens path)) \<le> length path" using tokens_length[of path] assms(1,2) by simp
  have c: "\<forall>c \<in> set ?n. component c" "length (slash_each ?n) \<le> length path"
    using collapse_tokens_eq[of "[]" "tokens path"] tokens_component[of path] assms(3,4) len by auto
  have t: "tokens (slashed ?n) = ?n" by (rule tokens_slashed[OF c(1)])
  have i: "normalize [] ?n = ?n" using normalize_id[of ?n "[]"] normalize_dots[of "[]" "tokens path"] by simp
  have h: "slashed ?n \<noteq> []" "hd (slashed ?n) = CHR ''/''" using slashed_hd by auto
  have "\<forall>t \<in> set ?n. length t \<le> 255" using normalize_subset[of "[]" "tokens path"] assms(4) by auto
  then have "path_collapse_dots (slashed ?n) = Some (True, slashed ?n)"
    using collapse_eq[OF h] t i c(2) assms(3) by simp
  moreover have "length (slashed ?n) \<le> length path" using c(2) assms(1) by (cases path) (auto simp: slashed_eq)
  ultimately show ?thesis using collapse_eq[OF assms(1,2)] len assms(3,4) by simp
qed

theorem path_collapse_dots_normalizes_witness:
  "path_collapse_dots ''/a/b/../c/./d'' = Some (True, slashed (normalize [] (tokens ''/a/b/../c/./d''))) \<and>
    length (slashed (normalize [] (tokens ''/a/b/../c/./d''))) \<le> length ''/a/b/../c/./d'' \<and>
    path_collapse_dots (slashed (normalize [] (tokens ''/a/b/../c/./d''))) = Some (True, slashed (normalize [] (tokens ''/a/b/../c/./d''))) \<and>
    slashed (normalize [] (tokens ''/a/b/../c/./d'')) = ''/a/c/d''"
proof -
  have "tokens ''/a/b/../c/./d'' = [''a'', ''b'', ''..'', ''c'', ''.'', ''d'']" by (simp add: tokens.simps)
  then show ?thesis using path_collapse_dots_normalizes[of "''/a/b/../c/./d''"] by (simp add: slashed_def push_def)
qed

text \<open>C30.  A component that is longer than 255 characters is not an error for \<open>path_collapse_dots\<close>: the failure
  of \<open>path_join\<close> is ignored and the component silently disappears, so the result names another file.\<close>

theorem path_collapse_drops_long:
  assumes "component c" "255 < length c" "length c \<le> 1022"
  shows "path_collapse_dots (CHR ''/'' # c) = Some (True, ''/'')"
proof -
  have "tokens (strlcpy_str c (PATH_MAX + 1)) = [c]" "tokens c = [c]"
    using tokens_append[OF assms(1), of "[]"] assms(3) by (simp_all add: strlcpy_str_def)
  then show ?thesis using assms(2) by (simp add: path_collapse_dots_def path_join_def path_join_token_def)
qed

theorem path_collapse_drops_long_witness: "path_collapse_dots (CHR ''/'' # replicate 300 (CHR ''a'')) = Some (True, ''/'')"
  by (rule path_collapse_drops_long) (simp_all add: component_def)

text \<open>\<open>path_join\<close> reports success although the last character of the name is lost, when the joined path
  would be exactly \<open>PATH_MAX\<close> characters long.\<close>

theorem path_join_cuts_silently:
  assumes "path \<noteq> []" "last path \<noteq> CHR ''/''" "plain c" "length c \<le> 255" "length path + 1 + length c = 1023"
  shows "path_join path c = Some (True, path @ ''/'' @ butlast c)"
proof -
  note c = plainD[OF assms(3)]
  have "tokens (strlcpy_str c (PATH_MAX + 1)) = [c]"
    using tokens_append[of c "[]"] assms(3,4) by (simp add: strlcpy_str_def plain_def)
  moreover have "strlcat_str (path @ ''/'') c 1023 = path @ ''/'' @ butlast c"
  proof -
    have l: "1023 - length (path @ ''/'') = length c" using assms(5) by simp
    show ?thesis
    proof (cases "length c = 1")
      case True
      then obtain x where "c = [x]" by (auto simp: length_Suc_conv)
      then show ?thesis using assms(5) by (simp add: strlcat_str_def)
    next
      case False
      then have "1 < length c" using c(1) by (cases c) auto
      then have "length (path @ ''/'') < 1022" using assms(5) by simp
      then show ?thesis unfolding strlcat_str_def butlast_conv_take using l by simp
    qed
  qed
  moreover have "length path + 1 \<le> 1023" "length (path @ ''/'') + length c = 1023" using assms(5) by simp_all
  ultimately show ?thesis using c assms(1,2,4) by (simp add: path_join_def path_join_token_def)
qed

theorem path_join_cuts_silently_witness:
  "path_join (CHR ''/'' # replicate 821 (CHR ''a'')) (replicate 200 (CHR ''b'')) =
    Some (True, (CHR ''/'' # replicate 821 (CHR ''a'')) @ ''/'' @ butlast (replicate 200 (CHR ''b'')))"
proof (rule path_join_cuts_silently)
  show "plain (replicate 200 CHR ''b'')"
    by (auto simp: plain_def component_def dest: arg_cong[where f = length])
qed simp_all

end
