(* ===== verification/Kmutex.thy ===== *)
theory Kmutex
  imports Kalloc
begin

text \<open>
  Mutexes: \<open>src/kernel/mutex.c\<close>.  The operations are given twice: as functions of one task, in which \<open>YIELD\<close> is an
  argument that says what the other tasks do in the meantime, and as a step relation in which the memory
  accesses of any number of tasks are interleaved.
\<close>

subsection \<open>The operations\<close>

record mutex_t =
  mowner :: nat
  mutex :: nat

record 's mutex_st =
  mheap :: 's
  mutexes :: "nat \<rightharpoonup> mutex_t"
  in_isr :: bool
  task_switching :: bool
  this_task :: nat

definition mutex_create :: "(nat \<Rightarrow> 's \<Rightarrow> (nat \<times> 's) option) \<Rightarrow> ('s, 'z) mutex_st_scheme \<Rightarrow> (nat \<times> ('s, 'z) mutex_st_scheme) option" where
  "mutex_create malloc s = do {
     (m, h) \<leftarrow> malloc 8 (mheap s);
     Some (m, s\<lparr> mheap := h, mutexes := (mutexes s)(m \<mapsto> \<lparr> mowner = 0, mutex = 0 \<rparr>) \<rparr>) }"

definition mutex_destroy :: "(nat \<Rightarrow> 's \<Rightarrow> 's option) \<Rightarrow> nat \<Rightarrow> ('s, 'z) mutex_st_scheme \<Rightarrow> ('s, 'z) mutex_st_scheme option" where
  "mutex_destroy free m s = do {
     x \<leftarrow> mutexes s m;
     assertK (mutex x = 0);
     assertK (mowner x = 0);
     h \<leftarrow> free m (mheap s);
     Some (s\<lparr> mheap := h, mutexes := (mutexes s)(m := None) \<rparr>) }"

text \<open>The locked \<open>BTS\<close> sets the lowest bit and reports whether it was clear.\<close>

definition bts :: "mutex_t \<Rightarrow> bool \<times> mutex_t" where
  "bts x = (even (mutex x), x\<lparr> mutex := (if even (mutex x) then mutex x + 1 else mutex x) \<rparr>)"

partial_function (option) lock_loop :: "(('s, 'z) mutex_st_scheme \<Rightarrow> ('s, 'z) mutex_st_scheme) \<Rightarrow> nat \<Rightarrow> ('s, 'z) mutex_st_scheme \<Rightarrow> ('s, 'z) mutex_st_scheme option" where
  "lock_loop yield m s = do {
     x \<leftarrow> mutexes s m;
     let (success, x') = bts x;
     if success then Some (s\<lparr> mutexes := (mutexes s)(m \<mapsto> x'\<lparr> mowner := this_task s \<rparr>) \<rparr>)
     else do {
       assertK (task_switching s);
       lock_loop yield m (yield (s\<lparr> mutexes := (mutexes s)(m \<mapsto> x') \<rparr>)) } }"

definition mutex_lock :: "(('s, 'z) mutex_st_scheme \<Rightarrow> ('s, 'z) mutex_st_scheme) \<Rightarrow> nat \<Rightarrow> ('s, 'z) mutex_st_scheme \<Rightarrow> ('s, 'z) mutex_st_scheme option" where
  "mutex_lock yield m s = do {
     assertK (m \<noteq> 0);
     assertK (\<not> in_isr s);
     lock_loop yield m s }"

definition mutex_unlock :: "nat \<Rightarrow> ('s, 'z) mutex_st_scheme \<Rightarrow> ('s, 'z) mutex_st_scheme option" where
  "mutex_unlock m s = do {
     assertK (m \<noteq> 0);
     assertK (\<not> in_isr s);
     x \<leftarrow> mutexes s m;
     assertK (mutex x \<noteq> 0);
     assertK (mowner x = this_task s);
     Some (s\<lparr> mutexes := (mutexes s)(m \<mapsto> \<lparr> mowner = 0, mutex = 0 \<rparr>) \<rparr>) }"

definition mutex_is_locked :: "nat \<Rightarrow> ('s, 'z) mutex_st_scheme \<Rightarrow> bool option" where
  "mutex_is_locked m s = do { x \<leftarrow> mutexes s m; Some (mutex x \<noteq> 0) }"

subsection \<open>Interleaved steps\<close>

text \<open>Where a task is: outside, in the loop of \<open>mutex_lock\<close> before its \<open>BTS\<close>, behind a successful \<open>BTS\<close>, back
  from \<open>mutex_lock\<close>, in \<open>mutex_unlock\<close> behind the assertions, behind the store to \<open>mutex\<close>, or in a panic.\<close>

datatype pc = Outside | Trying | Acquired | Holding | Checked | Released | Panicked

inductive mutex_step :: "mutex_t \<times> (nat \<Rightarrow> pc) \<Rightarrow> mutex_t \<times> (nat \<Rightarrow> pc) \<Rightarrow> bool" where
  call_lock: "pc t = Outside \<Longrightarrow> t \<noteq> 0 \<Longrightarrow> mutex_step (x, pc) (x, pc(t := Trying))"
| bts_success: "pc t = Trying \<Longrightarrow> bts x = (True, x') \<Longrightarrow> mutex_step (x, pc) (x', pc(t := Acquired))"
| bts_failure: "pc t = Trying \<Longrightarrow> bts x = (False, x') \<Longrightarrow> mutex_step (x, pc) (x', pc)"
| set_owner: "pc t = Acquired \<Longrightarrow> mutex_step (x, pc) (x\<lparr> mowner := t \<rparr>, pc(t := Holding))"
| call_unlock: "pc t = Holding \<Longrightarrow> mutex x \<noteq> 0 \<Longrightarrow> mowner x = t \<Longrightarrow> mutex_step (x, pc) (x, pc(t := Checked))"
| unlock_panic: "pc t = Holding \<Longrightarrow> mutex x = 0 \<or> mowner x \<noteq> t \<Longrightarrow> mutex_step (x, pc) (x, pc(t := Panicked))"
| clear_mutex: "pc t = Checked \<Longrightarrow> mutex_step (x, pc) (x\<lparr> mutex := 0 \<rparr>, pc(t := Released))"
| clear_owner: "pc t = Released \<Longrightarrow> mutex_step (x, pc) (x\<lparr> mowner := 0 \<rparr>, pc(t := Outside))"

inductive_cases mutex_stepE: "mutex_step (x, p) s'"

text \<open>The next step of a given task, so that schedules can be executed.\<close>

fun mutex_move :: "mutex_t \<times> (nat \<Rightarrow> pc) \<Rightarrow> nat \<Rightarrow> mutex_t \<times> (nat \<Rightarrow> pc)" where
  "mutex_move (x, pc) t = (case pc t of
      Outside \<Rightarrow> (x, pc(t := Trying))
    | Trying \<Rightarrow> (snd (bts x), if fst (bts x) then pc(t := Acquired) else pc)
    | Acquired \<Rightarrow> (x\<lparr> mowner := t \<rparr>, pc(t := Holding))
    | Holding \<Rightarrow> (x, pc(t := if mutex x \<noteq> 0 \<and> mowner x = t then Checked else Panicked))
    | Checked \<Rightarrow> (x\<lparr> mutex := 0 \<rparr>, pc(t := Released))
    | Released \<Rightarrow> (x\<lparr> mowner := 0 \<rparr>, pc(t := Outside))
    | Panicked \<Rightarrow> (x, pc))"

definition mutex_start :: "mutex_t \<times> (nat \<Rightarrow> pc)" where
  "mutex_start = (\<lparr> mowner = 0, mutex = 0 \<rparr>, \<lambda>t. Outside)"

definition critical :: "pc \<Rightarrow> bool" where
  "critical c \<longleftrightarrow> c \<in> {Acquired, Holding, Checked, Panicked}"

definition mutex_inv :: "mutex_t \<times> (nat \<Rightarrow> pc) \<Rightarrow> bool" where
  "mutex_inv = (\<lambda>(x, pc). (mutex x = 0 \<and> (\<forall>t. \<not> critical (pc t))) \<or> (mutex x = 1 \<and> (\<exists>t. critical (pc t) \<and> (\<forall>u. critical (pc u) \<longrightarrow> u = t))))"

lemma bts_simps: "mutex x = 0 \<Longrightarrow> bts x = (True, x\<lparr> mutex := 1 \<rparr>)" "mutex x = 1 \<Longrightarrow> bts x = (False, x)"
  by (simp_all add: bts_def)

text \<open>The critical tasks before and after a step of task \<open>t\<close>.\<close>

lemma mutex_inv_same:
  "mutex_inv (x, pc) \<Longrightarrow> critical c = critical (pc t) \<Longrightarrow> mutex x' = mutex x \<Longrightarrow> mutex_inv (x', pc(t := c))"
proof -
  assume a: "mutex_inv (x, pc)" "critical c = critical (pc t)" "mutex x' = mutex x"
  have "critical ((pc(t := c)) u) = critical (pc u)" for u using a(2) by simp
  then show ?thesis using a(1,3) unfolding mutex_inv_def by auto
qed

lemma mutex_inv_cases:
  assumes "mutex_inv (x, pc)"
  obtains "mutex x = 0" "\<And>t. \<not> critical (pc t)" | t where "mutex x = 1" "critical (pc t)" "\<And>u. critical (pc u) \<Longrightarrow> u = t"
  using assms unfolding mutex_inv_def by auto

lemma mutex_step_inv: "mutex_step s s' \<Longrightarrow> mutex_inv s \<Longrightarrow> mutex_inv s'"
proof (induction rule: mutex_step.induct)
  case (bts_success pc t x x')
  then have x: "mutex x = 0" "\<And>t. \<not> critical (pc t)" by (auto elim!: mutex_inv_cases simp: bts_simps)
  have "mutex x' = 1" using bts_success(2) x(1) by (auto simp: bts_simps)
  then show ?case using x(2) by (auto simp: mutex_inv_def critical_def)
next
  case (bts_failure pc t x x')
  then have "mutex x = 1" by (auto elim!: mutex_inv_cases simp: bts_simps)
  then show ?case using bts_failure by (simp add: bts_simps)
next
  case (clear_mutex pc t x)
  then have "critical (pc t)" by (simp add: critical_def)
  with clear_mutex(2) have "u = t" if "critical (pc u)" for u using that by (auto elim!: mutex_inv_cases)
  then show ?case by (auto simp: mutex_inv_def critical_def)
qed (auto intro!: mutex_inv_same simp: critical_def)

lemma mutex_run_inv: "mutex_step\<^sup>*\<^sup>* s s' \<Longrightarrow> mutex_inv s \<Longrightarrow> mutex_inv s'"
  by (induction rule: rtranclp_induct) (auto intro: mutex_step_inv)

lemma mutex_move_step: "t \<noteq> 0 \<Longrightarrow> mutex_step\<^sup>*\<^sup>* s (mutex_move s t)"
proof (cases s)
  case (Pair x pc)
  assume t: "t \<noteq> 0"
  obtain b x' where b: "bts x = (b, x')" by (cases "bts x")
  show ?thesis
  proof (cases "pc t")
    case Trying
    then show ?thesis using Pair b bts_success[of pc t x x'] bts_failure[of pc t x x'] by (cases b) auto
  next
    case Panicked
    then show ?thesis using Pair by simp
  qed (use Pair t in \<open>auto intro!: r_into_rtranclp mutex_step.intros\<close>)
qed

lemma mutex_moves: "0 \<notin> set ts \<Longrightarrow> mutex_step\<^sup>*\<^sup>* s (foldl mutex_move s ts)"
proof (induction ts arbitrary: s)
  case (Cons t ts)
  then show ?case using rtranclp_trans[OF mutex_move_step[of t s] Cons.IH[of "mutex_move s t"]] by simp
qed simp

lemma mutex_start_inv: "mutex_inv mutex_start"
  by (simp add: mutex_inv_def mutex_start_def critical_def)

subsection \<open>One task at a time\<close>

lemma mutex_lock_unlock:
  assumes "m \<noteq> 0" "\<not> in_isr s" "mutexes s m = Some \<lparr> mowner = 0, mutex = 0 \<rparr>"
  shows "\<exists>s'. mutex_lock yield m s = Some s' \<and> mutex_is_locked m s' = Some True \<and> mutex_unlock m s' = Some s"
  using assms by (simp add: mutex_lock_def lock_loop.simps bts_def mutex_is_locked_def mutex_unlock_def fun_upd_idem)

text \<open>A task that locks a mutex it already holds never gets it: as long as the other tasks leave the mutex
  alone, no number of rounds of the loop ends it.\<close>

lemma mutex_lock_not_recursive:
  assumes y: "\<And>s. mutexes (yield s) m = mutexes s m" and x: "mutexes s m = Some x" "odd (mutex x)"
  shows "lock_loop yield m s = None"
proof (rule ccontr)
  assume "lock_loop yield m s \<noteq> None"
  then obtain s' where "lock_loop yield m s = Some s'" by auto
  then have "yield = yield \<longrightarrow> m = m \<longrightarrow> mutexes s m \<noteq> Some x"
  proof (rule lock_loop.raw_induct[where P = "\<lambda>yl ml s s'. yl = yield \<longrightarrow> ml = m \<longrightarrow> mutexes s m \<noteq> Some x", rotated])
    fix loop yl ml s s'
    assume IH: "\<And>yl ml s s'. loop yl ml s = Some s' \<Longrightarrow> yl = yield \<longrightarrow> ml = m \<longrightarrow> mutexes s m \<noteq> Some x"
      and body: "do { x \<leftarrow> mutexes s ml; let (success, x') = bts x;
        if success then Some (s\<lparr> mutexes := (mutexes s)(ml \<mapsto> x'\<lparr> mowner := this_task s \<rparr>) \<rparr>)
        else do { assertK (task_switching s); loop yl ml (yl (s\<lparr> mutexes := (mutexes s)(ml \<mapsto> x') \<rparr>)) } } = Some s'"
    show "yl = yield \<longrightarrow> ml = m \<longrightarrow> mutexes s m \<noteq> Some x"
    proof (intro impI notI)
      assume e: "yl = yield" "ml = m" "mutexes s m = Some x"
      have "loop yield m (yield (s\<lparr> mutexes := (mutexes s)(m \<mapsto> x) \<rparr>)) = Some s'"
        using body e x(2) by (auto simp: bts_def split: if_splits)
      from IH[OF this] show False using y by simp
    qed
  qed
  then show False using x(1) by simp
qed

subsection \<open>Properties\<close>

text \<open>C28.  Whatever the interleaving of the tasks' memory accesses, at most one of them is between its
  successful \<open>BTS\<close> and the store that releases the mutex.\<close>

theorem mutex_mutual_exclusion:
  assumes "mutex_step\<^sup>*\<^sup>* mutex_start (x, pc)" "critical (pc t)" "critical (pc u)"
  shows "t = u"
  using mutex_run_inv[OF assms(1) mutex_start_inv] assms(2,3) by (auto elim!: mutex_inv_cases)

theorem mutex_mutual_exclusion_witness:
  "mutex_step\<^sup>*\<^sup>* mutex_start (foldl mutex_move mutex_start [1, 1, 2, 2]) \<and>
   (\<forall>u. critical (snd (foldl mutex_move mutex_start [1, 1, 2, 2]) u) = (u = 1))"
proof -
  have r: "mutex_step\<^sup>*\<^sup>* mutex_start (foldl mutex_move mutex_start [1, 1, 2, 2])" by (rule mutex_moves) simp
  then have "u = 1" if "critical (snd (foldl mutex_move mutex_start [1, 1, 2, 2]) u)" for u
    using mutex_mutual_exclusion[of "fst (foldl mutex_move mutex_start [1, 1, 2, 2])" "snd (foldl mutex_move mutex_start [1, 1, 2, 2])" u 1] that
    by (simp add: mutex_start_def critical_def bts_simps)
  moreover have "critical (snd (foldl mutex_move mutex_start [1, 1, 2, 2]) 1)" by (simp add: mutex_start_def critical_def bts_simps)
  ultimately show ?thesis using r by metis
qed


end
