(* ===== verification/Vfs.thy ===== *)
theory Vfs
  imports Kmutex
begin

text \<open>
  Open files and file descriptors: the descriptor half of \<open>src/kernel/vfs.c\<close>, and the parts of \<open>fork\<close>,
  \<open>destroy_task\<close> and \<open>create_task\<close> in \<open>src/kernel/task.c\<close> that handle descriptor tables.

  A task is named by its address.  A descriptor table is the list of the pointers in it; the block that
  holds one is allocated with \<open>sizeof(struct open_file) * MAX_OPEN_FILES\<close> bytes, so it has more than
  \<open>MAX_OPEN_FILES\<close> entries, and how many depends on the size of the C library's types.  The function pointers of an
  open file (\<open>struct open_file_ops\<close>) are the number of an operations table, and the tables are an argument \<open>D\<close> of
  the operations; number 0 is a table of \<open>NULL\<close> pointers.  \<open>current_task\<close> is \<open>this_task\<close> of the mutex state.
\<close>

subsection \<open>Data\<close>

datatype errno = EPERM | ENOENT | EACCES | EFAULT | ENOTDIR | EINVAL | ENFILE | EMFILE | ESPIPE | EPIPE | ERANGE | ELOOP | EBADF

text \<open>What a system call returns: \<open>Inl e\<close> for \<open>-e\<close>, \<open>Inr n\<close> for \<open>n\<close>.\<close>

type_synonym res = "errno + int"

record stat_t =
  st_dev :: nat
  st_ino :: nat
  st_mode :: nat
  st_nlink :: nat
  st_size :: nat
  st_blksize :: nat
  st_mtime :: nat
  st_ctime :: nat
  st_atime :: nat

record open_file =
  ocount :: int
  odev :: nat
  oino :: nat
  ocur_block :: nat
  ooffset :: int
  osize :: int
  omode :: int
  omp :: nat
  opath :: "(nat \<times> string) option"
  ofops :: nat
  odata :: nat

definition zero_file :: open_file where
  "zero_file = \<lparr> ocount = 0, odev = 0, oino = 0, ocur_block = 0, ooffset = 0, osize = 0, omode = 0, omp = 0, opath = None, ofops = 0, odata = 0 \<rparr>"

record 's vfs = "'s mutex_st" +
  tasks :: "nat list"
  fdtable :: "nat \<Rightarrow> nat list"
  fdblock :: "nat \<Rightarrow> nat"
  pwd :: "nat \<Rightarrow> string option"
  link_count :: "nat \<Rightarrow> int"
  files :: "nat \<rightharpoonup> open_file"

record 'st open_file_ops =
  op_read :: "(int \<Rightarrow> nat \<Rightarrow> nat \<Rightarrow> 'st \<Rightarrow> (res \<times> 'st) option) option"
  op_write :: "(int \<Rightarrow> nat \<Rightarrow> nat \<Rightarrow> 'st \<Rightarrow> (res \<times> 'st) option) option"
  op_close :: "(int \<Rightarrow> nat \<Rightarrow> 'st \<Rightarrow> (res \<times> 'st) option) option"
  op_lseek :: "(int \<Rightarrow> int \<Rightarrow> int \<Rightarrow> 'st \<Rightarrow> (res \<times> 'st) option) option"
  op_fstat :: "(int \<Rightarrow> 'st \<Rightarrow> ((errno + stat_t) \<times> 'st) option) option"
  op_getdents :: "(int \<Rightarrow> nat \<Rightarrow> int \<Rightarrow> 'st \<Rightarrow> (res \<times> 'st) option) option"

definition no_ops :: "'st open_file_ops" where
  "no_ops = \<lparr> op_read = None, op_write = None, op_close = None, op_lseek = None, op_fstat = None, op_getdents = None \<rparr>"

abbreviation (input) MAX_OPEN_FILES :: nat where "MAX_OPEN_FILES \<equiv> 128"
abbreviation (input) DEV_PIPE :: nat where "DEV_PIPE \<equiv> 32767"

subsection \<open>Descriptors\<close>

text \<open>Writing an entry of a task's table, and changing an open file in place.\<close>

definition set_fd :: "nat \<Rightarrow> nat \<Rightarrow> nat \<Rightarrow> ('s, 'z) vfs_scheme \<Rightarrow> ('s, 'z) vfs_scheme option" where
  "set_fd t i f s = do { tb \<leftarrow> wr (fdtable s t) i f; Some (s\<lparr> fdtable := (fdtable s)(t := tb) \<rparr>) }"

definition upd_file :: "nat \<Rightarrow> (open_file \<Rightarrow> open_file) \<Rightarrow> ('s, 'z) vfs_scheme \<Rightarrow> ('s, 'z) vfs_scheme option" where
  "upd_file f g s = do { x \<leftarrow> files s f; Some (s\<lparr> files := (files s)(f \<mapsto> g x) \<rparr>) }"

definition do_get_filp :: "int \<Rightarrow> nat \<Rightarrow> ('s, 'z) vfs_scheme \<Rightarrow> nat option" where
  "do_get_filp fd t s = (if fd < 0 \<or> fd > int MAX_OPEN_FILES then Some 0 else rd (fdtable s t) (nat fd))"

definition get_filp :: "int \<Rightarrow> ('s, 'z) vfs_scheme \<Rightarrow> nat option" where
  "get_filp fd s = do_get_filp fd (this_task s) s"

text \<open>The first free entry at one of the given indices; \<open>None\<close> when the loop ends without one.\<close>

fun free_entry :: "nat list \<Rightarrow> nat list \<Rightarrow> nat option option" where
  "free_entry tb [] = Some None"
| "free_entry tb (i # is) = do { f \<leftarrow> rd tb i; if f = 0 then Some (Some i) else free_entry tb is }"

definition new_filp :: "(nat \<Rightarrow> 's \<Rightarrow> (nat \<times> 's) option) \<Rightarrow> nat \<Rightarrow> ('s, 'z) vfs_scheme \<Rightarrow> (nat \<times> nat \<times> ('s, 'z) vfs_scheme) option" where
  "new_filp malloc osz s = do {
     r \<leftarrow> free_entry (fdtable s (this_task s)) [0..<MAX_OPEN_FILES + 1];
     i \<leftarrow> r;
     (f, h) \<leftarrow> malloc osz (mheap s);
     s1 \<leftarrow> set_fd (this_task s) i f (s\<lparr> mheap := h, files := (files s)(f \<mapsto> zero_file) \<rparr>);
     Some (i, f, s1) }"

definition destroy_filp :: "(nat \<Rightarrow> 's \<Rightarrow> 's option) \<Rightarrow> int \<Rightarrow> ('s, 'z) vfs_scheme \<Rightarrow> ('s, 'z) vfs_scheme option" where
  "destroy_filp free fd s = do {
     assertK (fd \<ge> 0);
     assertK (fd < int MAX_OPEN_FILES);
     f \<leftarrow> rd (fdtable s (this_task s)) (nat fd);
     assertK (f \<noteq> 0);
     h \<leftarrow> free f (mheap s);
     set_fd (this_task s) (nat fd) 0 (s\<lparr> mheap := h, files := (files s)(f := None) \<rparr>) }"

subsection \<open>Operations on descriptors\<close>

text \<open>The checks that most operations start with: \<open>Inl\<close> for \<open>-EBADF\<close>, otherwise the open file.\<close>

definition filp_checked :: "int \<Rightarrow> ('s, 'z) vfs_scheme \<Rightarrow> (errno + open_file) option" where
  "filp_checked fd s = do {
     f \<leftarrow> get_filp fd s;
     if f = 0 then Some (Inl EBADF)
     else do { x \<leftarrow> files s f; Some (if ocount x < 1 then Inl EBADF else Inr x) } }"

definition vfs_read :: "(nat \<Rightarrow> ('s, 'z) vfs_scheme open_file_ops) \<Rightarrow> int \<Rightarrow> nat \<Rightarrow> int \<Rightarrow> ('s, 'z) vfs_scheme \<Rightarrow> (res \<times> ('s, 'z) vfs_scheme) option" where
  "vfs_read D fd buf len s = do {
     r \<leftarrow> filp_checked fd s;
     case r of Inl e \<Rightarrow> Some (Inl e, s)
     | Inr x \<Rightarrow> (case op_read (D (ofops x)) of None \<Rightarrow> Some (Inl EBADF, s) | Some f \<Rightarrow> f fd buf (u32 len) s) }"

definition vfs_write :: "(nat \<Rightarrow> ('s, 'z) vfs_scheme open_file_ops) \<Rightarrow> int \<Rightarrow> nat \<Rightarrow> int \<Rightarrow> ('s, 'z) vfs_scheme \<Rightarrow> (res \<times> ('s, 'z) vfs_scheme) option" where
  "vfs_write D fd buf len s = do {
     r \<leftarrow> filp_checked fd s;
     case r of Inl e \<Rightarrow> Some (Inl e, s)
     | Inr x \<Rightarrow> (case op_write (D (ofops x)) of
         None \<Rightarrow> Some (Inl (case opath x of Some (p, name) \<Rightarrow> if name \<noteq> [] then EPERM else EBADF | None \<Rightarrow> EBADF), s)
       | Some f \<Rightarrow> f fd buf (u32 len) s) }"

definition fstat :: "(nat \<Rightarrow> ('s, 'z) vfs_scheme open_file_ops) \<Rightarrow> int \<Rightarrow> ('s, 'z) vfs_scheme \<Rightarrow> ((errno + stat_t) \<times> ('s, 'z) vfs_scheme) option" where
  "fstat D fd s = do {
     r \<leftarrow> filp_checked fd s;
     case r of Inl e \<Rightarrow> Some (Inl e, s) | Inr x \<Rightarrow> do { f \<leftarrow> op_fstat (D (ofops x)); f fd s } }"

definition getdents :: "(nat \<Rightarrow> ('s, 'z) vfs_scheme open_file_ops) \<Rightarrow> int \<Rightarrow> nat \<Rightarrow> int \<Rightarrow> ('s, 'z) vfs_scheme \<Rightarrow> (res \<times> ('s, 'z) vfs_scheme) option" where
  "getdents D fd dp len s = do {
     r \<leftarrow> filp_checked fd s;
     case r of Inl e \<Rightarrow> Some (Inl e, s)
     | Inr x \<Rightarrow> (case op_getdents (D (ofops x)) of None \<Rightarrow> Some (Inl ENOTDIR, s) | Some f \<Rightarrow> f fd dp len s) }"

definition lseek :: "(nat \<Rightarrow> ('s, 'z) vfs_scheme open_file_ops) \<Rightarrow> int \<Rightarrow> int \<Rightarrow> int \<Rightarrow> ('s, 'z) vfs_scheme \<Rightarrow> (res \<times> ('s, 'z) vfs_scheme) option" where
  "lseek D fd offset whence s = do {
     f \<leftarrow> get_filp fd s;
     if f = 0 then Some (Inl EBADF, s) else do {
       x \<leftarrow> files s f;
       case op_lseek (D (ofops x)) of None \<Rightarrow> Some (Inl EBADF, s)
       | Some g \<Rightarrow> if odev x = DEV_PIPE then Some (Inl ESPIPE, s) else g fd offset whence s } }"

text \<open>The end of \<open>do_close\<close>: the last reference frees the path and the open file.\<close>

definition drop_file :: "(nat \<Rightarrow> 's \<Rightarrow> 's option) \<Rightarrow> nat \<Rightarrow> ('s, 'z) vfs_scheme \<Rightarrow> ('s, 'z) vfs_scheme option" where
  "drop_file free f s = do {
     x \<leftarrow> files s f;
     assertK (ocount x \<ge> 0);
     if ocount x = 0 then do {
       h \<leftarrow> (case opath x of None \<Rightarrow> Some (mheap s) | Some (p, name) \<Rightarrow> free p (mheap s));
       h' \<leftarrow> free f h;
       Some (s\<lparr> mheap := h', files := (files s)(f := None) \<rparr>) }
     else Some s }"

definition do_close :: "(nat \<Rightarrow> 's \<Rightarrow> 's option) \<Rightarrow> (nat \<Rightarrow> ('s, 'z) vfs_scheme open_file_ops) \<Rightarrow> int \<Rightarrow> nat \<Rightarrow> ('s, 'z) vfs_scheme \<Rightarrow>
    (res \<times> ('s, 'z) vfs_scheme) option" where
  "do_close free D fd t s = do {
     assertK (t \<noteq> 0);
     f \<leftarrow> do_get_filp fd t s;
     if f = 0 then Some (Inl EBADF, s) else do {
       x \<leftarrow> files s f;
       if ocount x < 1 then Some (Inl EBADF, s) else do {
         c \<leftarrow> op_close (D (ofops x));
         (r, s1) \<leftarrow> c fd f s;
         s2 \<leftarrow> upd_file f (\<lambda>x. x\<lparr> ocount := ocount x - 1 \<rparr>) s1;
         s3 \<leftarrow> set_fd t (nat fd) 0 s2;
         s4 \<leftarrow> drop_file free f s3;
         Some (r, s4) } } }"

definition vfs_close :: "(nat \<Rightarrow> 's \<Rightarrow> 's option) \<Rightarrow> (nat \<Rightarrow> ('s, 'z) vfs_scheme open_file_ops) \<Rightarrow> int \<Rightarrow> ('s, 'z) vfs_scheme \<Rightarrow>
    (res \<times> ('s, 'z) vfs_scheme) option" where
  "vfs_close free D fd s = do_close free D fd (this_task s) s"

definition dup :: "int \<Rightarrow> ('s, 'z) vfs_scheme \<Rightarrow> (res \<times> ('s, 'z) vfs_scheme) option" where
  "dup fd s = do {
     f \<leftarrow> get_filp fd s;
     if f = 0 then Some (Inl EBADF, s) else do {
       r \<leftarrow> free_entry (fdtable s (this_task s)) [0..<MAX_OPEN_FILES];
       case r of None \<Rightarrow> Some (Inl EMFILE, s)
       | Some i \<Rightarrow> do {
           s1 \<leftarrow> set_fd (this_task s) i f s;
           s2 \<leftarrow> upd_file f (\<lambda>x. x\<lparr> ocount := ocount x + 1 \<rparr>) s1;
           Some (Inr (int i), s2) } } }"

definition dup2 :: "(nat \<Rightarrow> 's \<Rightarrow> 's option) \<Rightarrow> (nat \<Rightarrow> ('s, 'z) vfs_scheme open_file_ops) \<Rightarrow> int \<Rightarrow> int \<Rightarrow> ('s, 'z) vfs_scheme \<Rightarrow>
    (res \<times> ('s, 'z) vfs_scheme) option" where
  "dup2 free D fd fd2 s = (if fd2 < 0 \<or> fd2 \<ge> int MAX_OPEN_FILES then Some (Inl EBADF, s) else do {
     f \<leftarrow> get_filp fd s;
     if f = 0 then Some (Inl EBADF, s) else do {
       tmp \<leftarrow> get_filp fd2 s;
       s1 \<leftarrow> (if tmp \<noteq> 0 then do { (r, s') \<leftarrow> vfs_close free D fd2 s; Some s' } else Some s);
       e \<leftarrow> rd (fdtable s1 (this_task s1)) (nat fd2);
       assertK (e = 0);
       s2 \<leftarrow> set_fd (this_task s1) (nat fd2) f s1;
       s3 \<leftarrow> upd_file f (\<lambda>x. x\<lparr> ocount := ocount x + 1 \<rparr>) s2;
       Some (Inr fd2, s3) } })"

subsection \<open>System calls\<close>

text \<open>The first argument is the outcome of the \<open>CHECK_ACCESS\<close> macro of the call.\<close>

definition sys_read :: "bool \<Rightarrow> (nat \<Rightarrow> ('s, 'z) vfs_scheme open_file_ops) \<Rightarrow> int \<Rightarrow> nat \<Rightarrow> int \<Rightarrow> ('s, 'z) vfs_scheme \<Rightarrow> (res \<times> ('s, 'z) vfs_scheme) option" where
  "sys_read acc D fd buf len s = (if \<not> acc then Some (Inl EFAULT, s) else vfs_read D fd buf len s)"

definition sys_write :: "bool \<Rightarrow> (nat \<Rightarrow> ('s, 'z) vfs_scheme open_file_ops) \<Rightarrow> int \<Rightarrow> nat \<Rightarrow> int \<Rightarrow> ('s, 'z) vfs_scheme \<Rightarrow> (res \<times> ('s, 'z) vfs_scheme) option" where
  "sys_write acc D fd buf len s = (if \<not> acc then Some (Inl EFAULT, s) else vfs_write D fd buf len s)"

definition sys_fstat :: "bool \<Rightarrow> (nat \<Rightarrow> ('s, 'z) vfs_scheme open_file_ops) \<Rightarrow> int \<Rightarrow> ('s, 'z) vfs_scheme \<Rightarrow> ((errno + stat_t) \<times> ('s, 'z) vfs_scheme) option" where
  "sys_fstat acc D fd s = (if \<not> acc then Some (Inl EFAULT, s) else fstat D fd s)"

definition sys_getdents :: "bool \<Rightarrow> (nat \<Rightarrow> ('s, 'z) vfs_scheme open_file_ops) \<Rightarrow> int \<Rightarrow> nat \<Rightarrow> int \<Rightarrow> ('s, 'z) vfs_scheme \<Rightarrow> (res \<times> ('s, 'z) vfs_scheme) option" where
  "sys_getdents acc D fd dp len s = (if \<not> acc then Some (Inl EFAULT, s) else getdents D fd dp len s)"

subsection \<open>Descriptor tables of tasks\<close>

text \<open>\<open>fork\<close>: the child gets a copy of the table, and the files in the first \<open>MAX_OPEN_FILES\<close> entries are counted.\<close>

definition fork_fd :: "nat list \<Rightarrow> nat \<Rightarrow> ('s, 'z) vfs_scheme \<Rightarrow> ('s, 'z) vfs_scheme option" where
  "fork_fd tb i s = do {
     f \<leftarrow> rd tb i;
     if f \<noteq> 0 then do {
       x \<leftarrow> files s f;
       assertK (ocount x > 0);
       upd_file f (\<lambda>x. x\<lparr> ocount := ocount x + 1 \<rparr>) s }
     else Some s }"

definition fork_fdtable :: "(nat \<Rightarrow> 's \<Rightarrow> (nat \<times> 's) option) \<Rightarrow> nat \<Rightarrow> nat \<Rightarrow> ('s, 'z) vfs_scheme \<Rightarrow> ('s, 'z) vfs_scheme option" where
  "fork_fdtable malloc osz child s = do {
     (b, h) \<leftarrow> malloc (osz * MAX_OPEN_FILES) (mheap s);
     let tb = fdtable s (this_task s);
     foreach (fork_fd tb) [0..<MAX_OPEN_FILES]
       (s\<lparr> mheap := h, tasks := child # tasks s, fdtable := (fdtable s)(child := tb), fdblock := (fdblock s)(child := b) \<rparr>) }"

text \<open>\<open>destroy_task\<close>: close the first \<open>MAX_OPEN_FILES\<close> entries and free the table.\<close>

definition destroy_fd :: "(nat \<Rightarrow> 's \<Rightarrow> 's option) \<Rightarrow> (nat \<Rightarrow> ('s, 'z) vfs_scheme open_file_ops) \<Rightarrow> nat \<Rightarrow> nat \<Rightarrow> ('s, 'z) vfs_scheme \<Rightarrow> ('s, 'z) vfs_scheme option" where
  "destroy_fd free D t i s = do {
     f \<leftarrow> rd (fdtable s t) i;
     if f \<noteq> 0 then do {
       (r, s') \<leftarrow> do_close free D (int i) t s;
       assertK (r = Inr 0);
       e \<leftarrow> rd (fdtable s' t) i;
       assertK (e = 0);
       Some s' }
     else Some s }"

definition destroy_fdtable :: "(nat \<Rightarrow> 's \<Rightarrow> 's option) \<Rightarrow> (nat \<Rightarrow> ('s, 'z) vfs_scheme open_file_ops) \<Rightarrow> nat \<Rightarrow> ('s, 'z) vfs_scheme \<Rightarrow> ('s, 'z) vfs_scheme option" where
  "destroy_fdtable free D t s = do {
     s1 \<leftarrow> foreach (destroy_fd free D t) [0..<MAX_OPEN_FILES] s;
     h \<leftarrow> free (fdblock s1 t) (mheap s1);
     Some (s1\<lparr> mheap := h, tasks := remove1 t (tasks s1), fdtable := (fdtable s1)(t := []), fdblock := (fdblock s1)(t := 0) \<rparr>) }"

subsection \<open>Sequences of calls\<close>

datatype fd_request = Dup int | Dup2 int int | Close int

fun self_dup2 :: "fd_request \<Rightarrow> bool" where
  "self_dup2 (Dup2 fd fd2) = (fd = fd2)"
| "self_dup2 _ = False"

fun fd_call :: "(nat \<Rightarrow> 's \<Rightarrow> 's option) \<Rightarrow> (nat \<Rightarrow> ('s, 'z) vfs_scheme open_file_ops) \<Rightarrow> fd_request \<Rightarrow> ('s, 'z) vfs_scheme \<Rightarrow> (res \<times> ('s, 'z) vfs_scheme) option" where
  "fd_call free D (Dup fd) s = dup fd s"
| "fd_call free D (Dup2 fd fd2) s = dup2 free D fd fd2 s"
| "fd_call free D (Close fd) s = vfs_close free D fd s"

fun fd_calls :: "(nat \<Rightarrow> 's \<Rightarrow> 's option) \<Rightarrow> (nat \<Rightarrow> ('s, 'z) vfs_scheme open_file_ops) \<Rightarrow> fd_request list \<Rightarrow> ('s, 'z) vfs_scheme \<Rightarrow> (res list \<times> ('s, 'z) vfs_scheme) option" where
  "fd_calls free D [] s = Some ([], s)"
| "fd_calls free D (c # cs) s = do { (r, s1) \<leftarrow> fd_call free D c s; (rs, s2) \<leftarrow> fd_calls free D cs s1; Some (r # rs, s2) }"

subsection \<open>Reference counts\<close>

text \<open>The number of table entries, over all tasks, that point to an open file.\<close>

definition refs :: "('s, 'z) vfs_scheme \<Rightarrow> nat \<Rightarrow> nat" where
  "refs s f = sum_list (map (\<lambda>t. count_list (fdtable s t) f) (tasks s))"

text \<open>The invariant: every entry points to an open file, which has as many references as its \<open>count\<close> says, and at
  least one.\<close>

definition fd_ok :: "('s, 'z) vfs_scheme \<Rightarrow> bool" where
  "fd_ok s \<longleftrightarrow> distinct (tasks s) \<and> 0 \<notin> set (tasks s) \<and> (\<forall>t \<in> set (tasks s). MAX_OPEN_FILES < length (fdtable s t)) \<and>
     (\<forall>f. f \<noteq> 0 \<longrightarrow> (files s f = None \<longleftrightarrow> refs s f = 0)) \<and> files s 0 = None \<and>
     (\<forall>f x. files s f = Some x \<longrightarrow> ocount x = int (refs s f))"

lemma count_list_update:
  "i < length xs \<Longrightarrow> count_list (xs[i := v]) g + (if xs ! i = g then 1 else 0) = count_list xs g + (if v = g then 1 else 0)"
proof (induction xs arbitrary: i)
  case (Cons x xs)
  then show ?case
  proof (cases i)
    case (Suc j)
    then show ?thesis using Cons.IH[of j] Cons.prems by (cases "x = g") (simp_all split: if_splits)
  qed auto
qed simp

lemma sum_list_change:
  assumes "distinct ts" "t \<in> set ts" "\<And>u. u \<noteq> t \<Longrightarrow> F u = G u" "F t + a = G t + (b :: nat)"
  shows "sum_list (map F ts) + a = sum_list (map G ts) + b"
  using assms(1,2)
proof (induction ts)
  case (Cons u ts)
  show ?case
  proof (cases "u = t")
    case True
    with Cons.prems have "map F ts = map G ts" by (auto intro: assms(3))
    then have "sum_list (map F ts) = sum_list (map G ts)" by (rule arg_cong)
    then show ?thesis using True assms(4) by simp
  next
    case False
    then show ?thesis using Cons assms(3) by simp
  qed
qed simp

text \<open>Storing \<open>v\<close> at entry \<open>i\<close> of a table takes a reference from the old contents and gives one to \<open>v\<close>.\<close>

lemma refs_set:
  assumes "distinct (tasks s)" "t \<in> set (tasks s)" "i < length (fdtable s t)" "tasks s' = tasks s" "fdtable s' = (fdtable s)(t := (fdtable s t)[i := v])"
  shows "refs s' g + (if fdtable s t ! i = g then 1 else 0) = refs s g + (if v = g then 1 else 0)"
  unfolding refs_def assms(4,5)
  by (rule sum_list_change[OF assms(1,2)]) (use count_list_update[OF assms(3)] in auto)

lemma refs_cong: "tasks s' = tasks s \<Longrightarrow> fdtable s' = fdtable s \<Longrightarrow> refs s' = refs s"
  by (simp add: refs_def fun_eq_iff)

lemma refs_pos: "t \<in> set (tasks s) \<Longrightarrow> f \<in> set (fdtable s t) \<Longrightarrow> 0 < refs s f"
proof -
  assume a: "t \<in> set (tasks s)" "f \<in> set (fdtable s t)"
  have "0 < count_list (fdtable s t) f" using a(2) by (metis count_list_0_iff gr0I)
  also have "\<dots> \<le> refs s f" unfolding refs_def using a(1) by (intro member_le_sum_list) auto
  finally show ?thesis .
qed

lemma refs_two: "t \<in> set (tasks s) \<Longrightarrow> i < length (fdtable s t) \<Longrightarrow> j < length (fdtable s t) \<Longrightarrow> i \<noteq> j \<Longrightarrow>
  fdtable s t ! i = f \<Longrightarrow> fdtable s t ! j = f \<Longrightarrow> 1 < refs s f"
proof -
  assume a: "t \<in> set (tasks s)" "i < length (fdtable s t)" "j < length (fdtable s t)" "i \<noteq> j" "fdtable s t ! i = f" "fdtable s t ! j = f"
  have "f \<in> set ((fdtable s t)[i := Suc f])" using a(3,4,6) by (metis length_list_update nth_list_update_neq nth_mem)
  then have "0 < count_list ((fdtable s t)[i := Suc f]) f" by (metis count_list_0_iff gr0I)
  then have "1 < count_list (fdtable s t) f" using count_list_update[OF a(2), of "Suc f" f] a(5) by simp
  also have "\<dots> \<le> refs s f" unfolding refs_def using a(1) by (intro member_le_sum_list) auto
  finally show ?thesis .
qed

lemma fd_okD:
  assumes "fd_ok s"
  shows "distinct (tasks s)" "t \<in> set (tasks s) \<Longrightarrow> MAX_OPEN_FILES < length (fdtable s t)" "files s 0 = None"
    "files s f = Some x \<Longrightarrow> ocount x = int (refs s f)" "t \<in> set (tasks s) \<Longrightarrow> t \<noteq> 0"
    "f \<noteq> 0 \<Longrightarrow> files s f = None \<longleftrightarrow> refs s f = 0"
  using assms unfolding fd_ok_def by (simp_all, metis gr0I)

lemma fd_ok_nonzero: "fd_ok s \<Longrightarrow> files s f = Some x \<Longrightarrow> f \<noteq> 0"
  using fd_okD(3)[of s] by (cases "f = 0") simp_all

lemma fd_ok_counts: "fd_ok s \<Longrightarrow> map_option ocount (files s f) = (if f = 0 \<or> refs s f = 0 then None else Some (int (refs s f)))"
proof (cases "f = 0")
  case True
  assume "fd_ok s"
  then show ?thesis using True fd_okD(3) by simp
next
  case False
  assume ok: "fd_ok s"
  show ?thesis
  proof (cases "files s f")
    case None
    then show ?thesis using fd_okD(6)[OF ok False] by simp
  next
    case (Some x)
    then show ?thesis using fd_okD(6)[OF ok False] fd_okD(4)[OF ok Some] False by simp
  qed
qed

text \<open>An entry that is not zero is an open file with a positive count.\<close>

lemma fd_ok_entry:
  assumes "fd_ok s" "t \<in> set (tasks s)" "i < length (fdtable s t)" "fdtable s t ! i = f" "f \<noteq> 0"
  obtains x where "files s f = Some x" "ocount x = int (refs s f)" "0 < refs s f"
proof -
  have "0 < refs s f" using refs_pos[OF assms(2)] assms(3,4) by (metis nth_mem)
  moreover then obtain x where "files s f = Some x" using fd_okD(6)[OF assms(1,5)] by (metis not_None_eq not_less_zero)
  ultimately show thesis using that fd_okD(4)[OF assms(1)] by blast
qed

lemma do_get_filp_ok:
  assumes "fd_ok s" "t \<in> set (tasks s)"
  shows "do_get_filp fd t s = Some (if 0 \<le> fd \<and> fd \<le> 128 then fdtable s t ! nat fd else 0)"
  using fd_okD(2)[OF assms] by (auto simp: do_get_filp_def)

lemma free_entry_some:
  assumes "\<forall>j < n. tb ! (m + j) \<noteq> 0" "m + n < length tb" "tb ! (m + n) = 0" "m + n < e"
  shows "free_entry tb [m..<e] = Some (Some (m + n))"
  using assms
proof (induction n arbitrary: m)
  case 0
  then show ?case by (simp add: upt_conv_Cons)
next
  case (Suc n)
  have "tb ! (Suc m + j) \<noteq> 0" if "j < n" for j using Suc.prems(1)[rule_format, of "Suc j"] that by simp
  then have "free_entry tb [Suc m..<e] = Some (Some (Suc m + n))" using Suc.IH[of "Suc m"] Suc.prems by simp
  moreover have "tb ! m \<noteq> 0" using Suc.prems(1)[rule_format, of 0] by simp
  ultimately show ?case using Suc.prems(2,4) by (simp add: upt_conv_Cons)
qed

lemma free_entry_none: "\<forall>i \<in> set is. i < length tb \<and> tb ! i \<noteq> 0 \<Longrightarrow> free_entry tb is = Some None"
  by (induction "is") auto

lemma free_entry_cases:
  assumes "e < length tb"
  shows "(\<exists>i < e. tb ! i = 0 \<and> (\<forall>j < i. tb ! j \<noteq> 0) \<and> free_entry tb [0..<e] = Some (Some i)) \<or>
    (\<forall>i < e. tb ! i \<noteq> 0) \<and> free_entry tb [0..<e] = Some None"
proof (cases "\<exists>i < e. tb ! i = 0")
  case True
  define i where "i = (LEAST i. i < e \<and> tb ! i = 0)"
  have i: "i < e" "tb ! i = 0" using LeastI_ex[OF True] by (simp_all add: i_def)
  have "tb ! j \<noteq> 0" if "j < i" for j using not_less_Least[of j "\<lambda>i. i < e \<and> tb ! i = 0"] that i(1) by (auto simp: i_def)
  then show ?thesis using i free_entry_some[of i tb 0 e] assms by auto
next
  case False
  then show ?thesis using free_entry_none[of "[0..<e]" tb] assms by auto
qed

text \<open>The two ways in which the operations change the tables: one more or one fewer reference to an existing file.\<close>

lemma fd_okI:
  assumes "fd_ok s" "tasks s' = tasks s" "\<And>t. length (fdtable s' t) = length (fdtable s t)" "files s' 0 = None"
    "\<And>f. f \<noteq> 0 \<Longrightarrow> files s' f = None \<longleftrightarrow> refs s' f = 0" "\<And>f x. files s' f = Some x \<Longrightarrow> ocount x = int (refs s' f)"
  shows "fd_ok s'"
  using assms(1) unfolding fd_ok_def assms(2,3) using assms(4-6) by blast

lemma fd_ok_addref:
  assumes ok: "fd_ok s" and t: "t \<in> set (tasks s)" "i < length (fdtable s t)" "fdtable s t ! i = 0" and f: "files s f = Some x"
    and s': "tasks s' = tasks s" "fdtable s' = (fdtable s)(t := (fdtable s t)[i := f])" "files s' = (files s)(f \<mapsto> x\<lparr> ocount := ocount x + 1 \<rparr>)"
  shows "fd_ok s'"
proof (rule fd_okI[OF ok s'(1)])
  have f0: "f \<noteq> 0" by (rule fd_ok_nonzero[OF ok f])
  have r: "refs s' g = refs s g + (if f = g then 1 else 0)" if "g \<noteq> 0" for g
    using refs_set[OF fd_okD(1)[OF ok] t(1,2) s'(1,2), of g] t(3) that by (simp split: if_splits)
  show z: "files s' 0 = None" using fd_okD(3)[OF ok] f0 by (simp add: s'(3))
  show "files s' g = None \<longleftrightarrow> refs s' g = 0" if g: "g \<noteq> 0" for g
    using r[OF g] fd_okD(6)[OF ok g] by (simp add: s'(3))
  show "ocount y = int (refs s' g)" if g: "files s' g = Some y" for g y
  proof (cases "g = f")
    case True
    then show ?thesis using g fd_okD(4)[OF ok f] r[OF f0] by (auto simp: s'(3))
  next
    case False
    then have "files s g = Some y" using g by (simp add: s'(3))
    then show ?thesis using fd_okD(4)[OF ok] r[OF fd_ok_nonzero[OF ok], of g y] False by simp
  qed
qed (simp add: s'(2))

lemma fd_ok_delref:
  assumes ok: "fd_ok s" and t: "t \<in> set (tasks s)" "i < length (fdtable s t)" "fdtable s t ! i = f" and f: "files s f = Some x"
    and s': "tasks s' = tasks s" "fdtable s' = (fdtable s)(t := (fdtable s t)[i := 0])"
      "files s' = (files s)(f := if ocount x = 1 then None else Some (x\<lparr> ocount := ocount x - 1 \<rparr>))"
  shows "fd_ok s'"
proof (rule fd_okI[OF ok s'(1)])
  have f0: "f \<noteq> 0" by (rule fd_ok_nonzero[OF ok f])
  have r: "refs s' g + (if f = g then 1 else 0) = refs s g" if "g \<noteq> 0" for g
    using refs_set[OF fd_okD(1)[OF ok] t(1,2) s'(1,2), of g] t(3) that by (simp split: if_splits)
  have c: "ocount x = int (refs s f)" by (rule fd_okD(4)[OF ok f])
  have rf: "refs s f = Suc (refs s' f)" using r[OF f0] by simp
  show "files s' 0 = None" using fd_okD(3)[OF ok] f0 by (simp add: s'(3))
  show "files s' g = None \<longleftrightarrow> refs s' g = 0" if g: "g \<noteq> 0" for g
    using r[OF g] fd_okD(6)[OF ok g] c rf by (cases "g = f") (simp_all add: s'(3))
  show "ocount y = int (refs s' g)" if g: "files s' g = Some y" for g y
  proof (cases "g = f")
    case True
    then show ?thesis using g c rf by (auto simp: s'(3) split: if_splits)
  next
    case False
    then have "files s g = Some y" using g by (simp add: s'(3))
    then show ?thesis using fd_okD(4)[OF ok] r[OF fd_ok_nonzero[OF ok], of g y] False by simp
  qed
qed (simp add: s'(2))

subsection \<open>What a driver promises\<close>

text \<open>The operations tables belong to the drivers.  \<open>drv_ok\<close> is a driver's own invariant and \<open>dblocks\<close> are the heap
  blocks it owns; neither may depend on the descriptor tables.  A driver may see its files be referenced more often, and
  its close operation returns, leaves all files and tables alone, may free blocks of its own, and leads
  to its invariant once the reference has been dropped.\<close>

definition dropped :: "nat \<Rightarrow> (nat \<rightharpoonup> open_file) \<Rightarrow> (nat \<rightharpoonup> open_file)" where
  "dropped f fs = (case fs f of None \<Rightarrow> fs | Some x \<Rightarrow> fs(f := if ocount x = 1 then None else Some (x\<lparr> ocount := ocount x - 1 \<rparr>)))"

definition same_fds :: "('s, 'z) vfs_scheme \<Rightarrow> ('s, 'z) vfs_scheme \<Rightarrow> bool" where
  "same_fds s s' \<longleftrightarrow> tasks s' = tasks s \<and> fdtable s' = fdtable s \<and> fdblock s' = fdblock s \<and> this_task s' = this_task s"

text \<open>All open files, their paths and the driver's data are distinct live blocks.\<close>

definition file_blocks :: "nat \<Rightarrow> (nat \<rightharpoonup> open_file) \<Rightarrow> (nat \<rightharpoonup> nat) \<Rightarrow> (nat \<rightharpoonup> nat) \<Rightarrow> bool" where
  "file_blocks osz fs db B \<longleftrightarrow> (\<forall>f x. fs f = Some x \<longrightarrow> B f = Some osz \<and> db f = None) \<and>
     (\<forall>f x p n. fs f = Some x \<and> opath x = Some (p, n) \<longrightarrow> B p = Some (length n + 1) \<and> fs p = None \<and> db p = None) \<and>
     (\<forall>f g x y p n m. fs f = Some x \<and> fs g = Some y \<and> opath x = Some (p, n) \<and> opath y = Some (p, m) \<longrightarrow> f = g)"

lemma file_blocksD:
  assumes "file_blocks osz fs db B" "fs f = Some x"
  shows "B f = Some osz" "db f = None" "opath x = Some (p, n) \<Longrightarrow> B p = Some (length n + 1)"
    "opath x = Some (p, n) \<Longrightarrow> fs p = None" "opath x = Some (p, n) \<Longrightarrow> db p = None"
    "fs g = Some y \<Longrightarrow> opath x = Some (p, n) \<Longrightarrow> opath y = Some (p, m) \<Longrightarrow> f = g"
  using assms unfolding file_blocks_def by blast+

lemma file_blocks_mono:
  assumes fb: "file_blocks osz fs db B"
    and fs: "\<And>f x'. fs' f = Some x' \<Longrightarrow> \<exists>x. fs f = Some x \<and> opath x = opath x'"
    and B: "\<And>f x'. fs' f = Some x' \<Longrightarrow> B' f = B f" "\<And>f x' p n. fs' f = Some x' \<Longrightarrow> opath x' = Some (p, n) \<Longrightarrow> B' p = B p"
    and db: "db' \<subseteq>\<^sub>m db"
  shows "file_blocks osz fs' db' B'"
proof -
  have d: "db' a = None" if "db a = None" for a using db that by (metis domIff map_le_def)
  have n: "fs' a = None" if "fs a = None" for a using fs[of a] that by (cases "fs' a") auto
  show ?thesis unfolding file_blocks_def
  proof (intro conjI allI impI; (elim conjE)?)
    fix f x' assume f: "fs' f = Some x'"
    from fs[OF f] obtain x where x: "fs f = Some x" "opath x = opath x'" by blast
    note fd = file_blocksD[OF fb x(1)]
    show "B' f = Some osz" "db' f = None" using fd(1,2) B(1)[OF f] d by simp_all
    fix p n assume p: "opath x' = Some (p, n)"
    then show "B' p = Some (length n + 1)" "fs' p = None" "db' p = None"
      using fd(3-5)[of p n] x(2) B(2)[OF f p] d n by simp_all
    fix g y' m assume g: "fs' g = Some y'" "opath y' = Some (p, m)"
    from fs[OF g(1)] obtain y where "fs g = Some y" "opath y = opath y'" by blast
    then show "f = g" using fd(6)[of g y p n m] p g(2) x(2) by simp
  qed
qed

lemma files_fdtable: "s\<lparr> files := fs, fdtable := tb \<rparr> = s\<lparr> fdtable := tb, files := fs \<rparr>"
  by simp

lemma files_mheap: "s\<lparr> files := fs, mheap := h \<rparr> = s\<lparr> mheap := h, files := fs \<rparr>" "s\<lparr> fdtable := tb, mheap := h \<rparr> = s\<lparr> mheap := h, fdtable := tb \<rparr>"
  by simp_all

locale drivers = allocator malloc free bytes set_bytes inv
  for malloc :: "nat \<Rightarrow> 's \<Rightarrow> (nat \<times> 's) option" and free bytes set_bytes inv +
  fixes D :: "nat \<Rightarrow> ('s, 'z) vfs_scheme open_file_ops"
    and drv_ok :: "('s, 'z) vfs_scheme \<Rightarrow> bool"
    and dblocks :: "('s, 'z) vfs_scheme \<Rightarrow> nat \<rightharpoonup> nat"
  assumes drv_frame: "drv_ok s \<Longrightarrow> drv_ok (s\<lparr> mheap := h, tasks := ts, fdtable := tb, fdblock := fb \<rparr>)"
    and blocks_frame: "dblocks (s\<lparr> mheap := h, tasks := ts, fdtable := tb, fdblock := fb, files := fs \<rparr>) = dblocks s"
    and addref_law: "drv_ok s \<Longrightarrow> files s f = Some x \<Longrightarrow> drv_ok (s\<lparr> files := (files s)(f \<mapsto> x\<lparr> ocount := ocount x + 1 \<rparr>) \<rparr>)"
    and close_law: "drv_ok s \<Longrightarrow> inv (mheap s) B k \<Longrightarrow> dblocks s \<subseteq>\<^sub>m B \<Longrightarrow> files s f = Some x \<Longrightarrow> 0 < ocount x \<Longrightarrow>
      \<exists>c s1 R. op_close (D (ofops x)) = Some c \<and> c fd f s = Some (Inr 0, s1) \<and> same_fds s s1 \<and> files s1 = files s \<and>
        R \<subseteq> dom (dblocks s) \<and> inv (mheap s1) (B |` (- R)) k \<and> dblocks s1 = dblocks s |` (- R) \<and>
        drv_ok (s1\<lparr> files := dropped f (files s) \<rparr>)"
begin

text \<open>The whole state: descriptors, driver and heap.\<close>

definition world :: "nat \<Rightarrow> ('s, 'z) vfs_scheme \<Rightarrow> (nat \<rightharpoonup> nat) \<Rightarrow> nat \<Rightarrow> bool" where
  "world osz s B k \<longleftrightarrow> fd_ok s \<and> drv_ok s \<and> inv (mheap s) B k \<and> dblocks s \<subseteq>\<^sub>m B \<and> file_blocks osz (files s) (dblocks s) B"

lemma worldD:
  assumes "world osz s B k"
  shows "fd_ok s" "drv_ok s" "inv (mheap s) B k" "dblocks s \<subseteq>\<^sub>m B" "file_blocks osz (files s) (dblocks s) B"
  using assms by (simp_all add: world_def)

text \<open>Another reference to an open file.\<close>

lemma world_addref:
  assumes w: "world osz s B k" and t: "t \<in> set (tasks s)" "i < length (fdtable s t)" "fdtable s t ! i = 0" and x: "files s f = Some x"
  shows "world osz (s\<lparr> fdtable := (fdtable s)(t := (fdtable s t)[i := f]), files := (files s)(f \<mapsto> x\<lparr> ocount := ocount x + 1 \<rparr>) \<rparr>) B k"
    (is "world osz ?s B k")
proof -
  have "fd_ok ?s" by (rule fd_ok_addref[OF worldD(1)[OF w] t x]) simp_all
  moreover have "drv_ok ?s"
    using drv_frame[OF addref_law[OF worldD(2)[OF w] x], of "fdblock s" "fdtable ?s" "tasks s" "mheap s"] by (simp add: files_fdtable)
  moreover have "dblocks ?s = dblocks s"
    using blocks_frame[of "files ?s" "fdblock s" "fdtable ?s" "tasks s" "mheap s" s] by simp
  moreover have "file_blocks osz (files ?s) (dblocks s) B"
    by (rule file_blocks_mono[OF worldD(5)[OF w]]) (use x in \<open>auto split: if_splits\<close>)
  ultimately show ?thesis using worldD[OF w] by (simp add: world_def)
qed

lemma dup_ok:
  assumes w: "world osz s B k" and t: "this_task s \<in> set (tasks s)"
  defines "tb \<equiv> fdtable s (this_task s)"
  shows "\<exists>r s'. dup fd s = Some (r, s') \<and> world osz s' B k \<and>
    (if fd < 0 \<or> fd > 128 \<or> tb ! nat fd = 0 then r = Inl EBADF \<and> s' = s
     else if \<forall>i < 128. tb ! i \<noteq> 0 then r = Inl EMFILE \<and> s' = s
     else \<exists>i < 128. r = Inr (int i) \<and> tb ! i = 0 \<and> (\<forall>j < i. tb ! j \<noteq> 0) \<and> fdtable s' = (fdtable s)(this_task s := tb[i := tb ! nat fd]))"
proof -
  note ok = worldD(1)[OF w]
  have len: "128 < length tb" using fd_okD(2)[OF ok t] by (simp add: tb_def)
  have g: "get_filp fd s = Some (if 0 \<le> fd \<and> fd \<le> 128 then tb ! nat fd else 0)"
    unfolding get_filp_def tb_def by (rule do_get_filp_ok[OF ok t])
  show ?thesis
  proof (cases "fd < 0 \<or> fd > 128 \<or> tb ! nat fd = 0")
    case True
    then have "dup fd s = Some (Inl EBADF, s)" using g unfolding dup_def by auto
    then show ?thesis using w True by auto
  next
    case False
    define f where "f = tb ! nat fd"
    have gf: "get_filp fd s = Some f" "f \<noteq> 0" "nat fd < length tb" using g False len by (auto simp: f_def)
    obtain x where x: "files s f = Some x"
      using fd_ok_entry[OF ok t, of "nat fd" f] gf by (auto simp: tb_def f_def)
    consider i where "i < 128" "tb ! i = 0" "\<forall>j < i. tb ! j \<noteq> 0" "free_entry tb [0..<128] = Some (Some i)"
      | "\<forall>i < 128. tb ! i \<noteq> 0" "free_entry tb [0..<128] = Some None"
      using free_entry_cases[of 128 tb] len by blast
    then show ?thesis
    proof cases
      case 1
      let ?s = "s\<lparr> fdtable := (fdtable s)(this_task s := tb[i := f]), files := (files s)(f \<mapsto> x\<lparr> ocount := ocount x + 1 \<rparr>) \<rparr>"
      have "dup fd s = Some (Inr (int i), ?s)"
        using gf x 1 len unfolding dup_def by (simp add: set_fd_def upd_file_def flip: tb_def)
      moreover have "world osz ?s B k"
        using world_addref[OF w t _ _ x, of i] 1 len by (simp flip: tb_def)
      moreover have "fdtable ?s = (fdtable s)(this_task s := tb[i := tb ! nat fd])" by (simp add: f_def)
      ultimately show ?thesis using 1 False by (intro exI[of _ "Inr (int i)"] exI[of _ ?s]) auto
    next
      case 2
      then have "dup fd s = Some (Inl EMFILE, s)" using gf unfolding dup_def by (simp flip: tb_def)
      then show ?thesis using 2 False w by auto
    qed
  qed
qed

text \<open>Blocks that belong to nobody here.\<close>

definition foreign :: "('s, 'z) vfs_scheme \<Rightarrow> nat \<Rightarrow> bool" where
  "foreign s a \<longleftrightarrow> dblocks s a = None \<and> files s a = None \<and> (\<forall>f x n. files s f = Some x \<longrightarrow> opath x \<noteq> Some (a, n))"

text \<open>The end of \<open>do_close\<close>: the heap blocks that go with the last reference.\<close>

definition freed :: "nat \<Rightarrow> open_file \<Rightarrow> nat set" where
  "freed f x = (if ocount x = 1 then insert f (case opath x of None \<Rightarrow> {} | Some (p, n) \<Rightarrow> {p}) else {})"

lemma drop_file_ok:
  assumes fb: "file_blocks osz fs db B" and f: "fs f = Some x" "0 < ocount x" and i: "inv (mheap s) B k"
    and s: "files s = fs(f \<mapsto> x\<lparr> ocount := ocount x - 1 \<rparr>)"
  shows "\<exists>h. drop_file free f s = Some (s\<lparr> mheap := h, files := dropped f fs \<rparr>) \<and> inv h (B |` (- freed f x)) k"
proof (cases "ocount x = 1")
  case False
  then have "dropped f fs = files s" "freed f x = {}" using f s by (simp_all add: dropped_def freed_def)
  then show ?thesis using i f(2) s False by (intro exI[of _ "mheap s"]) (simp add: drop_file_def restrict_map_def)
next
  case True
  have d: "dropped f fs = (files s)(f := None)" using True f(1) s by (simp add: dropped_def)
  note fd = file_blocksD[OF fb f(1)]
  show ?thesis
  proof (cases "opath x")
    case None
    obtain h where "free f (mheap s) = Some h" "inv h (B(f := None)) k" using free_law[OF i fd(1)] by blast
    moreover have "B |` (- freed f x) = B(f := None)" using True None by (auto simp: freed_def restrict_map_def fun_eq_iff)
    ultimately show ?thesis using True None s d by (intro exI[of _ h]) (simp add: drop_file_def)
  next
    case (Some pn)
    obtain p n where pn: "opath x = Some (p, n)" using Some by (cases pn) auto
    obtain h where h: "free p (mheap s) = Some h" "inv h (B(p := None)) k" using free_law[OF i fd(3)[OF pn]] by blast
    have "p \<noteq> f" using fd(4)[OF pn] f(1) by auto
    then have "(B(p := None)) f = Some osz" using fd(1) by simp
    from free_law[OF h(2) this] obtain h' where h': "free f h = Some h'" "inv h' ((B(p := None))(f := None)) k" by blast
    moreover have "B |` (- freed f x) = (B(p := None))(f := None)" using True pn by (auto simp: freed_def restrict_map_def fun_eq_iff)
    ultimately show ?thesis using True pn s d h(1) by (intro exI[of _ h']) (simp add: drop_file_def)
  qed
qed

lemma freedE:
  assumes "a \<in> freed f x"
  obtains "ocount x = 1" "a = f" | n where "ocount x = 1" "opath x = Some (a, n)"
  using assms by (auto simp: freed_def split: if_splits option.splits)

lemma owned_kept:
  assumes w: "world osz s B k" and x: "files s f = Some x"
  shows "dblocks s |` (- R) \<subseteq>\<^sub>m (B |` (- R)) |` (- freed f x)"
proof -
  have "a \<notin> freed f x" if "dblocks s a \<noteq> None" for a
    using file_blocksD(2,5)[OF worldD(5)[OF w] x] that by (auto elim!: freedE)
  moreover have "B a = dblocks s a" if "dblocks s a \<noteq> None" for a using worldD(4)[OF w] that by (metis domIff map_le_def)
  ultimately show ?thesis by (auto simp: map_le_def restrict_map_def)
qed

lemma dropped_sub: "dropped f fs g = Some x' \<Longrightarrow> \<exists>x. fs g = Some x \<and> opath x = opath x'"
  by (auto simp: dropped_def split: option.splits if_splits)

lemma file_blocks_dropped:
  assumes fb: "file_blocks osz fs db B" and x: "fs f = Some x"
  shows "file_blocks osz (dropped f fs) db (B |` (- freed f x))"
proof (rule file_blocks_mono[OF fb])
  show "\<exists>y. fs g = Some y \<and> opath y = opath y'" if "dropped f fs g = Some y'" for g y' by (rule dropped_sub[OF that])
next
  fix g y' assume g: "dropped f fs g = Some y'"
  obtain y where y: "fs g = Some y" "opath y = opath y'" using dropped_sub[OF g] by blast
  have ne: "g \<noteq> f" if "ocount x = 1" using g x that by (auto simp: dropped_def)
  have "g \<notin> freed f x" using ne file_blocksD(4)[OF fb x] y(1) by (auto elim!: freedE)
  then show "(B |` (- freed f x)) g = B g" by simp
  fix p n assume p: "opath y' = Some (p, n)"
  have "p \<notin> freed f x"
    using ne file_blocksD(4)[OF fb y(1), of p n] file_blocksD(6)[OF fb x y(1), of p _ n] x p y(2) by (auto elim!: freedE)
  then show "(B |` (- freed f x)) p = B p" by simp
qed (simp add: map_le_def)

lemma foreign_kept:
  assumes a: "foreign s a" and x: "files s f = Some x" and R: "R \<subseteq> dom (dblocks s)"
    and s': "files s' = dropped f (files s)" "dblocks s' = dblocks s |` (- R)"
  shows "((B |` (- R)) |` (- freed f x)) a = B a \<and> foreign s' a"
proof
  have "a \<notin> R" "a \<notin> freed f x" using a R x by (auto simp: foreign_def elim!: freedE)
  then show "((B |` (- R)) |` (- freed f x)) a = B a" by simp
  have "dropped f (files s) a = None" using dropped_sub[of f "files s" a] a by (cases "dropped f (files s) a") (auto simp: foreign_def)
  moreover have "opath y \<noteq> Some (a, n)" if "dropped f (files s) g = Some y" for g y n
    using dropped_sub[OF that] a by (auto simp: foreign_def)
  moreover have "dblocks s' a = None" using a by (simp add: s'(2) foreign_def restrict_map_def)
  ultimately show "foreign s' a" unfolding foreign_def s'(1) by blast
qed

text \<open>What closing leaves: the state without the reference.\<close>

definition closed :: "nat \<Rightarrow> nat \<Rightarrow> ('s, 'z) vfs_scheme \<Rightarrow> (nat \<rightharpoonup> nat) \<Rightarrow> ('s, 'z) vfs_scheme \<Rightarrow> (nat \<rightharpoonup> nat) \<Rightarrow> bool" where
  "closed t i s B s' B' \<longleftrightarrow> tasks s' = tasks s \<and> this_task s' = this_task s \<and> fdblock s' = fdblock s \<and>
     fdtable s' = (fdtable s)(t := (fdtable s t)[i := 0]) \<and> files s' = dropped (fdtable s t ! i) (files s) \<and>
     (\<forall>a. foreign s a \<longrightarrow> B' a = B a \<and> foreign s' a)"

lemma do_close_ok:
  assumes w: "world osz s B k" and t: "t \<in> set (tasks s)" and fd: "0 \<le> fd" "fd \<le> 128" and f0: "fdtable s t ! nat fd \<noteq> 0"
  shows "\<exists>s' B'. do_close free D fd t s = Some (Inr 0, s') \<and> world osz s' B' k \<and> closed t (nat fd) s B s' B'"
proof -
  note ok = worldD(1)[OF w]
  let ?f = "fdtable s t ! nat fd"
  have len: "nat fd < length (fdtable s t)" using fd_okD(2)[OF ok t] fd by simp
  obtain x where x: "files s ?f = Some x" "ocount x = int (refs s ?f)" "0 < refs s ?f" by (rule fd_ok_entry[OF ok t len refl f0])
  have c0: "0 < ocount x" using x(2,3) by simp
  obtain c s1 R where c: "op_close (D (ofops x)) = Some c" "c fd ?f s = Some (Inr 0, s1)" "same_fds s s1" "files s1 = files s"
      "R \<subseteq> dom (dblocks s)" "inv (mheap s1) (B |` (- R)) k" "dblocks s1 = dblocks s |` (- R)" "drv_ok (s1\<lparr> files := dropped ?f (files s) \<rparr>)"
    using close_law[OF worldD(2-4)[OF w] x(1) c0, of fd] by blast
  let ?s3 = "s1\<lparr> files := (files s)(?f \<mapsto> x\<lparr> ocount := ocount x - 1 \<rparr>), fdtable := (fdtable s)(t := (fdtable s t)[nat fd := 0]) \<rparr>"
  have fb: "file_blocks osz (files s) (dblocks s1) (B |` (- R))"
  proof (rule file_blocks_mono[OF worldD(5)[OF w]])
    show "(B |` (- R)) g = B g" if "files s g = Some y" for g y
      using file_blocksD(2)[OF worldD(5)[OF w] that] c(5) by (auto simp: restrict_map_def)
    show "(B |` (- R)) p = B p" if "files s g = Some y" "opath y = Some (p, n)" for g y p n
      using file_blocksD(5)[OF worldD(5)[OF w] that] c(5) by (auto simp: restrict_map_def)
  qed (auto simp: c(7) map_le_def)
  obtain h where h: "drop_file free ?f ?s3 = Some (?s3\<lparr> mheap := h, files := dropped ?f (files s) \<rparr>)" "inv h ((B |` (- R)) |` (- freed ?f x)) k"
    using drop_file_ok[OF fb x(1) c0, of ?s3 k] c(6) by auto
  let ?B = "(B |` (- R)) |` (- freed ?f x)" and ?s4 = "?s3\<lparr> mheap := h, files := dropped ?f (files s) \<rparr>"
  have "do_close free D fd t s = Some (Inr 0, ?s4)"
    using do_get_filp_ok[OF ok t, of fd] fd f0 x(1) c0 c(1-4) h(1) len fd_okD(5)[OF ok t]
    by (simp add: do_close_def upd_file_def set_fd_def same_fds_def)
  moreover have "world osz ?s4 ?B k" unfolding world_def
  proof (intro conjI)
    show "fd_ok ?s4" by (rule fd_ok_delref[OF ok t len refl x(1)]) (use c(3) x(1) in \<open>simp_all add: same_fds_def dropped_def\<close>)
    show "drv_ok ?s4"
      using drv_frame[OF c(8), of "fdblock s1" "fdtable ?s4" "tasks s1" h] by (simp add: files_fdtable files_mheap)
    have db: "dblocks ?s4 = dblocks s1"
      using blocks_frame[of "files ?s4" "fdblock s1" "fdtable ?s4" "tasks s1" h s1] by (simp add: files_fdtable files_mheap)
    show "inv (mheap ?s4) ?B k" using h(2) by simp
    show "dblocks ?s4 \<subseteq>\<^sub>m ?B" unfolding db c(7) by (rule owned_kept[OF w x(1)])
    show "file_blocks osz (files ?s4) (dblocks ?s4) ?B" unfolding db using file_blocks_dropped[OF fb x(1)] by simp
  qed
  moreover have "closed t (nat fd) s B ?s4 ?B"
    unfolding closed_def
  proof (intro conjI allI impI)
    have db: "dblocks ?s4 = dblocks s |` (- R)"
      using blocks_frame[of "files ?s4" "fdblock s1" "fdtable ?s4" "tasks s1" h s1] c(7) by (simp add: files_fdtable files_mheap)
    show "?B a = B a" "foreign ?s4 a" if "foreign s a" for a
      using foreign_kept[OF that x(1) c(5) _ db, of B] by simp_all
  qed (use c(3) in \<open>simp_all add: same_fds_def\<close>)
  ultimately show ?thesis by blast
qed

lemma closedD:
  assumes "closed t i s B s' B'"
  shows "tasks s' = tasks s" "this_task s' = this_task s" "fdblock s' = fdblock s" "fdtable s' = (fdtable s)(t := (fdtable s t)[i := 0])"
    "files s' = dropped (fdtable s t ! i) (files s)" "foreign s a \<Longrightarrow> B' a = B a" "foreign s a \<Longrightarrow> foreign s' a"
  using assms by (simp_all add: closed_def)

lemma dup2_ok:
  assumes w: "world osz s B k" and t: "this_task s \<in> set (tasks s)" and fd: "0 \<le> fd" "fd \<le> 128" "0 \<le> fd2" "fd2 < 128" "fd \<noteq> fd2"
    and f0: "fdtable s (this_task s) ! nat fd \<noteq> 0"
  shows "\<exists>s' B'. dup2 free D fd fd2 s = Some (Inr fd2, s') \<and> world osz s' B' k \<and> tasks s' = tasks s \<and> this_task s' = this_task s \<and>
    fdtable s' = (fdtable s)(this_task s := (fdtable s (this_task s))[nat fd2 := fdtable s (this_task s) ! nat fd])"
proof -
  let ?t = "this_task s" let ?tb = "fdtable s ?t" let ?f = "?tb ! nat fd"
  note ok = worldD(1)[OF w]
  have len: "128 < length ?tb" by (rule fd_okD(2)[OF ok t])
  have g: "get_filp fd s = Some ?f" "get_filp fd2 s = Some (?tb ! nat fd2)"
    using do_get_filp_ok[OF ok t] fd by (simp_all add: get_filp_def)
  obtain s1 B1 where s1: "(if ?tb ! nat fd2 \<noteq> 0 then do { (r, s') \<leftarrow> vfs_close free D fd2 s; Some s' } else Some s) = Some s1"
      "world osz s1 B1 k" "tasks s1 = tasks s" "this_task s1 = ?t" "fdtable s1 = (fdtable s)(?t := ?tb[nat fd2 := 0])"
  proof (cases "?tb ! nat fd2 = 0")
    case True
    then show ?thesis using that[of s B] w by (simp add: list_update_id[of ?tb "nat fd2", unfolded True] fun_upd_idem)
  next
    case False
    obtain s1 B1 where c: "do_close free D fd2 ?t s = Some (Inr 0, s1)" "world osz s1 B1 k" "closed ?t (nat fd2) s B s1 B1"
      using do_close_ok[OF w t, of fd2] fd False by auto
    then show ?thesis using False closedD[OF c(3)] by (intro that[of s1 B1]) (simp_all add: vfs_close_def)
  qed
  have e: "fdtable s1 ?t ! nat fd = ?f" "fdtable s1 ?t ! nat fd2 = 0" "nat fd2 < length (fdtable s1 ?t)" "nat fd < length (fdtable s1 ?t)"
    using s1(5) fd len by auto
  obtain x where x: "files s1 ?f = Some x"
    by (rule fd_ok_entry[OF worldD(1)[OF s1(2)], of ?t "nat fd" ?f]) (use t s1(3) e f0 in auto)
  let ?s = "s1\<lparr> fdtable := (fdtable s1)(?t := (fdtable s1 ?t)[nat fd2 := ?f]), files := (files s1)(?f \<mapsto> x\<lparr> ocount := ocount x + 1 \<rparr>) \<rparr>"
  have "dup2 free D fd fd2 s = Some (Inr fd2, ?s)"
    using g fd f0 s1(1,4) e x by (simp add: dup2_def set_fd_def upd_file_def)
  moreover have "world osz ?s B1 k"
    by (rule world_addref[OF s1(2) _ e(3) e(2) x]) (use t s1(3) in simp)
  moreover have "fdtable ?s = (fdtable s)(?t := ?tb[nat fd2 := ?f])" using s1(5) by simp
  ultimately show ?thesis using s1(3,4) by (intro exI[of _ ?s] exI[of _ B1]) simp
qed

text \<open>The loop of \<open>destroy_task\<close>.\<close>

lemma destroy_loop_ok:
  assumes "world osz s B k" "t \<in> set (tasks s)" "n \<le> 128"
  shows "\<exists>s' B'. foreach (destroy_fd free D t) [0..<n] s = Some s' \<and> world osz s' B' k \<and> tasks s' = tasks s \<and> this_task s' = this_task s \<and>
    fdblock s' = fdblock s \<and> fdtable s' = (fdtable s)(t := replicate n 0 @ drop n (fdtable s t)) \<and> (\<forall>a. foreign s a \<longrightarrow> B' a = B a \<and> foreign s' a)"
  using assms(3)
proof (induction n)
  case 0
  then show ?case using assms by auto
next
  case (Suc n)
  from Suc.IH[OF Suc_leD[OF Suc.prems]] obtain s1 B1 where s1: "foreach (destroy_fd free D t) [0..<n] s = Some s1" "world osz s1 B1 k" "tasks s1 = tasks s" "this_task s1 = this_task s"
      "fdblock s1 = fdblock s" "fdtable s1 = (fdtable s)(t := replicate n 0 @ drop n (fdtable s t))" "\<forall>a. foreign s a \<longrightarrow> B1 a = B a \<and> foreign s1 a"
    by blast
  have len: "n < length (fdtable s t)" "length (fdtable s1 t) = length (fdtable s t)"
    using fd_okD(2)[OF worldD(1)[OF assms(1)] assms(2)] Suc.prems s1(6) by auto
  have tb: "(fdtable s1 t)[n := 0] = replicate (Suc n) 0 @ drop (Suc n) (fdtable s t)"
    using len s1(6) by (simp add: list_update_append Cons_nth_drop_Suc[symmetric] replicate_append_same[symmetric])
  show ?case
  proof (cases "fdtable s1 t ! n = 0")
    case True
    then have "destroy_fd free D t n s1 = Some s1" using len by (simp add: destroy_fd_def)
    moreover have "(fdtable s1 t)[n := 0] = fdtable s1 t" using True by (metis list_update_id)
    ultimately show ?thesis using s1 tb by (intro exI[of _ s1] exI[of _ B1]) (simp add: foreach_append)
  next
    case False
    obtain s2 B2 where c: "do_close free D (int n) t s1 = Some (Inr 0, s2)" "world osz s2 B2 k" "closed t n s1 B1 s2 B2"
      using do_close_ok[OF s1(2), of t "int n"] s1(3) assms(2) Suc.prems False by auto
    note cd = closedD[OF c(3)]
    have "destroy_fd free D t n s1 = Some s2" using False len c(1) cd(4) by (simp add: destroy_fd_def)
    then show ?thesis using s1 c(2) cd tb by (intro exI[of _ s2] exI[of _ B2]) (simp add: foreach_append)
  qed
qed

lemma refs_remove:
  assumes "distinct (tasks s)" "t \<in> set (tasks s)" "set (fdtable s t) \<subseteq> {0}" "tasks s' = remove1 t (tasks s)" "fdtable s' = (fdtable s)(t := tb)" "g \<noteq> 0"
  shows "refs s' g = refs s g"
proof -
  let ?c = "\<lambda>u. count_list (fdtable s u) g"
  have "?c t = 0" using assms(3,6) by (auto simp: count_list_0_iff)
  moreover have "sum_list (map ?c (tasks s)) = ?c t + sum_list (map ?c (remove1 t (tasks s)))"
    by (rule sum_list_map_remove1[OF assms(2)])
  moreover have "map (\<lambda>u. count_list (fdtable s' u) g) (remove1 t (tasks s)) = map ?c (remove1 t (tasks s))"
    using assms(1,5) by auto
  ultimately show ?thesis unfolding refs_def assms(4) by (metis add_0)
qed

lemma destroy_fdtable_ok:
  assumes w: "world osz s B k" and t: "t \<in> set (tasks s)" and tb: "set (drop 128 (fdtable s t)) \<subseteq> {0}"
    and b: "B (fdblock s t) = Some n" "foreign s (fdblock s t)"
  shows "\<exists>s' B'. destroy_fdtable free D t s = Some s' \<and> world osz s' B' k \<and> tasks s' = remove1 t (tasks s) \<and>
    (\<forall>u. u \<noteq> t \<longrightarrow> fdtable s' u = fdtable s u)"
proof -
  obtain s1 B1 where s1: "foreach (destroy_fd free D t) [0..<128] s = Some s1" "world osz s1 B1 k" "tasks s1 = tasks s"
      "fdblock s1 = fdblock s" "fdtable s1 = (fdtable s)(t := replicate 128 0 @ drop 128 (fdtable s t))" "\<forall>a. foreign s a \<longrightarrow> B1 a = B a \<and> foreign s1 a"
    using destroy_loop_ok[OF w t, of 128] by blast
  have B1: "B1 (fdblock s t) = Some n" "foreign s1 (fdblock s t)" using s1(6) b by simp_all
  obtain h where h: "free (fdblock s t) (mheap s1) = Some h" "inv h (B1(fdblock s t := None)) k"
    using free_law[OF worldD(3)[OF s1(2)] B1(1)] by blast
  let ?s = "s1\<lparr> mheap := h, tasks := remove1 t (tasks s1), fdtable := (fdtable s1)(t := []), fdblock := (fdblock s1)(t := 0) \<rparr>"
  note ok = worldD(1)[OF s1(2)]
  have "set (fdtable s1 t) \<subseteq> {0}" using tb by (simp add: s1(5) set_replicate_conv_if)
  then have refs: "refs ?s g = refs s1 g" if "g \<noteq> 0" for g
    using refs_remove[of s1 t ?s "[]" g] that fd_okD(1)[OF ok] t s1(3) by simp
  have "fd_ok ?s"
  proof -
    have "ocount x = int (refs ?s f)" if f: "files s1 f = Some x" for f x
      using fd_okD(4)[OF ok f] refs[OF fd_ok_nonzero[OF ok f]] by simp
    moreover have "files s1 f = None \<longleftrightarrow> refs ?s f = 0" if "f \<noteq> 0" for f using fd_okD(6)[OF ok that] refs[OF that] by simp
    moreover have "distinct (remove1 t (tasks s1))" "0 \<notin> set (remove1 t (tasks s1))" "files s1 0 = None"
      "\<forall>u \<in> set (remove1 t (tasks s1)). 128 < length (((fdtable s1)(t := [])) u)"
      using ok by (auto simp: fd_ok_def)
    ultimately show ?thesis unfolding fd_ok_def by simp
  qed
  moreover have "drv_ok ?s" by (rule drv_frame[OF worldD(2)[OF s1(2)]])
  moreover have db: "dblocks ?s = dblocks s1"
    using blocks_frame[of "files s1" "fdblock ?s" "fdtable ?s" "tasks ?s" h s1] by simp
  moreover have "dblocks s1 \<subseteq>\<^sub>m B1(fdblock s t := None)"
    using worldD(4)[OF s1(2)] B1(2) by (auto simp: map_le_def foreign_def)
  moreover have "file_blocks osz (files s1) (dblocks s1) (B1(fdblock s t := None))"
    by (rule file_blocks_mono[OF worldD(5)[OF s1(2)]]) (use B1(2) in \<open>auto simp: foreign_def\<close>)
  ultimately have "world osz ?s (B1(fdblock s t := None)) k" using h(2) unfolding world_def by simp
  moreover have "destroy_fdtable free D t s = Some ?s" using s1(1,4) h(1) by (simp add: destroy_fdtable_def)
  ultimately show ?thesis using s1(3,5) by (intro exI[of _ ?s] exI[of _ "B1(fdblock s t := None)"]) simp
qed

text \<open>The loop of \<open>fork\<close> counts the entries it visits.\<close>

definition bump :: "nat list \<Rightarrow> (nat \<rightharpoonup> open_file) \<Rightarrow> (nat \<rightharpoonup> open_file)" where
  "bump fs m = (\<lambda>f. map_option (\<lambda>x. x\<lparr> ocount := ocount x + int (count_list fs f) \<rparr>) (m f))"

lemma fork_loop_ok:
  assumes "n \<le> length tb" "\<forall>f \<in> set (take n tb). f \<noteq> 0 \<longrightarrow> (\<exists>x. files s f = Some x \<and> 0 < ocount x)" "files s 0 = None" "drv_ok s"
  shows "foreach (fork_fd tb) [0..<n] s = Some (s\<lparr> files := bump (take n tb) (files s) \<rparr>) \<and> drv_ok (s\<lparr> files := bump (take n tb) (files s) \<rparr>)"
  using assms(1,2)
proof (induction n)
  case 0
  have "bump [] (files s) = files s" by (auto simp: bump_def fun_eq_iff option.map_ident)
  then show ?case using assms(4) by simp
next
  case (Suc n)
  let ?s = "s\<lparr> files := bump (take n tb) (files s) \<rparr>"
  have IH: "foreach (fork_fd tb) [0..<n] s = Some ?s" "drv_ok ?s"
    using Suc by (auto simp: take_Suc_conv_app_nth)
  have tk: "take (Suc n) tb = take n tb @ [tb ! n]" using Suc.prems(1) by (simp add: take_Suc_conv_app_nth)
  show ?case
  proof (cases "tb ! n = 0")
    case True
    then have "bump (take (Suc n) tb) (files s) = bump (take n tb) (files s)"
      unfolding bump_def tk by (auto simp: fun_eq_iff assms(3))
    moreover have "fork_fd tb n ?s = Some ?s" using True Suc.prems(1) by (simp add: fork_fd_def)
    ultimately show ?thesis using IH by (simp add: foreach_append)
  next
    case False
    then obtain x where x: "files s (tb ! n) = Some x" "0 < ocount x" using Suc.prems(2) by (auto simp: tk)
    let ?x = "x\<lparr> ocount := ocount x + int (count_list (take n tb) (tb ! n)) \<rparr>"
    have fx: "files ?s (tb ! n) = Some ?x" using x(1) by (simp add: bump_def)
    have b: "bump (take (Suc n) tb) (files s) = (files ?s)(tb ! n \<mapsto> ?x\<lparr> ocount := ocount ?x + 1 \<rparr>)"
      unfolding bump_def tk using x(1) by (auto simp: fun_eq_iff)
    have "fork_fd tb n ?s = Some (?s\<lparr> files := bump (take (Suc n) tb) (files s) \<rparr>)"
      unfolding b using False Suc.prems(1) x(2) fx by (simp add: fork_fd_def upd_file_def)
    moreover have "drv_ok (?s\<lparr> files := bump (take (Suc n) tb) (files s) \<rparr>)" unfolding b by (rule addref_law[OF IH(2) fx])
    ultimately show ?thesis using IH(1) by (simp add: foreach_append)
  qed
qed

definition forked :: "nat \<Rightarrow> nat \<Rightarrow> 's \<Rightarrow> ('s, 'z) vfs_scheme \<Rightarrow> ('s, 'z) vfs_scheme" where
  "forked child b h s = s\<lparr> mheap := h, tasks := child # tasks s, fdtable := (fdtable s)(child := fdtable s (this_task s)),
     fdblock := (fdblock s)(child := b), files := bump (take 128 (fdtable s (this_task s))) (files s) \<rparr>"

lemma fork_fdtable_run:
  assumes w: "world osz s B k" and t: "this_task s \<in> set (tasks s)" and k: "0 < osz" "osz * 128 + 64 \<le> k"
  obtains b h where "fork_fdtable malloc osz child s = Some (forked child b h s)" "drv_ok (forked child b h s)" "B b = None"
    "inv h (B(b \<mapsto> osz * 128)) (k - (osz * 128 + 64))"
proof -
  let ?tb = "fdtable s (this_task s)"
  note ok = worldD(1)[OF w]
  have len: "128 < length ?tb" by (rule fd_okD(2)[OF ok t])
  obtain b h where h: "malloc (osz * 128) (mheap s) = Some (b, h)" "B b = None" "inv h (B(b \<mapsto> osz * 128)) (k - (osz * 128 + 64))"
    using malloc_law[OF worldD(3)[OF w], of "osz * 128"] k by auto
  let ?s = "s\<lparr> mheap := h, tasks := child # tasks s, fdtable := (fdtable s)(child := ?tb), fdblock := (fdblock s)(child := b) \<rparr>"
  have "\<exists>x. files s f = Some x \<and> 0 < ocount x" if f: "f \<in> set ?tb" "f \<noteq> 0" for f
  proof -
    obtain i where i: "i < length ?tb" "?tb ! i = f" using f(1) by (auto simp: in_set_conv_nth)
    obtain x where "files s f = Some x" "ocount x = int (refs s f)" "0 < refs s f" by (rule fd_ok_entry[OF ok t i f(2)])
    then show ?thesis by simp
  qed
  then have "\<forall>f \<in> set (take 128 ?tb). f \<noteq> 0 \<longrightarrow> (\<exists>x. files s f = Some x \<and> 0 < ocount x)" by (meson in_set_takeD)
  moreover have "drv_ok ?s" by (rule drv_frame[OF worldD(2)[OF w]])
  ultimately have "foreach (fork_fd ?tb) [0..<128] ?s = Some (forked child b h s)" "drv_ok (forked child b h s)"
    using fork_loop_ok[of 128 ?tb ?s] len fd_okD(3)[OF ok] unfolding forked_def by (simp_all del: upt_rec_numeral)
  then show thesis using h by (intro that) (simp_all add: fork_fdtable_def Let_def del: upt_rec_numeral)
qed

lemma refs_forked:
  assumes "child \<notin> set (tasks s)"
  shows "refs (forked child b h s) g = refs s g + count_list (fdtable s (this_task s)) g"
proof -
  have "map (\<lambda>t. count_list (((fdtable s)(child := fdtable s (this_task s))) t) g) (tasks s) = map (\<lambda>t. count_list (fdtable s t) g) (tasks s)"
    using assms by auto
  from arg_cong[OF this, of sum_list] show ?thesis unfolding refs_def forked_def by simp
qed

lemma bump_eq: "bump fs m f = Some x \<longleftrightarrow> (\<exists>y. m f = Some y \<and> x = y\<lparr> ocount := ocount y + int (count_list fs f) \<rparr>)"
  by (auto simp: bump_def)

lemma fork_fdtable_ok:
  assumes w: "world osz s B k" and t: "this_task s \<in> set (tasks s)" and tb: "set (drop 128 (fdtable s (this_task s))) \<subseteq> {0}"
    and child: "child \<noteq> 0" "child \<notin> set (tasks s)" and k: "0 < osz" "osz * 128 + 64 \<le> k"
  shows "\<exists>s' B'. fork_fdtable malloc osz child s = Some s' \<and> world osz s' B' (k - (osz * 128 + 64)) \<and> tasks s' = child # tasks s \<and>
    fdtable s' = (fdtable s)(child := fdtable s (this_task s)) \<and> B' (fdblock s' child) = Some (osz * 128) \<and> foreign s' (fdblock s' child)"
proof -
  let ?tb = "fdtable s (this_task s)"
  note ok = worldD(1)[OF w]
  have len: "128 < length ?tb" by (rule fd_okD(2)[OF ok t])
  obtain b h where h: "fork_fdtable malloc osz child s = Some (forked child b h s)" "drv_ok (forked child b h s)" "B b = None"
      "inv h (B(b \<mapsto> osz * 128)) (k - (osz * 128 + 64))" by (rule fork_fdtable_run[OF w t k])
  let ?s = "forked child b h s"
  have fs: "files ?s = bump (take 128 ?tb) (files s)" "tasks ?s = child # tasks s" "fdtable ?s = (fdtable s)(child := ?tb)" by (simp_all add: forked_def)
  have cnt: "count_list (take 128 ?tb) g = count_list ?tb g" if "g \<noteq> 0" for g
  proof -
    have "count_list (drop 128 ?tb) g = 0" using tb that by (auto simp: count_list_0_iff)
    then show ?thesis using count_list_append[of "take 128 ?tb" "drop 128 ?tb" g] by (simp del: count_list_append)
  qed
  have "fd_ok ?s"
  proof -
    have c: "ocount x = int (refs ?s f)" if f: "files ?s f = Some x" for f x
    proof -
      obtain y where y: "files s f = Some y" "x = y\<lparr> ocount := ocount y + int (count_list (take 128 ?tb) f) \<rparr>" using f by (auto simp: fs bump_eq)
      then show ?thesis using fd_okD(4)[OF ok y(1)] cnt[OF fd_ok_nonzero[OF ok y(1)]] refs_forked[OF child(2), of b h f] by simp
    qed
    have n: "files ?s f = None \<longleftrightarrow> refs ?s f = 0" if f: "f \<noteq> 0" for f
    proof -
      have "count_list ?tb f = 0" if "refs s f = 0" using refs_pos[OF t, of f] that by (auto simp: count_list_0_iff)
      then show ?thesis unfolding refs_forked[OF child(2)] using fd_okD(6)[OF ok f] by (auto simp: bump_def fs)
    qed
    have "files ?s 0 = None" using fd_okD(3)[OF ok] by (simp add: bump_def fs)
    moreover have "128 < length (fdtable ?s u)" if "u \<in> set (tasks ?s)" for u
      using that len fd_okD(2)[OF ok, of u] by (cases "u = child") (simp_all add: fs)
    moreover have "distinct (tasks ?s)" "0 \<notin> set (tasks ?s)" using child fd_okD(1,5)[OF ok] by (auto simp: fs)
    ultimately show ?thesis unfolding fd_ok_def using c n by simp
  qed
  moreover have db: "dblocks ?s = dblocks s" unfolding forked_def by (rule blocks_frame)
  moreover have "dblocks s \<subseteq>\<^sub>m B(b \<mapsto> osz * 128)" using worldD(4)[OF w] h(3) by (simp add: map_le_def) (metis domIff)
  moreover have "file_blocks osz (files ?s) (dblocks s) (B(b \<mapsto> osz * 128))"
  proof (rule file_blocks_mono[OF worldD(5)[OF w]])
    show e: "\<exists>x. files s f = Some x \<and> opath x = opath x'" if "files ?s f = Some x'" for f x'
      using that by (auto simp: fs bump_eq)
    note fb = file_blocksD[OF worldD(5)[OF w]]
    show "(B(b \<mapsto> osz * 128)) f = B f" if "files ?s f = Some x'" for f x'
      using e[OF that] fb(1)[of f] h(3) by auto
    show "(B(b \<mapsto> osz * 128)) p = B p" if "files ?s f = Some x'" "opath x' = Some (p, n)" for f x' p n
      using e[OF that(1)] that(2) fb(3)[of f _ p n] h(3) by auto
  qed (simp add: map_le_def)
  ultimately have "world osz ?s (B(b \<mapsto> osz * 128)) (k - (osz * 128 + 64))" using h(2,4) unfolding world_def by (simp add: forked_def)
  moreover have "foreign ?s b"
  proof -
    have "dblocks s b = None" using worldD(4)[OF w] h(3) by (metis domIff map_le_def)
    moreover have "files ?s b = None" using file_blocksD(1)[OF worldD(5)[OF w], of b] h(3) by (cases "files s b") (auto simp: fs bump_def)
    moreover have "opath x \<noteq> Some (b, n)" if "files ?s f = Some x" for f x n
      using that file_blocksD(3)[OF worldD(5)[OF w], of f _ b n] h(3) by (auto simp: fs bump_eq)
    ultimately show ?thesis unfolding foreign_def db by blast
  qed
  moreover have "fdblock ?s child = b" by (simp add: forked_def)
  ultimately show ?thesis using h(1) fs(2,3) by (intro exI[of _ ?s] exI[of _ "B(b \<mapsto> osz * 128)"]) simp
qed

text \<open>The child's exit undoes what the fork did to the counts.\<close>

lemma fork_destroy:
  assumes w: "world osz s B k" and t: "this_task s \<in> set (tasks s)" and tb: "set (drop 128 (fdtable s (this_task s))) \<subseteq> {0}"
    and child: "child \<noteq> 0" "child \<notin> set (tasks s)" and k: "0 < osz" "osz * 128 + 64 \<le> k"
  shows "\<exists>s1 s2. fork_fdtable malloc osz child s = Some s1 \<and> destroy_fdtable free D child s1 = Some s2 \<and> tasks s2 = tasks s \<and>
    (\<forall>u \<in> set (tasks s). fdtable s2 u = fdtable s u) \<and> (\<forall>f. map_option ocount (files s2 f) = map_option ocount (files s f))"
proof -
  obtain s1 B1 where 1: "fork_fdtable malloc osz child s = Some s1" "world osz s1 B1 (k - (osz * 128 + 64))" "tasks s1 = child # tasks s"
      "fdtable s1 = (fdtable s)(child := fdtable s (this_task s))" "B1 (fdblock s1 child) = Some (osz * 128)" "foreign s1 (fdblock s1 child)"
    using fork_fdtable_ok[OF w t tb child k] by blast
  obtain s2 B2 where 2: "destroy_fdtable free D child s1 = Some s2" "world osz s2 B2 (k - (osz * 128 + 64))" "tasks s2 = remove1 child (tasks s1)"
      "\<forall>u. u \<noteq> child \<longrightarrow> fdtable s2 u = fdtable s1 u"
    using destroy_fdtable_ok[OF 1(2) _ _ 1(5,6)] 1(3,4) tb by auto
  have ts: "tasks s2 = tasks s" using 2(3) 1(3) by simp
  have tbs: "fdtable s2 u = fdtable s u" if "u \<in> set (tasks s)" for u using that child(2) 2(4) 1(4) by auto
  then have "refs s2 f = refs s f" for f unfolding refs_def ts by (simp cong: map_cong)
  then have "map_option ocount (files s2 f) = map_option ocount (files s f)" for f
    unfolding fd_ok_counts[OF worldD(1)[OF w]] fd_ok_counts[OF worldD(1)[OF 2(2)]] by simp
  then show ?thesis using 1(1) 2(1) ts tbs by blast
qed

text \<open>The entry at index \<open>MAX_OPEN_FILES\<close>, which \<open>new_filp\<close> hands out when all others are taken, is copied but not counted.\<close>

lemma fork_fdtable_misses:
  assumes w: "world osz s B k" and t: "this_task s \<in> set (tasks s)" and f: "fdtable s (this_task s) ! 128 \<noteq> 0"
    and child: "child \<notin> set (tasks s)" and k: "0 < osz" "osz * 128 + 64 \<le> k"
  shows "\<exists>s'. fork_fdtable malloc osz child s = Some s' \<and> \<not> fd_ok s'"
proof -
  let ?tb = "fdtable s (this_task s)" let ?f = "?tb ! 128"
  note ok = worldD(1)[OF w]
  have len: "128 < length ?tb" by (rule fd_okD(2)[OF ok t])
  obtain b h where h: "fork_fdtable malloc osz child s = Some (forked child b h s)" by (rule fork_fdtable_run[OF w t k])
  obtain x where x: "files s ?f = Some x" "ocount x = int (refs s ?f)" by (rule fd_ok_entry[OF ok t len refl f])
  have "count_list (take 128 ?tb) ?f < count_list ?tb ?f"
  proof -
    have "?f \<in> set (drop 128 ?tb)" using len by (metis Cons_nth_drop_Suc list.set_intros(1))
    then have "0 < count_list (drop 128 ?tb) ?f" by (metis count_list_0_iff gr0I)
    then show ?thesis using count_list_append[of "take 128 ?tb" "drop 128 ?tb" ?f] by (simp del: count_list_append)
  qed
  moreover have "files (forked child b h s) ?f = Some (x\<lparr> ocount := ocount x + int (count_list (take 128 ?tb) ?f) \<rparr>)"
    using x(1) by (simp add: forked_def bump_def)
  ultimately have "\<not> fd_ok (forked child b h s)"
    using fd_okD(4)[of "forked child b h s" ?f] refs_forked[OF child, of b h ?f] x(2) by auto
  then show ?thesis using h by blast
qed

text \<open>No call on descriptors gets stuck, and each leaves the references exact.\<close>

lemma do_close_total:
  assumes w: "world osz s B k" and t: "t \<in> set (tasks s)"
  shows "\<exists>r s' B'. do_close free D fd t s = Some (r, s') \<and> world osz s' B' k \<and> tasks s' = tasks s \<and> this_task s' = this_task s"
proof (cases "0 \<le> fd \<and> fd \<le> 128 \<and> fdtable s t ! nat fd \<noteq> 0")
  case True
  then show ?thesis using do_close_ok[OF w t, of fd] closedD(1,2) by blast
next
  case False
  then have "do_get_filp fd t s = Some 0" using do_get_filp_ok[OF worldD(1)[OF w] t, of fd] by auto
  then have "do_close free D fd t s = Some (Inl EBADF, s)" using fd_okD(5)[OF worldD(1)[OF w] t] by (simp add: do_close_def)
  then show ?thesis using w by blast
qed

lemma dup2_total:
  assumes w: "world osz s B k" and t: "this_task s \<in> set (tasks s)" and ne: "fd \<noteq> fd2"
  shows "\<exists>r s' B'. dup2 free D fd fd2 s = Some (r, s') \<and> world osz s' B' k \<and> tasks s' = tasks s \<and> this_task s' = this_task s"
proof (cases "0 \<le> fd \<and> fd \<le> 128 \<and> 0 \<le> fd2 \<and> fd2 < 128 \<and> fdtable s (this_task s) ! nat fd \<noteq> 0")
  case True
  then show ?thesis using dup2_ok[OF w t, of fd fd2] ne by blast
next
  case False
  then have "dup2 free D fd fd2 s = Some (Inl EBADF, s)"
    using do_get_filp_ok[OF worldD(1)[OF w] t, of fd] by (auto simp: dup2_def get_filp_def)
  then show ?thesis using w by blast
qed

lemma fd_call_ok:
  assumes w: "world osz s B k" and t: "this_task s \<in> set (tasks s)" and c: "\<not> self_dup2 c"
  shows "\<exists>r s' B'. fd_call free D c s = Some (r, s') \<and> world osz s' B' k \<and> tasks s' = tasks s \<and> this_task s' = this_task s"
proof (cases c)
  case (Dup fd)
  obtain r s' where d: "dup fd s = Some (r, s')" "world osz s' B k" using dup_ok[OF w t, of fd] by blast
  then have "tasks s' = tasks s" "this_task s' = this_task s"
    by (auto simp: dup_def set_fd_def upd_file_def bind_eq_Some_conv split: if_splits option.splits)
  then show ?thesis using Dup d by auto
next
  case (Dup2 fd fd2)
  then show ?thesis using dup2_total[OF w t, of fd fd2] c by simp
next
  case (Close fd)
  then show ?thesis using do_close_total[OF w t, of fd] by (simp add: vfs_close_def)
qed

lemma fd_calls_ok:
  assumes "world osz s B k" "this_task s \<in> set (tasks s)" "\<forall>c \<in> set cs. \<not> self_dup2 c"
  shows "\<exists>rs s' B'. fd_calls free D cs s = Some (rs, s') \<and> length rs = length cs \<and> world osz s' B' k"
  using assms
proof (induction cs arbitrary: s B)
  case (Cons c cs)
  obtain r s1 B1 where 1: "fd_call free D c s = Some (r, s1)" "world osz s1 B1 k" "tasks s1 = tasks s" "this_task s1 = this_task s"
    using fd_call_ok[OF Cons.prems(1,2), of c] Cons.prems(3) by auto
  obtain rs s2 B2 where "fd_calls free D cs s1 = Some (rs, s2)" "length rs = length cs" "world osz s2 B2 k"
    using Cons.IH[OF 1(2)] 1(3,4) Cons.prems(2,3) by auto
  then show ?case using 1(1) by (intro exI[of _ "r # rs"] exI[of _ s2] exI[of _ B2]) simp
qed auto

text \<open>\<open>dup2\<close> of a descriptor to itself closes the file first: when it was the only reference, the file that the new entry points to is gone.\<close>

lemma dup2_self_lost:
  assumes w: "world osz s B k" and t: "this_task s \<in> set (tasks s)" and fd: "0 \<le> fd" "fd < 128"
    and f: "fdtable s (this_task s) ! nat fd = f" "f \<noteq> 0" "refs s f = 1"
  shows "dup2 free D fd fd s = None"
proof -
  note ok = worldD(1)[OF w]
  obtain s1 B1 where c: "do_close free D fd (this_task s) s = Some (Inr 0, s1)" "closed (this_task s) (nat fd) s B s1 B1"
    using do_close_ok[OF w t, of fd] fd f by auto
  have len: "nat fd < length (fdtable s (this_task s))" using fd_okD(2)[OF ok t] fd by simp
  obtain x where x: "files s f = Some x" "ocount x = int (refs s f)" by (rule fd_ok_entry[OF ok t len f(1,2)])
  then have "files s1 f = None" using closedD(5)[OF c(2)] f by (simp add: dropped_def)
  moreover have "get_filp fd s = Some f" using do_get_filp_ok[OF ok t, of fd] fd f by (simp add: get_filp_def)
  ultimately show ?thesis using fd f(2) c(1) closedD(2,4)[OF c(2)] len
    by (simp add: dup2_def vfs_close_def set_fd_def upd_file_def)
qed

end

end
