(* ===== verification/Kstdio.thy ===== *)
theory Kstdio
  imports Vfs
begin

text \<open>
  The standard streams: \<open>src/kernel/stdio.c\<close>.  The state of the descriptors is extended by the memory in which the
  buffers of the callers lie.  \<open>getchar\<close> and \<open>putchar\<close>, the keyboard and the screen, are arguments; moving the cursor is
  left out.
\<close>

record 's io_st = "'s vfs" +
  umem :: mem

abbreviation (input) S_IFCHR :: nat where "S_IFCHR \<equiv> 8192"
abbreviation (input) BACKSPACE :: "8 word" where "BACKSPACE \<equiv> 8"
abbreviation (input) NEWLINE :: "8 word" where "NEWLINE \<equiv> 10"
abbreviation (input) RETURN :: "8 word" where "RETURN \<equiv> 13"

subsection \<open>Reading a line\<close>

text \<open>\<open>c\<close> is a signed character; the end of file that Ctrl-D sends is -1.\<close>

definition printable :: "8 word \<Rightarrow> bool" where
  "printable c \<longleftrightarrow> sint c \<ge> 32"

partial_function (option) stdio_read_loop :: "(('s, 'z) io_st_scheme \<Rightarrow> (8 word \<times> ('s, 'z) io_st_scheme) option) \<Rightarrow>
    (8 word \<Rightarrow> ('s, 'z) io_st_scheme \<Rightarrow> ('s, 'z) io_st_scheme) \<Rightarrow> nat \<Rightarrow> nat \<Rightarrow> nat \<Rightarrow> int \<Rightarrow> ('s, 'z) io_st_scheme \<Rightarrow> (res \<times> ('s, 'z) io_st_scheme) option" where
  "stdio_read_loop getchar putchar buf len p ret s =
    (if int p < int buf + int len - 1 then do {
       (c, s1) \<leftarrow> getchar s;
       if \<not> printable c \<and> c \<noteq> NEWLINE \<and> c \<noteq> BACKSPACE \<and> c = 255 then
         (if ret > 0 then stdio_read_loop getchar putchar buf len p ret s1
          else Some (Inr 0, putchar 68 (putchar 94 s1)))
       else do {
         let (s2, p2, ret2) =
           (if printable c \<or> c = NEWLINE then (putchar c s1, p, ret)
            else if c = BACKSPACE \<and> p > buf then (putchar c (putchar 32 (putchar c s1)), p - 1, ret - 1)
            else (s1, p, ret));
         if c = RETURN \<or> c = NEWLINE then Some (Inr (ret2 + 1), s2\<lparr> umem := (umem s2)(p2 := c, p2 + 1 := 0) \<rparr>)
         else if c \<noteq> BACKSPACE then stdio_read_loop getchar putchar buf len (p2 + 1) (ret2 + 1) (s2\<lparr> umem := (umem s2)(p2 := c) \<rparr>)
         else stdio_read_loop getchar putchar buf len p2 ret2 s2 } }
     else do {
       assertK (p < buf + len);
       Some (Inr ret, s\<lparr> umem := (umem s)(p := 0) \<rparr>) })"

definition stdio_read :: "(('s, 'z) io_st_scheme \<Rightarrow> (8 word \<times> ('s, 'z) io_st_scheme) option) \<Rightarrow>
    (8 word \<Rightarrow> ('s, 'z) io_st_scheme \<Rightarrow> ('s, 'z) io_st_scheme) \<Rightarrow> int \<Rightarrow> nat \<Rightarrow> nat \<Rightarrow> ('s, 'z) io_st_scheme \<Rightarrow> (res \<times> ('s, 'z) io_st_scheme) option" where
  "stdio_read getchar putchar fd buf len s = do {
     f \<leftarrow> get_filp fd s;
     if f = 0 then Some (Inl EBADF, s) else do {
       x \<leftarrow> files s f;
       if oino x \<noteq> 0 then do { assertK (oino x \<le> 2); Some (Inr 0, s) }
       else if fd \<noteq> 0 then Some (Inr 0, s)
       else stdio_read_loop getchar putchar buf len buf 0 s } }"

subsection \<open>Writing\<close>

primrec stdio_write_loop :: "(8 word \<Rightarrow> ('s, 'z) io_st_scheme \<Rightarrow> ('s, 'z) io_st_scheme) \<Rightarrow> nat \<Rightarrow> nat \<Rightarrow> nat \<Rightarrow> ('s, 'z) io_st_scheme \<Rightarrow> nat \<times> ('s, 'z) io_st_scheme" where
  "stdio_write_loop putchar 0 p ret s = (ret, s)"
| "stdio_write_loop putchar (Suc n) p ret s =
    (if umem s p \<noteq> 0 then stdio_write_loop putchar n (p + 1) (ret + 1) (putchar (umem s p) s) else (ret, s))"

definition stdio_write :: "(8 word \<Rightarrow> ('s, 'z) io_st_scheme \<Rightarrow> ('s, 'z) io_st_scheme) \<Rightarrow> int \<Rightarrow> nat \<Rightarrow> nat \<Rightarrow> ('s, 'z) io_st_scheme \<Rightarrow> (res \<times> ('s, 'z) io_st_scheme) option" where
  "stdio_write putchar fd buf len s = do {
     f \<leftarrow> get_filp fd s;
     if f = 0 then Some (Inl EBADF, s) else do {
       x \<leftarrow> files s f;
       if oino x = 0 then Some (Inr 0, s)
       else (let (ret, s') = stdio_write_loop putchar len buf 0 s in Some (Inr (s32 ret), s')) } }"

definition stdio_close :: "int \<Rightarrow> nat \<Rightarrow> ('s, 'z) io_st_scheme \<Rightarrow> (res \<times> ('s, 'z) io_st_scheme) option" where
  "stdio_close fd f s = Some (Inr 0, s)"

definition zero_stat :: stat_t where
  "zero_stat = \<lparr> st_dev = 0, st_ino = 0, st_mode = 0, st_nlink = 0, st_size = 0, st_blksize = 0, st_mtime = 0, st_ctime = 0, st_atime = 0 \<rparr>"

definition stdio_fstat :: "int \<Rightarrow> ('s, 'z) io_st_scheme \<Rightarrow> ((errno + stat_t) \<times> ('s, 'z) io_st_scheme) option" where
  "stdio_fstat fd s = do {
     f \<leftarrow> get_filp fd s;
     if f = 0 then Some (Inl EBADF, s) else do {
       x \<leftarrow> files s f;
       Some (Inr (zero_stat\<lparr> st_dev := 65535, st_ino := oino x, st_mode := 438 + S_IFCHR, st_blksize := 128 \<rparr>), s) } }"

definition stdio_ops :: "(('s, 'z) io_st_scheme \<Rightarrow> (8 word \<times> ('s, 'z) io_st_scheme) option) \<Rightarrow>
    (8 word \<Rightarrow> ('s, 'z) io_st_scheme \<Rightarrow> ('s, 'z) io_st_scheme) \<Rightarrow> ('s, 'z) io_st_scheme open_file_ops" where
  "stdio_ops getchar putchar = no_ops\<lparr> op_read := Some (stdio_read getchar putchar), op_write := Some (stdio_write putchar),
     op_close := Some stdio_close, op_fstat := Some stdio_fstat \<rparr>"

text \<open>The standard streams of a new user mode task, from \<open>create_task\<close>: the empty descriptor table and three open files that differ in their \<open>ino\<close> only.  The table
  has room for as many pointers as fit into its block.\<close>

definition stdio_file :: "nat \<Rightarrow> open_file" where
  "stdio_file ino = zero_file\<lparr> odev := u32 (- 1), ocount := 1, ofops := 1, oino := ino \<rparr>"

definition setup_stdio :: "(nat \<Rightarrow> 's \<Rightarrow> (nat \<times> 's) option) \<Rightarrow> nat \<Rightarrow> nat \<Rightarrow> ('s, 'z) io_st_scheme \<Rightarrow> ('s, 'z) io_st_scheme option" where
  "setup_stdio malloc osz t s = do {
     (b, h) \<leftarrow> malloc (osz * MAX_OPEN_FILES) (mheap s);
     let tb = replicate (osz * MAX_OPEN_FILES div 4) 0;
     (f0, h0) \<leftarrow> malloc osz h;
     tb0 \<leftarrow> wr tb 0 f0;
     (f1, h1) \<leftarrow> malloc osz h0;
     (f2, h2) \<leftarrow> malloc osz h1;
     tb1 \<leftarrow> wr tb0 1 f1;
     tb2 \<leftarrow> wr tb1 2 f2;
     Some (s\<lparr> mheap := h2, tasks := t # tasks s, fdtable := (fdtable s)(t := tb2), fdblock := (fdblock s)(t := b), link_count := (link_count s)(t := 0),
       files := (files s)(f0 \<mapsto> stdio_file 0, f1 \<mapsto> stdio_file 1, f2 \<mapsto> stdio_file 2) \<rparr>) }"

end
