(* ===== verification/Ring.thy ===== *)
theory Ring
  imports Prelude
begin

text \<open>
  Ring buffers: the sequence that the \<open>n\<close> cells from index \<open>r\<close> on hold, when index \<open>N\<close> wraps to 0.  Shared by the pipes
  and the keyboard buffers.
\<close>

definition ring :: "nat \<Rightarrow> (nat \<Rightarrow> 'a) \<Rightarrow> nat \<Rightarrow> nat \<Rightarrow> 'a list" where
  "ring N f r n = map (\<lambda>i. f ((r + i) mod N)) [0..<n]"

lemma ring_length [simp]: "length (ring N f r n) = n"
  by (simp add: ring_def)

lemma ring_nth: "i < n \<Longrightarrow> ring N f r n ! i = f ((r + i) mod N)"
  by (simp add: ring_def)

lemma ring_0 [simp]: "ring N f r 0 = []"
  by (simp add: ring_def)

lemma ring_drop: "drop t (ring N f r n) = ring N f ((r + t) mod N) (n - t)"
proof (rule nth_equalityI)
  fix i assume "i < length (drop t (ring N f r n))"
  moreover have "((r + t) mod N + i) mod N = (r + (t + i)) mod N" by (simp add: mod_add_left_eq add.assoc)
  ultimately show "drop t (ring N f r n) ! i = ring N f ((r + t) mod N) (n - t) ! i" by (simp add: ring_nth)
qed simp

lemma ring_cell: "r + i < N \<Longrightarrow> i < n \<Longrightarrow> ring N f r n ! i = f (r + i)"
  by (simp add: ring_nth)

text \<open>A cell behind the contents is none of the cells of the contents.\<close>

lemma ring_apart:
  assumes "i < n" "n + j < (N :: nat)"
  shows "(r + i) mod N \<noteq> ((r + n) mod N + j) mod N"
proof
  assume "(r + i) mod N = ((r + n) mod N + j) mod N"
  also have "\<dots> = (r + (n + j)) mod N" unfolding mod_add_left_eq by (simp add: add.assoc)
  finally have "(r + (n + j)) mod N = (r + i) mod N" by (rule sym)
  then have "N dvd (r + (n + j)) - (r + i)" using assms(1) by (subst (asm) mod_eq_dvd_iff_nat) simp_all
  then have "N dvd n + j - i" by (simp add: algebra_simps)
  then show False using assms by (auto dest!: dvd_imp_le)
qed

lemma ring_store:
  assumes w: "w = (r + n) mod N" "w + t \<le> N" "n + t \<le> N" and len: "length xs = t"
    and new: "\<And>j. j < t \<Longrightarrow> g (w + j) = xs ! j" and old: "\<And>a. a < w \<or> w + t \<le> a \<Longrightarrow> g a = f a"
  shows "ring N g r (n + t) = ring N f r n @ xs"
proof (rule nth_equalityI)
  fix i assume i: "i < length (ring N g r (n + t))"
  show "ring N g r (n + t) ! i = (ring N f r n @ xs) ! i"
  proof (cases "i < n")
    case True
    have "(r + i) mod N \<noteq> w + j" if "j < t" for j
      using ring_apart[OF True, of j N r] that w by simp
    then have "(r + i) mod N < w \<or> w + t \<le> (r + i) mod N" by (metis add_less_cancel_left le_add_diff_inverse leI)
    then show ?thesis using True i old by (simp add: nth_append ring_nth)
  next
    case False
    define j where "j = i - n"
    have j: "j < t" "i = n + j" using False i by (simp_all add: j_def)
    have "(r + i) mod N = (w + j) mod N" unfolding w(1) j(2) by (simp add: mod_add_left_eq add.assoc)
    then show ?thesis using j new[OF j(1)] w(2) len by (simp add: nth_append ring_nth)
  qed
qed (use len in simp)

end
