(* ===== verification/Pipe.thy ===== *)
theory Pipe
  imports Kstdio Ring Klist
begin

text \<open>
  Pipes: \<open>src/kernel/pipe.c\<close>.  The buffer of a pipe is kept with the pipe, indexed from its start; the positions are
  addresses, as in the code, and the assertions of the code keep them inside the buffer.  What the other
  tasks do while a task sleeps or waits for the mutex are the arguments \<open>sleep\<close> and \<open>yield\<close>, \<open>PIPE_BUF\<close> and the sizes of the
  structures depend on the C library and are arguments too.  \<open>wall_time\<close> is what \<open>kern_time\<close> returns.
\<close>

subsection \<open>Data\<close>

abbreviation (input) PIPE_BUFFER_SIZE :: nat where "PIPE_BUFFER_SIZE \<equiv> 65536"
abbreviation (input) FOPS_STDIO :: nat where "FOPS_STDIO \<equiv> 1"
abbreviation (input) FOPS_PIPE :: nat where "FOPS_PIPE \<equiv> 2"

record pipe =
  pbuffer :: nat
  preader :: nat
  pwriter :: nat
  read_pos :: nat
  write_pos :: nat
  max_pos :: nat
  bytes_avail :: nat
  plock :: nat
  pmtime :: nat
  patime :: nat
  pbytes :: "nat \<Rightarrow> 8 word"

record 's pipe_st = "'s io_st" +
  pipes :: "nat \<rightharpoonup> pipe"
  wall_time :: nat

text \<open>\<open>memcpy\<close> between a pipe's buffer and the caller's memory.\<close>

definition copy_bytes :: "(nat \<Rightarrow> 8 word) \<Rightarrow> nat \<Rightarrow> nat \<Rightarrow> nat \<Rightarrow> (nat \<Rightarrow> 8 word) \<Rightarrow> (nat \<Rightarrow> 8 word)" where
  "copy_bytes src i n j dst = (\<lambda>a. if j \<le> a \<and> a < j + n then src (i + (a - j)) else dst a)"

subsection \<open>Creation\<close>

definition pipe_open :: "(nat \<Rightarrow> 's \<Rightarrow> (nat \<times> 's) option) \<Rightarrow> (nat \<Rightarrow> 's \<Rightarrow> 's option) \<Rightarrow> nat \<Rightarrow> nat \<Rightarrow> nat \<Rightarrow> (nat \<Rightarrow> 8 word) \<Rightarrow> ('s, 'z) pipe_st_scheme \<Rightarrow>
    ((errno + nat \<times> nat) \<times> ('s, 'z) pipe_st_scheme) option" where
  "pipe_open malloc free osz psz PIPE_BUF junk s = do {
     (rd, read_end, s1) \<leftarrow> new_filp malloc osz s;
     if read_end = 0 then Some (Inl ENFILE, s1) else do {
       (wr, write_end, s2) \<leftarrow> new_filp malloc osz s1;
       if write_end = 0 then do { s3 \<leftarrow> destroy_filp free (int rd) s2; Some (Inl ENFILE, s3) } else do {
         s3 \<leftarrow> upd_file read_end (\<lambda>x. x\<lparr> ocount := ocount x + 1 \<rparr>) s2;
         s4 \<leftarrow> upd_file write_end (\<lambda>x. x\<lparr> ocount := ocount x + 1 \<rparr>) s3;
         (p, h) \<leftarrow> malloc psz (mheap s4);
         assertK (PIPE_BUFFER_SIZE > PIPE_BUF);
         (b, h') \<leftarrow> malloc PIPE_BUFFER_SIZE h;
         (l, s5) \<leftarrow> mutex_create malloc (s4\<lparr> mheap := h' \<rparr>);
         let s6 = s5\<lparr> pipes := (pipes s5)(p \<mapsto> \<lparr> pbuffer = b, preader = read_end, pwriter = write_end, read_pos = b, write_pos = b,
           max_pos = add32 b PIPE_BUFFER_SIZE, bytes_avail = 0, plock = l, pmtime = 0, patime = 0, pbytes = junk \<rparr>) \<rparr>;
         s7 \<leftarrow> upd_file read_end (\<lambda>x. x\<lparr> odata := p, odev := DEV_PIPE, ofops := FOPS_PIPE \<rparr>) s6;
         s8 \<leftarrow> upd_file write_end (\<lambda>x. x\<lparr> odata := p, odev := DEV_PIPE, ofops := FOPS_PIPE \<rparr>) s7;
         Some (Inr (rd, wr), s8) } } }"

definition sys_pipe :: "bool \<Rightarrow> (nat \<Rightarrow> 's \<Rightarrow> (nat \<times> 's) option) \<Rightarrow> (nat \<Rightarrow> 's \<Rightarrow> 's option) \<Rightarrow> nat \<Rightarrow> nat \<Rightarrow> nat \<Rightarrow> (nat \<Rightarrow> 8 word) \<Rightarrow> nat \<Rightarrow> ('s, 'z) pipe_st_scheme \<Rightarrow>
    ((errno + nat \<times> nat) \<times> ('s, 'z) pipe_st_scheme) option" where
  "sys_pipe acc malloc free osz psz PIPE_BUF junk fildes s =
    (if fildes = 0 \<or> \<not> acc then Some (Inl EFAULT, s) else pipe_open malloc free osz psz PIPE_BUF junk s)"

subsection \<open>Reading\<close>

partial_function (option) wait_data :: "(('s, 'z) pipe_st_scheme \<Rightarrow> ('s, 'z) pipe_st_scheme) \<Rightarrow> nat \<Rightarrow> ('s, 'z) pipe_st_scheme \<Rightarrow> ('s, 'z) pipe_st_scheme option" where
  "wait_data sleep P s = do { p \<leftarrow> pipes s P; if bytes_avail p = 0 then wait_data sleep P (sleep s) else Some s }"

text \<open>One \<open>memcpy\<close> out of the buffer, with its assertions.\<close>

definition pipe_take :: "nat \<Rightarrow> nat \<Rightarrow> pipe \<Rightarrow> mem \<Rightarrow> (pipe \<times> mem) option" where
  "pipe_take to_read dst p m = do {
     assertK (bytes_avail p \<ge> to_read);
     assertK (add32 (read_pos p) to_read \<le> max_pos p);
     Some (p\<lparr> read_pos := add32 (read_pos p) to_read, bytes_avail := sub32 (bytes_avail p) to_read \<rparr>,
       copy_bytes (pbytes p) (sub32 (read_pos p) (pbuffer p)) to_read dst m) }"

definition wrap_read :: "pipe \<Rightarrow> pipe option" where
  "wrap_read p = (if read_pos p \<ge> max_pos p then do { assertK (read_pos p = max_pos p); Some (p\<lparr> read_pos := pbuffer p \<rparr>) } else Some p)"

definition pipe_get :: "nat \<Rightarrow> nat \<Rightarrow> nat \<Rightarrow> pipe \<Rightarrow> mem \<Rightarrow> (nat \<times> pipe \<times> mem) option" where
  "pipe_get time buf len p m = do {
     assertK (bytes_avail p > 0);
     let n = sub32 (max_pos p) (read_pos p);
     let to_read = min (min len n) (bytes_avail p);
     (p1, m1) \<leftarrow> pipe_take to_read buf p m;
     let p2 = p1\<lparr> patime := time \<rparr>;
     p3 \<leftarrow> wrap_read p2;
     if len > to_read \<and> bytes_avail p3 > 0 then do {
       let to_read2 = min (bytes_avail p3) len;
       (p4, m4) \<leftarrow> pipe_take to_read2 (buf + to_read) p3 m1;
       Some (add32 to_read to_read2, p4, m4) }
     else Some (to_read, p3, m1) }"

definition pipe_read :: "(('s, 'z) pipe_st_scheme \<Rightarrow> ('s, 'z) pipe_st_scheme) \<Rightarrow> (('s, 'z) pipe_st_scheme \<Rightarrow> ('s, 'z) pipe_st_scheme) \<Rightarrow>
    int \<Rightarrow> nat \<Rightarrow> nat \<Rightarrow> ('s, 'z) pipe_st_scheme \<Rightarrow> (res \<times> ('s, 'z) pipe_st_scheme) option" where
  "pipe_read sleep yield fd buf len s = do {
     f \<leftarrow> get_filp fd s;
     if f = 0 then Some (Inl EBADF, s) else do {
       x \<leftarrow> files s f;
       assertK (odev x = DEV_PIPE);
       assertK (odata x \<noteq> 0);
       let P = odata x;
       p \<leftarrow> pipes s P;
       if pwriter p = 0 \<and> bytes_avail p = 0 then Some (Inr 0, s)
       else if f = pwriter p then Some (Inl EBADF, s)
       else do {
         s1 \<leftarrow> wait_data sleep P s;
         p1 \<leftarrow> pipes s1 P;
         s2 \<leftarrow> mutex_lock yield (plock p1) s1;
         p2 \<leftarrow> pipes s2 P;
         (n, p3, m) \<leftarrow> pipe_get (wall_time s2) buf len p2 (umem s2);
         s3 \<leftarrow> mutex_unlock (plock p3) (s2\<lparr> pipes := (pipes s2)(P \<mapsto> p3), umem := m \<rparr>);
         Some (Inr (s32 n), s3) } } }"

subsection \<open>Writing\<close>

text \<open>Whether the read end is gone; the open file of a reader that is still linked must not have a negative count.\<close>

definition no_reader :: "pipe \<Rightarrow> ('s, 'z) pipe_st_scheme \<Rightarrow> bool option" where
  "no_reader p s = (if preader p = 0 then Some True else do {
     x \<leftarrow> files s (preader p);
     if ocount x \<le> 0 then do { assertK (ocount x = 0); Some True } else Some False })"

partial_function (option) wait_room :: "(('s, 'z) pipe_st_scheme \<Rightarrow> ('s, 'z) pipe_st_scheme) \<Rightarrow> nat \<Rightarrow> nat \<Rightarrow> nat \<Rightarrow> ('s, 'z) pipe_st_scheme \<Rightarrow> ('s, 'z) pipe_st_scheme option" where
  "wait_room sleep PIPE_BUF len P s = do {
     p \<leftarrow> pipes s P;
     if sub32 PIPE_BUFFER_SIZE (bytes_avail p) < min PIPE_BUF len then wait_room sleep PIPE_BUF len P (sleep s) else Some s }"

definition pipe_store :: "nat \<Rightarrow> nat \<Rightarrow> pipe \<Rightarrow> mem \<Rightarrow> pipe option" where
  "pipe_store to_write src p m = do {
     assertK (sub32 PIPE_BUFFER_SIZE (bytes_avail p) \<ge> to_write);
     assertK (add32 (write_pos p) to_write \<le> max_pos p);
     Some (p\<lparr> pbytes := copy_bytes m src to_write (sub32 (write_pos p) (pbuffer p)) (pbytes p),
       write_pos := add32 (write_pos p) to_write, bytes_avail := add32 (bytes_avail p) to_write \<rparr>) }"

definition wrap_write :: "pipe \<Rightarrow> pipe option" where
  "wrap_write p = (if write_pos p \<ge> max_pos p then do { assertK (write_pos p = max_pos p); Some (p\<lparr> write_pos := pbuffer p \<rparr>) } else Some p)"

text \<open>One round of the loop: \<open>written\<close> bytes are done, the result is the new number of them.\<close>

definition pipe_put :: "nat \<Rightarrow> nat \<Rightarrow> nat \<Rightarrow> nat \<Rightarrow> pipe \<Rightarrow> mem \<Rightarrow> (nat \<times> pipe) option" where
  "pipe_put time buf len written p m = do {
     let n = sub32 (max_pos p) (write_pos p);
     let to_write = min (min len n) (sub32 PIPE_BUFFER_SIZE (bytes_avail p));
     p1 \<leftarrow> pipe_store to_write buf p m;
     let written1 = add32 written to_write;
     p2 \<leftarrow> wrap_write p1;
     (written2, p3) \<leftarrow> (if len > written1 \<and> sub32 PIPE_BUFFER_SIZE (bytes_avail p2) > 0 then do {
         let to_write2 = min (sub32 PIPE_BUFFER_SIZE (bytes_avail p2)) len;
         p' \<leftarrow> pipe_store to_write2 (buf + written1) p2 m;
         Some (add32 written1 to_write2, p') }
       else Some (written1, p2));
     Some (written2, p3\<lparr> patime := time, pmtime := time \<rparr>) }"

partial_function (option) write_loop :: "(('s, 'z) pipe_st_scheme \<Rightarrow> ('s, 'z) pipe_st_scheme) \<Rightarrow> (('s, 'z) pipe_st_scheme \<Rightarrow> ('s, 'z) pipe_st_scheme) \<Rightarrow>
    nat \<Rightarrow> nat \<Rightarrow> nat \<Rightarrow> nat \<Rightarrow> nat \<Rightarrow> ('s, 'z) pipe_st_scheme \<Rightarrow> (res \<times> ('s, 'z) pipe_st_scheme) option" where
  "write_loop sleep yield PIPE_BUF P buf len written s =
    (if len > written then do {
       p \<leftarrow> pipes s P;
       gone \<leftarrow> no_reader p s;
       if gone then Some (Inl EPIPE, s) else do {
         s1 \<leftarrow> wait_room sleep PIPE_BUF len P s;
         p1 \<leftarrow> pipes s1 P;
         gone1 \<leftarrow> no_reader p1 s1;
         if gone1 then Some (Inl EPIPE, s1) else do {
           s2 \<leftarrow> mutex_lock yield (plock p1) s1;
           p2 \<leftarrow> pipes s2 P;
           (written', p3) \<leftarrow> pipe_put (wall_time s2) buf len written p2 (umem s2);
           s3 \<leftarrow> mutex_unlock (plock p3) (s2\<lparr> pipes := (pipes s2)(P \<mapsto> p3) \<rparr>);
           write_loop sleep yield PIPE_BUF P buf len written' s3 } } }
     else Some (Inr (s32 written), s))"

definition pipe_write :: "(('s, 'z) pipe_st_scheme \<Rightarrow> ('s, 'z) pipe_st_scheme) \<Rightarrow> (('s, 'z) pipe_st_scheme \<Rightarrow> ('s, 'z) pipe_st_scheme) \<Rightarrow>
    nat \<Rightarrow> int \<Rightarrow> nat \<Rightarrow> nat \<Rightarrow> ('s, 'z) pipe_st_scheme \<Rightarrow> (res \<times> ('s, 'z) pipe_st_scheme) option" where
  "pipe_write sleep yield PIPE_BUF fd buf len s = do {
     f \<leftarrow> get_filp fd s;
     if f = 0 then Some (Inl EBADF, s) else do {
       x \<leftarrow> files s f;
       assertK (odev x = DEV_PIPE);
       assertK (odata x \<noteq> 0);
       p \<leftarrow> pipes s (odata x);
       if f = preader p then Some (Inl EBADF, s)
       else write_loop sleep yield PIPE_BUF (odata x) buf len 0 s } }"

subsection \<open>Closing and status\<close>

definition pipe_close :: "(nat \<Rightarrow> 's \<Rightarrow> 's option) \<Rightarrow> int \<Rightarrow> nat \<Rightarrow> ('s, 'z) pipe_st_scheme \<Rightarrow> (res \<times> ('s, 'z) pipe_st_scheme) option" where
  "pipe_close free fd f s = (if f = 0 then Some (Inl EBADF, s) else do {
     x \<leftarrow> files s f;
     assertK (odata x \<noteq> 0);
     p \<leftarrow> pipes s (odata x);
     assertK (preader p = f \<or> pwriter p = f);
     let p' = (if preader p = f then (if ocount x = 1 then p\<lparr> preader := 0 \<rparr> else p)
               else (if ocount x = 1 then p\<lparr> pwriter := 0 \<rparr> else p));
     let s1 = s\<lparr> pipes := (pipes s)(odata x \<mapsto> p') \<rparr>;
     if preader p' = 0 \<and> pwriter p' = 0 then do {
       s2 \<leftarrow> mutex_destroy free (plock p') s1;
       h \<leftarrow> free (pbuffer p') (mheap s2);
       h' \<leftarrow> free (odata x) h;
       Some (Inr 0, s2\<lparr> mheap := h', pipes := (pipes s2)(odata x := None) \<rparr>) }
     else Some (Inr 0, s1) })"

definition pipe_fstat :: "int \<Rightarrow> ('s, 'z) pipe_st_scheme \<Rightarrow> ((errno + stat_t) \<times> ('s, 'z) pipe_st_scheme) option" where
  "pipe_fstat fd s = do {
     f \<leftarrow> get_filp fd s;
     if f = 0 then Some (Inl EBADF, s) else do {
       x \<leftarrow> files s f;
       if odata x = 0 then Some (Inl EBADF, s) else do {
         p \<leftarrow> pipes s (odata x);
         Some (Inr (zero_stat\<lparr> st_dev := DEV_PIPE, st_size := bytes_avail p, st_blksize := PIPE_BUFFER_SIZE, st_mode := 4096 + 384,
           st_mtime := pmtime p, st_ctime := pmtime p, st_atime := patime p \<rparr>), s) } } }"

definition pipe_ops :: "(nat \<Rightarrow> 's \<Rightarrow> 's option) \<Rightarrow> (('s, 'z) pipe_st_scheme \<Rightarrow> ('s, 'z) pipe_st_scheme) \<Rightarrow> (('s, 'z) pipe_st_scheme \<Rightarrow> ('s, 'z) pipe_st_scheme) \<Rightarrow> nat \<Rightarrow>
    ('s, 'z) pipe_st_scheme open_file_ops" where
  "pipe_ops free sleep yield PIPE_BUF = no_ops\<lparr> op_read := Some (pipe_read sleep yield), op_write := Some (pipe_write sleep yield PIPE_BUF),
     op_close := Some (pipe_close free), op_fstat := Some pipe_fstat \<rparr>"

subsection \<open>The queue in a pipe\<close>

definition roff :: "pipe \<Rightarrow> nat" where
  "roff p = read_pos p - pbuffer p"

definition woff :: "pipe \<Rightarrow> nat" where
  "woff p = write_pos p - pbuffer p"

definition pipe_wf :: "pipe \<Rightarrow> bool" where
  "pipe_wf p \<longleftrightarrow> max_pos p = pbuffer p + 65536 \<and> pbuffer p + 65536 < W32 \<and> read_pos p = pbuffer p + roff p \<and> roff p < 65536 \<and>
     write_pos p = pbuffer p + woff p \<and> bytes_avail p \<le> 65536 \<and> woff p = (roff p + bytes_avail p) mod 65536"

definition queue :: "pipe \<Rightarrow> 8 word list" where
  "queue p = ring 65536 (pbytes p) (roff p) (bytes_avail p)"

lemma queue_length [simp]: "length (queue p) = bytes_avail p"
  by (simp add: queue_def)

lemma offsets [simp]:
  "roff (p\<lparr> patime := a \<rparr>) = roff p" "roff (p\<lparr> pmtime := a \<rparr>) = roff p" "woff (p\<lparr> patime := a \<rparr>) = woff p" "woff (p\<lparr> pmtime := a \<rparr>) = woff p"
  "roff (p\<lparr> preader := a \<rparr>) = roff p" "roff (p\<lparr> pwriter := a \<rparr>) = roff p" "woff (p\<lparr> preader := a \<rparr>) = woff p" "woff (p\<lparr> pwriter := a \<rparr>) = woff p"
  by (simp_all add: roff_def woff_def)

lemma pipe_wfD:
  assumes "pipe_wf p"
  shows "max_pos p = pbuffer p + 65536" "pbuffer p + 65536 < W32" "read_pos p = pbuffer p + roff p" "roff p < 65536"
    "write_pos p = pbuffer p + woff p" "woff p < 65536" "bytes_avail p \<le> 65536" "woff p = (roff p + bytes_avail p) mod 65536"
  using assms by (simp_all add: pipe_wf_def)

text \<open>Taking \<open>t\<close> bytes: the read position behind them, wrapped.\<close>

definition advance :: "nat \<Rightarrow> pipe \<Rightarrow> pipe" where
  "advance t p = p\<lparr> read_pos := pbuffer p + (roff p + t) mod 65536, bytes_avail := bytes_avail p - t \<rparr>"

lemma advance_ok:
  assumes wf: "pipe_wf p" and t: "t \<le> bytes_avail p"
  shows "pipe_wf (advance t p)" "queue (advance t p) = drop t (queue p)" "roff (advance t p) = (roff p + t) mod 65536"
    "bytes_avail (advance t p) = bytes_avail p - t" "pbuffer (advance t p) = pbuffer p" "max_pos (advance t p) = max_pos p"
proof -
  note w = pipe_wfD[OF wf]
  show r: "roff (advance t p) = (roff p + t) mod 65536" by (simp add: advance_def roff_def)
  show a: "bytes_avail (advance t p) = bytes_avail p - t" "pbuffer (advance t p) = pbuffer p" "max_pos (advance t p) = max_pos p"
    by (simp_all add: advance_def)
  have "((roff p + t) mod 65536 + (bytes_avail p - t)) mod 65536 = (roff p + bytes_avail p) mod 65536"
    using t mod_add_left_eq[of "roff p + t" 65536 "bytes_avail p - t"] by simp
  moreover have "woff (advance t p) = woff p" "write_pos (advance t p) = write_pos p" "read_pos (advance t p) = pbuffer p + (roff p + t) mod 65536"
    by (simp_all add: advance_def woff_def)
  moreover have "bytes_avail p - t \<le> 65536" using w(7) by (rule order_trans[OF diff_le_self])
  ultimately show "pipe_wf (advance t p)" unfolding pipe_wf_def r a using w by simp
  show "queue (advance t p) = drop t (queue p)" unfolding queue_def r a by (simp add: ring_drop advance_def)
qed

text \<open>Memory in which the bytes \<open>xs\<close> have been stored at \<open>a\<close>.\<close>

definition put_bytes :: "nat \<Rightarrow> 8 word list \<Rightarrow> mem \<Rightarrow> mem" where
  "put_bytes a xs m = (\<lambda>i. if a \<le> i \<and> i < a + length xs then xs ! (i - a) else m i)"

lemma put_bytes_append: "put_bytes (a + length xs) ys (put_bytes a xs m) = put_bytes a (xs @ ys) m"
  by (auto simp: put_bytes_def fun_eq_iff nth_append)

lemma take_append_drop: "take a xs @ take b (drop a xs) = take (a + b) xs"
  by (simp add: take_add)

lemma pipe_take_ok:
  assumes wf: "pipe_wf p" and t: "t \<le> bytes_avail p" "roff p + t \<le> 65536"
  shows "pipe_take t dst p m = Some (p\<lparr> read_pos := pbuffer p + roff p + t, bytes_avail := bytes_avail p - t \<rparr>, put_bytes dst (take t (queue p)) m)"
proof -
  note w = pipe_wfD[OF wf]
  have "copy_bytes (pbytes p) (roff p) t dst m = put_bytes dst (take t (queue p)) m"
    using t by (auto simp: copy_bytes_def put_bytes_def fun_eq_iff queue_def ring_cell)
  then show ?thesis using w t unfolding pipe_take_def by simp
qed

text \<open>How many bytes a read delivers.\<close>

definition read_size :: "nat \<Rightarrow> pipe \<Rightarrow> nat" where
  "read_size len p = (let n = 65536 - roff p in
     if n < len \<and> n < bytes_avail p then n + min (bytes_avail p - n) len else min len (bytes_avail p))"

lemma pipe_get_ok:
  assumes wf: "pipe_wf p" and a: "0 < bytes_avail p"
  shows "\<exists>p'. pipe_get time buf len p m = Some (read_size len p, p', put_bytes buf (take (read_size len p) (queue p)) m) \<and>
    pipe_wf p' \<and> queue p' = drop (read_size len p) (queue p) \<and> preader p' = preader p \<and> pwriter p' = pwriter p \<and> plock p' = plock p \<and> pbuffer p' = pbuffer p"
proof -
  note w = pipe_wfD[OF wf]
  let ?n = "65536 - roff p" and ?time = "\<lambda>p :: pipe. p\<lparr> patime := time \<rparr>"
  define t where "t = min (min len ?n) (bytes_avail p)"
  have t: "t \<le> bytes_avail p" "t \<le> ?n" "t \<le> len" by (simp_all add: t_def)
  define p3 where "p3 = ?time (advance t p)"
  have rp: "wrap_read (p\<lparr> read_pos := pbuffer p + roff p + t, bytes_avail := bytes_avail p - t, patime := time \<rparr>) = Some p3"
    using w t by (auto simp: p3_def advance_def wrap_read_def)
  have p3: "pipe_wf p3" "queue p3 = drop t (queue p)" "roff p3 = (roff p + t) mod 65536" "bytes_avail p3 = bytes_avail p - t" "pbuffer p3 = pbuffer p"
    using advance_ok[OF wf t(1)] by (simp_all add: p3_def pipe_wf_def queue_def)
  have same: "preader p3 = preader p \<and> pwriter p3 = pwriter p \<and> plock p3 = plock p" by (simp add: p3_def advance_def)
  have n: "sub32 (max_pos p) (read_pos p) = ?n" using w by simp
  have tk: "pipe_take t buf p m = Some (p\<lparr> read_pos := pbuffer p + roff p + t, bytes_avail := bytes_avail p - t \<rparr>, put_bytes buf (take t (queue p)) m)"
    using pipe_take_ok[OF wf t(1)] t(2) w(4) by simp
  show ?thesis
  proof (cases "t < len \<and> 0 < bytes_avail p3")
    case False
    then have "read_size len p = t" using t p3(4) by (auto simp: read_size_def t_def Let_def min_def split: if_splits)
    moreover have "pipe_get time buf len p m = Some (t, p3, put_bytes buf (take t (queue p)) m)"
      using False a n tk rp by (auto simp: pipe_get_def Let_def simp flip: t_def)
    ultimately show ?thesis using p3 same by (intro exI[of _ p3]) simp
  next
    case True
    then have e: "t = ?n" using p3(4) by (auto simp: t_def min_def split: if_splits)
    define t2 where "t2 = min (bytes_avail p3) len"
    have r0: "roff p3 = 0" using p3(3) e w(4) by simp
    have t2: "t2 \<le> bytes_avail p3" "t2 < 65536" using p3(4) e w(4,7) by (auto simp: t2_def)
    have rs: "read_size len p = t + t2" using True e p3(4) by (auto simp: read_size_def t2_def Let_def)
    define p4 where "p4 = p3\<lparr> read_pos := pbuffer p3 + roff p3 + t2, bytes_avail := bytes_avail p3 - t2 \<rparr>"
    have p4: "p4 = advance t2 p3" using r0 t2(2) by (simp add: advance_def p4_def)
    have m: "put_bytes (buf + t) (take t2 (queue p3)) (put_bytes buf (take t (queue p)) m) = put_bytes buf (take (t + t2) (queue p)) m"
      using put_bytes_append[of buf "take t (queue p)" "take t2 (drop t (queue p))" m] t(1) p3(2) by (simp add: take_append_drop)
    have "pipe_take t2 (buf + t) p3 (put_bytes buf (take t (queue p)) m) = Some (p4, put_bytes buf (take (t + t2) (queue p)) m)"
      using pipe_take_ok[OF p3(1) t2(1), of "buf + t" "put_bytes buf (take t (queue p)) m"] r0 t2(2) by (simp add: m p4_def)
    then have "pipe_get time buf len p m = Some (t + t2, p4, put_bytes buf (take (t + t2) (queue p)) m)"
      using True a n tk rp t2 t(2) by (simp add: pipe_get_def Let_def flip: t_def t2_def)
    moreover have "queue p4 = drop (t + t2) (queue p)" using advance_ok(2)[OF p3(1) t2(1)] p3(2) by (simp add: p4 add.commute)
    moreover have "preader p4 = preader p \<and> pwriter p4 = pwriter p \<and> plock p4 = plock p \<and> pbuffer p4 = pbuffer p" using same p3(5) by (simp add: p4_def)
    ultimately show ?thesis using advance_ok(1)[OF p3(1) t2(1)] rs by (intro exI[of _ p4]) (simp add: p4)
  qed
qed

text \<open>Storing \<open>t\<close> bytes that do not reach over the end of the buffer.\<close>

definition stored :: "nat \<Rightarrow> nat \<Rightarrow> mem \<Rightarrow> pipe \<Rightarrow> pipe" where
  "stored t src m p = p\<lparr> pbytes := copy_bytes m src t (woff p) (pbytes p), write_pos := pbuffer p + (woff p + t) mod 65536,
     bytes_avail := bytes_avail p + t \<rparr>"

lemma stored_ok:
  assumes wf: "pipe_wf p" and t: "woff p + t \<le> 65536" "bytes_avail p + t \<le> 65536"
  shows "pipe_wf (stored t src m p)" "queue (stored t src m p) = queue p @ map m [src..<src + t]" "woff (stored t src m p) = (woff p + t) mod 65536"
    "bytes_avail (stored t src m p) = bytes_avail p + t"
proof -
  note w = pipe_wfD[OF wf]
  let ?p = "stored t src m p"
  have r: "roff ?p = roff p" "read_pos ?p = read_pos p" "pbuffer ?p = pbuffer p" "max_pos ?p = max_pos p"
      "write_pos ?p = pbuffer p + (woff p + t) mod 65536" "pbytes ?p = copy_bytes m src t (woff p) (pbytes p)"
    by (simp_all add: stored_def roff_def)
  show wo: "woff ?p = (woff p + t) mod 65536" by (simp add: stored_def woff_def)
  show b: "bytes_avail ?p = bytes_avail p + t" by (simp add: stored_def)
  have "(woff p + t) mod 65536 = (roff p + (bytes_avail p + t)) mod 65536"
    unfolding w(8) using mod_add_left_eq[of "roff p + bytes_avail p" 65536 t] by (simp add: add.assoc)
  then show "pipe_wf ?p" unfolding pipe_wf_def r wo b using w t by simp
  show "queue ?p = queue p @ map m [src..<src + t]"
    unfolding queue_def r b by (rule ring_store[OF w(8) t]) (auto simp: copy_bytes_def)
qed

lemma pipe_store_ok:
  assumes wf: "pipe_wf p" and t: "woff p + t \<le> 65536" "bytes_avail p + t \<le> 65536"
  shows "\<exists>p'. pipe_store t src p m = Some p' \<and> wrap_write p' = Some (stored t src m p) \<and> (woff p + t < 65536 \<longrightarrow> p' = stored t src m p)"
proof -
  note w = pipe_wfD[OF wf]
  let ?p = "p\<lparr> pbytes := copy_bytes m src t (woff p) (pbytes p), write_pos := pbuffer p + woff p + t, bytes_avail := bytes_avail p + t \<rparr>"
  have "pipe_store t src p m = Some ?p" using w t unfolding pipe_store_def by simp
  moreover have "wrap_write ?p = Some (stored t src m p)" using w t by (auto simp: wrap_write_def stored_def)
  moreover have "?p = stored t src m p" if "woff p + t < 65536" using that by (simp add: stored_def add.assoc)
  ultimately show ?thesis by blast
qed

text \<open>How many bytes a write that finds enough room stores.\<close>

definition write_size :: "nat \<Rightarrow> pipe \<Rightarrow> nat" where
  "write_size len p = (let n = 65536 - woff p in if len \<le> n then len else n + min (65536 - bytes_avail p - n) len)"

lemma write_size_ge: "pipe_wf p \<Longrightarrow> bytes_avail p + len \<le> 65536 \<Longrightarrow> len \<le> write_size len p"
  by (auto simp: write_size_def Let_def)

lemma pipe_put_ok:
  assumes wf: "pipe_wf p" and room: "bytes_avail p + len \<le> 65536"
  shows "\<exists>p'. pipe_put time buf len 0 p m = Some (write_size len p, p') \<and> pipe_wf p' \<and>
    queue p' = queue p @ map m [buf..<buf + write_size len p] \<and> preader p' = preader p \<and> pwriter p' = pwriter p \<and> plock p' = plock p \<and> pbuffer p' = pbuffer p"
proof -
  note w = pipe_wfD[OF wf]
  let ?n = "65536 - woff p" and ?time = "\<lambda>p :: pipe. p\<lparr> patime := time, pmtime := time \<rparr>"
  define t where "t = min (min len ?n) (65536 - bytes_avail p)"
  have t: "t = min len ?n" using room by (simp add: t_def)
  have tt: "woff p + t \<le> 65536" "bytes_avail p + t \<le> 65536" using t w(6) room by auto
  have n: "sub32 (max_pos p) (write_pos p) = ?n" "sub32 65536 (bytes_avail p) = 65536 - bytes_avail p" using w by simp_all
  obtain p1 where p1: "pipe_store t buf p m = Some p1" "wrap_write p1 = Some (stored t buf m p)"
    using pipe_store_ok[OF wf tt] by blast
  define p2 where "p2 = stored t buf m p"
  note p2 = stored_ok[OF wf tt, of buf m, folded p2_def]
  have same: "preader p2 = preader p \<and> pwriter p2 = pwriter p \<and> plock p2 = plock p \<and> pbuffer p2 = pbuffer p" by (simp add: p2_def stored_def)
  have q: "pipe_wf (?time p)" "queue (?time p) = queue p" if "pipe_wf p" for p
    using that by (simp_all add: pipe_wf_def queue_def)
  have "add32 0 t = t" using t w(6) by simp
  then have red: "pipe_put time buf len 0 p m = do {
      p1 \<leftarrow> pipe_store t buf p m;
      p2 \<leftarrow> wrap_write p1;
      (written2, p3) \<leftarrow> (if len > t \<and> sub32 65536 (bytes_avail p2) > 0 then do {
          p' \<leftarrow> pipe_store (min (sub32 65536 (bytes_avail p2)) len) (buf + t) p2 m;
          Some (add32 t (min (sub32 65536 (bytes_avail p2)) len), p') }
        else Some (t, p2));
      Some (written2, ?time p3) }"
    unfolding pipe_put_def Let_def n t_def[symmetric] by (simp only:)
  show ?thesis
  proof (cases "len \<le> ?n")
    case True
    then have "t = len" using t by simp
    then have "pipe_put time buf len 0 p m = Some (len, ?time p2)"
      using red p1 by (simp add: p2_def)
    moreover have "write_size len p = len" using True by (simp add: write_size_def)
    ultimately show ?thesis using p2 q[OF p2(1)] same \<open>t = len\<close> by (intro exI[of _ "?time p2"]) simp
  next
    case False
    then have e: "t = ?n" "woff p2 = 0" using t p2(3) w(6) by auto
    define t2 where "t2 = min (65536 - bytes_avail p2) len"
    have t2: "woff p2 + t2 < 65536" "bytes_avail p2 + t2 \<le> 65536" "0 < 65536 - bytes_avail p2"
      using e w(6) p2(4) room False by (auto simp: t2_def)
    obtain p3 where p3: "pipe_store t2 (buf + t) p2 m = Some p3" "p3 = stored t2 (buf + t) m p2"
      using pipe_store_ok[OF p2(1) less_imp_le[OF t2(1)] t2(2)] t2(1) by blast
    note p3' = stored_ok[OF p2(1) less_imp_le[OF t2(1)] t2(2), of "buf + t" m, folded p3(2)]
    have ws: "write_size len p = t + t2" using False e(1) p2(4) by (simp add: write_size_def t2_def Let_def)
    have n2: "sub32 65536 (bytes_avail p2) = 65536 - bytes_avail p2" using pipe_wfD(7)[OF p2(1)] by simp
    have tl: "t < len" "t + t2 < W32" using False e(1) w(6) t2(1) by auto
    have "pipe_put time buf len 0 p m = Some (t + t2, ?time p3)"
      using red p1 n2 tl t2(3) p3(1) by (simp flip: t2_def p2_def)
    moreover have "map m [buf..<buf + t] @ map m [buf + t..<buf + t + t2] = map m [buf..<buf + (t + t2)]"
      using upt_add_eq_append[of buf "buf + t" t2] by (simp add: add.assoc)
    moreover have "preader p3 = preader p \<and> pwriter p3 = pwriter p \<and> plock p3 = plock p \<and> pbuffer p3 = pbuffer p" using same by (simp add: p3(2) stored_def)
    ultimately show ?thesis using p3'(1,2) p2(2) q[OF p3'(1)] ws by (intro exI[of _ "?time p3"]) simp
  qed
qed

subsection \<open>All pipes\<close>

text \<open>The three blocks of a pipe, and those of all pipes with their sizes.\<close>

definition pipe_addrs :: "nat \<Rightarrow> pipe \<Rightarrow> nat set" where
  "pipe_addrs P p = {P, pbuffer p, plock p}"

definition pblocks :: "nat \<Rightarrow> (nat \<rightharpoonup> pipe) \<Rightarrow> nat \<rightharpoonup> nat" where
  "pblocks psz ps a = (if ps a \<noteq> None then Some psz else if \<exists>P p. ps P = Some p \<and> pbuffer p = a then Some PIPE_BUFFER_SIZE
     else if \<exists>P p. ps P = Some p \<and> plock p = a then Some 8 else None)"

text \<open>Every pipe is a queue whose mutex is free, and is linked to the open files of its ends, which link back; a pipe has at least one
  end, and the blocks of different pipes are different.\<close>

definition pipe_linked :: "(nat \<rightharpoonup> open_file) \<Rightarrow> nat \<Rightarrow> pipe \<Rightarrow> bool" where
  "pipe_linked fs P p \<longleftrightarrow> preader p \<noteq> pwriter p \<and>
     (\<forall>e \<in> {preader p, pwriter p}. e \<noteq> 0 \<longrightarrow> (\<exists>x. fs e = Some x \<and> ofops x = FOPS_PIPE \<and> odata x = P))"

definition file_linked :: "(nat \<rightharpoonup> pipe) \<Rightarrow> nat \<Rightarrow> open_file \<Rightarrow> bool" where
  "file_linked ps f x \<longleftrightarrow> ofops x = FOPS_STDIO \<or>
     ofops x = FOPS_PIPE \<and> odev x = DEV_PIPE \<and> (\<exists>p. ps (odata x) = Some p \<and> f \<in> {preader p, pwriter p})"

definition pipes_ok :: "('s, 'z) pipe_st_scheme \<Rightarrow> bool" where
  "pipes_ok s \<longleftrightarrow> files s 0 = None \<and> (\<forall>f x. files s f = Some x \<longrightarrow> file_linked (pipes s) f x) \<and>
     (\<forall>P p. pipes s P = Some p \<longrightarrow> P \<noteq> 0 \<and> plock p \<noteq> 0 \<and> pipe_wf p \<and> mutexes s (plock p) = Some \<lparr> mowner = 0, mutex = 0 \<rparr> \<and>
        pipe_linked (files s) P p \<and> distinct [P, pbuffer p, plock p]) \<and>
     (\<forall>P p Q q. pipes s P = Some p \<and> pipes s Q = Some q \<and> P \<noteq> Q \<longrightarrow> pipe_addrs P p \<inter> pipe_addrs Q q = {})"

lemma pipes_okD:
  assumes "pipes_ok s"
  shows "files s 0 = None" "files s f = Some x \<Longrightarrow> file_linked (pipes s) f x" "pipes s P = Some p \<Longrightarrow> P \<noteq> 0" "pipes s P = Some p \<Longrightarrow> plock p \<noteq> 0"
    "pipes s P = Some p \<Longrightarrow> pipe_wf p" "pipes s P = Some p \<Longrightarrow> mutexes s (plock p) = Some \<lparr> mowner = 0, mutex = 0 \<rparr>"
    "pipes s P = Some p \<Longrightarrow> pipe_linked (files s) P p" "pipes s P = Some p \<Longrightarrow> distinct [P, pbuffer p, plock p]"
    "pipes s P = Some p \<Longrightarrow> pipes s Q = Some q \<Longrightarrow> P \<noteq> Q \<Longrightarrow> pipe_addrs P p \<inter> pipe_addrs Q q = {}"
  using assms unfolding pipes_ok_def by blast+

lemma pblocks_same:
  assumes "ps P = Some p" "pbuffer p' = pbuffer p" "plock p' = plock p"
  shows "pblocks psz (ps(P \<mapsto> p')) = pblocks psz ps"
proof
  fix a
  have "(\<exists>Q q. (ps(P \<mapsto> p')) Q = Some q \<and> f q = a) \<longleftrightarrow> (\<exists>Q q. ps Q = Some q \<and> f q = a)" if "f p' = f p" for f :: "pipe \<Rightarrow> nat"
    using assms(1) that by (metis fun_upd_apply option.inject)
  note ex = this[of pbuffer, OF assms(2)] this[of plock, OF assms(3)]
  have "(ps(P \<mapsto> p')) a \<noteq> None \<longleftrightarrow> ps a \<noteq> None" using assms(1) by simp
  then show "pblocks psz (ps(P \<mapsto> p')) a = pblocks psz ps a" unfolding pblocks_def ex by (rule if_cong) simp_all
qed

lemma pblocks_dom: "a \<in> dom (pblocks psz ps) \<longleftrightarrow> (\<exists>P p. ps P = Some p \<and> a \<in> pipe_addrs P p)"
proof -
  have "a \<in> dom (pblocks psz ps) \<longleftrightarrow> ps a \<noteq> None \<or> (\<exists>P p. ps P = Some p \<and> pbuffer p = a) \<or> (\<exists>P p. ps P = Some p \<and> plock p = a)"
    by (simp add: pblocks_def dom_def)
  then show ?thesis unfolding pipe_addrs_def by blast
qed

lemma pblocks_own:
  assumes ok: "pipes_ok s" and p: "pipes s P = Some p"
  shows "pblocks psz (pipes s) P = Some psz" "pblocks psz (pipes s) (pbuffer p) = Some PIPE_BUFFER_SIZE" "pblocks psz (pipes s) (plock p) = Some 8"
proof -
  have o: "Q = P" if "pipes s Q = Some q" "a \<in> pipe_addrs Q q" "a \<in> pipe_addrs P p" for Q q a
    using pipes_okD(9)[OF ok that(1) p] that by blast
  have d: "P \<noteq> pbuffer p" "P \<noteq> plock p" "pbuffer p \<noteq> plock p" using pipes_okD(8)[OF ok p] by auto
  have n: "pipes s (pbuffer p) = None" "pipes s (plock p) = None"
    using o[of "pbuffer p" _ "pbuffer p"] o[of "plock p" _ "plock p"] d unfolding pipe_addrs_def by (metis insertI1 insertI2 not_None_eq)+
  show "pblocks psz (pipes s) P = Some psz" using p by (simp add: pblocks_def)
  show "pblocks psz (pipes s) (pbuffer p) = Some PIPE_BUFFER_SIZE" using p n by (auto simp: pblocks_def)
  have "pbuffer q \<noteq> plock p" if "pipes s Q = Some q" for Q q
    using o[OF that, of "plock p"] that p d(3) by (auto simp: pipe_addrs_def)
  then show "pblocks psz (pipes s) (plock p) = Some 8" using p n by (auto simp: pblocks_def)
qed

lemma pblocks_removed:
  assumes ok: "pipes_ok s" and p: "pipes s P = Some p"
  shows "pblocks psz ((pipes s)(P := None)) = pblocks psz (pipes s) |` (- pipe_addrs P p)"
proof
  fix a
  show "pblocks psz ((pipes s)(P := None)) a = (pblocks psz (pipes s) |` (- pipe_addrs P p)) a"
  proof (cases "a \<in> pipe_addrs P p")
    case True
    then have "a \<notin> dom (pblocks psz ((pipes s)(P := None)))"
      unfolding pblocks_dom using pipes_okD(9)[OF ok _ p] by (auto split: if_splits)
    then show ?thesis using True by (simp add: domIff)
  next
    case False
    have ex: "(\<exists>Q q. ((pipes s)(P := None)) Q = Some q \<and> f q = a) \<longleftrightarrow> (\<exists>Q q. pipes s Q = Some q \<and> f q = a)" if "a \<noteq> f p" for f :: "pipe \<Rightarrow> nat"
      using p that by (metis fun_upd_apply option.distinct(1) option.inject)
    have "a \<noteq> P" "a \<noteq> pbuffer p" "a \<noteq> plock p" using False by (simp_all add: pipe_addrs_def)
    note ex' = ex[of pbuffer, OF this(2)] ex[of plock, OF this(3)] fun_upd_other[OF this(1), of "pipes s" None]
    have "pblocks psz ((pipes s)(P := None)) a = pblocks psz (pipes s) a" unfolding pblocks_def ex' ..
    then show ?thesis using False by simp
  qed
qed

subsection \<open>The drivers\<close>

definition fs_ops :: "(nat \<Rightarrow> 's \<Rightarrow> 's option) \<Rightarrow> (('s, 'z) pipe_st_scheme \<Rightarrow> ('s, 'z) pipe_st_scheme) \<Rightarrow> (('s, 'z) pipe_st_scheme \<Rightarrow> ('s, 'z) pipe_st_scheme) \<Rightarrow> nat \<Rightarrow>
    (('s, 'z) pipe_st_scheme \<Rightarrow> (8 word \<times> ('s, 'z) pipe_st_scheme) option) \<Rightarrow> (8 word \<Rightarrow> ('s, 'z) pipe_st_scheme \<Rightarrow> ('s, 'z) pipe_st_scheme) \<Rightarrow>
    nat \<Rightarrow> ('s, 'z) pipe_st_scheme open_file_ops" where
  "fs_ops free sleep yield PIPE_BUF getchar putchar k =
    (if k = FOPS_STDIO then stdio_ops getchar putchar else if k = FOPS_PIPE then pipe_ops free sleep yield PIPE_BUF else no_ops)"

text \<open>The invariant after the files or one pipe have changed.\<close>

lemma pipes_okI:
  assumes ok: "pipes_ok s" and z: "files s' 0 = None" and fl: "\<And>f x. files s' f = Some x \<Longrightarrow> file_linked (pipes s') f x"
    and same: "\<And>P p'. pipes s' P = Some p' \<Longrightarrow> \<exists>p. pipes s P = Some p \<and> pbuffer p' = pbuffer p \<and> plock p' = plock p"
    and new: "\<And>P p'. pipes s' P = Some p' \<Longrightarrow> pipe_wf p' \<and> pipe_linked (files s') P p' \<and> mutexes s' (plock p') = Some \<lparr> mowner = 0, mutex = 0 \<rparr>"
  shows "pipes_ok s'"
  unfolding pipes_ok_def
proof (intro conjI allI impI; (elim conjE)?)
  fix P p' assume p': "pipes s' P = Some p'"
  from same[OF p'] obtain p where p: "pipes s P = Some p" "pbuffer p' = pbuffer p" "plock p' = plock p" by blast
  show "P \<noteq> 0" "plock p' \<noteq> 0" "distinct [P, pbuffer p', plock p']" using pipes_okD(3,4,8)[OF ok p(1)] p by simp_all
  show "pipe_wf p'" "pipe_linked (files s') P p'" "mutexes s' (plock p') = Some \<lparr> mowner = 0, mutex = 0 \<rparr>" using new[OF p'] by simp_all
  fix Q q' assume q': "pipes s' Q = Some q'" and "P \<noteq> Q"
  from same[OF q'] obtain q where q: "pipes s Q = Some q" "pbuffer q' = pbuffer q" "plock q' = plock q" by blast
  have "pipe_addrs P p \<inter> pipe_addrs Q q = {}" by (rule pipes_okD(9)[OF ok p(1) q(1)]) fact
  then show "pipe_addrs P p' \<inter> pipe_addrs Q q' = {}" unfolding pipe_addrs_def p q .
qed (use z fl in simp_all)

lemma pipes_ok_frame: "pipes_ok s \<Longrightarrow> pipes_ok (s\<lparr> mheap := h, tasks := ts, fdtable := tb, fdblock := fb \<rparr>)"
  by (simp add: pipes_ok_def)

lemma file_nonzero: "pipes_ok s \<Longrightarrow> files s f = Some x \<Longrightarrow> f \<noteq> 0"
  using pipes_okD(1)[of s] by (cases "f = 0") simp_all

lemma file_linked_count [simp]: "file_linked ps f (x\<lparr> ocount := c \<rparr>) = file_linked ps f x"
  by (simp add: file_linked_def)

lemma pipe_linked_mono:
  assumes "pipe_linked fs P p" "\<And>e x. e \<in> {preader p, pwriter p} \<Longrightarrow> fs e = Some x \<Longrightarrow> \<exists>x'. fs' e = Some x' \<and> ofops x' = ofops x \<and> odata x' = odata x"
  shows "pipe_linked fs' P p"
  using assms unfolding pipe_linked_def by metis

lemma pipes_ok_count:
  assumes ok: "pipes_ok s" and x: "files s f = Some x"
  shows "pipes_ok (s\<lparr> files := (files s)(f \<mapsto> x\<lparr> ocount := c \<rparr>) \<rparr>)" (is "pipes_ok ?s")
proof (rule pipes_okI[OF ok])
  show "files ?s 0 = None" using pipes_okD(1)[OF ok] file_nonzero[OF ok x] by simp
  show "file_linked (pipes ?s) g y" if "files ?s g = Some y" for g y
    using that pipes_okD(2)[OF ok] x by (cases "g = f") auto
  show "pipe_wf p \<and> pipe_linked (files ?s) P p \<and> mutexes ?s (plock p) = Some \<lparr> mowner = 0, mutex = 0 \<rparr>" if "pipes ?s P = Some p" for P p
  proof -
    have p: "pipes s P = Some p" using that by simp
    have "pipe_linked (files ?s) P p" by (rule pipe_linked_mono[OF pipes_okD(7)[OF ok p]]) (use x in auto)
    then show ?thesis using pipes_okD(5,6)[OF ok p] by simp
  qed
qed auto

text \<open>Closing a standard stream.\<close>

lemma pipes_ok_stdio:
  assumes ok: "pipes_ok s" and x: "files s f = Some x" "ofops x = FOPS_STDIO"
  shows "pipes_ok (s\<lparr> files := dropped f (files s) \<rparr>)"
proof (cases "ocount x = 1")
  case False
  then show ?thesis using pipes_ok_count[OF ok x(1)] x(1) by (simp add: dropped_def)
next
  case True
  then have d: "dropped f (files s) = (files s)(f := None)" using x(1) by (simp add: dropped_def)
  show ?thesis unfolding d
  proof (rule pipes_okI[OF ok])
    fix P p assume "pipes (s\<lparr> files := (files s)(f := None) \<rparr>) P = Some p"
    then have p: "pipes s P = Some p" by simp
    have "f \<noteq> e" if "e \<in> {preader p, pwriter p}" for e
      using pipes_okD(7)[OF ok p] file_nonzero[OF ok x(1)] x that by (auto simp: pipe_linked_def)
    then have "pipe_linked ((files s)(f := None)) P p" by (intro pipe_linked_mono[OF pipes_okD(7)[OF ok p]]) auto
    then show "pipe_wf p \<and> pipe_linked (files (s\<lparr> files := (files s)(f := None) \<rparr>)) P p \<and>
        mutexes (s\<lparr> files := (files s)(f := None) \<rparr>) (plock p) = Some \<lparr> mowner = 0, mutex = 0 \<rparr>"
      using pipes_okD(5,6)[OF ok p] by simp
  qed (use pipes_okD(1,2)[OF ok] in \<open>auto split: if_splits\<close>)
qed

text \<open>Closing the last reference to an end of a pipe.\<close>

definition without :: "nat \<Rightarrow> pipe \<Rightarrow> pipe" where
  "without f p = (if preader p = f then p\<lparr> preader := 0 \<rparr> else p\<lparr> pwriter := 0 \<rparr>)"

lemma without_simps [simp]: "pbuffer (without f p) = pbuffer p" "plock (without f p) = plock p" "pipe_wf (without f p) = pipe_wf p"
  by (simp_all add: without_def pipe_wf_def)

lemma pipe_fileE:
  assumes "pipes_ok s" "files s f = Some x" "ofops x = FOPS_PIPE"
  obtains p where "pipes s (odata x) = Some p" "f \<in> {preader p, pwriter p}" "odev x = DEV_PIPE" "f \<noteq> 0" "odata x \<noteq> 0" "preader p \<noteq> pwriter p"
proof -
  obtain p where p: "pipes s (odata x) = Some p" "f \<in> {preader p, pwriter p}" "odev x = DEV_PIPE"
    using pipes_okD(2)[OF assms(1,2)] assms(3) by (auto simp: file_linked_def)
  show thesis
    by (rule that[OF p file_nonzero[OF assms(1,2)] pipes_okD(3)[OF assms(1) p(1)]]) (use pipes_okD(7)[OF assms(1) p(1)] in \<open>simp add: pipe_linked_def\<close>)
qed

lemma ends_unique:
  assumes ok: "pipes_ok s" and x: "files s f = Some x" and q: "pipes s Q = Some q" "Q \<noteq> odata x"
  shows "f \<notin> {preader q, pwriter q}"
  using pipes_okD(7)[OF ok q(1)] x q(2) file_nonzero[OF ok x] by (auto simp: pipe_linked_def)

lemma pipes_ok_end:
  assumes ok: "pipes_ok s" and x: "files s f = Some x" "ofops x = FOPS_PIPE" and p: "pipes s (odata x) = Some p"
    and s': "files s' = (files s)(f := None)" "mutexes s' = mutexes s" "pipes s' = (pipes s)(odata x \<mapsto> without f p)"
    and other: "preader (without f p) \<noteq> 0 \<or> pwriter (without f p) \<noteq> 0"
  shows "pipes_ok s'"
proof (rule pipes_okI[OF ok])
  have f: "f \<in> {preader p, pwriter p}" "preader p \<noteq> pwriter p" using pipe_fileE[OF ok x] p by auto
  show "files s' 0 = None" using pipes_okD(1)[OF ok] by (simp add: s')
  show "\<exists>q. pipes s Q = Some q \<and> pbuffer q' = pbuffer q \<and> plock q' = plock q" if "pipes s' Q = Some q'" for Q q'
    using that p by (auto simp: s' split: if_splits)
  show "file_linked (pipes s') g y" if g: "files s' g = Some y" for g y
  proof -
    have "file_linked (pipes s) g y" "g \<noteq> f" using g pipes_okD(2)[OF ok, of g y] by (auto simp: s' split: if_splits)
    then show ?thesis using p f(1) by (auto simp: file_linked_def s' without_def)
  qed
  show "pipe_wf q' \<and> pipe_linked (files s') Q q' \<and> mutexes s' (plock q') = Some \<lparr> mowner = 0, mutex = 0 \<rparr>" if q': "pipes s' Q = Some q'" for Q q'
  proof (cases "Q = odata x")
    case True
    then have q: "q' = without f p" using q' by (simp add: s')
    have "pipe_linked (files s') Q q'"
      using pipes_okD(7)[OF ok p] f other unfolding q True by (auto simp: pipe_linked_def s' without_def split: if_splits)
    then show ?thesis using pipes_okD(5,6)[OF ok p] q by (simp add: s')
  next
    case False
    then have q: "pipes s Q = Some q'" using q' by (simp add: s')
    have "pipe_linked (files s') Q q'"
      by (rule pipe_linked_mono[OF pipes_okD(7)[OF ok q]]) (use ends_unique[OF ok x(1) q False] in \<open>auto simp: s'\<close>)
    then show ?thesis using pipes_okD(5,6)[OF ok q] by (simp add: s')
  qed
qed

lemma pipes_ok_gone:
  assumes ok: "pipes_ok s" and x: "files s f = Some x" "ofops x = FOPS_PIPE" and p: "pipes s (odata x) = Some p"
    and s': "files s' = (files s)(f := None)" "mutexes s' = (mutexes s)(plock p := None)" "pipes s' = (pipes s)(odata x := None)"
    and other: "preader (without f p) = 0" "pwriter (without f p) = 0"
  shows "pipes_ok s'"
proof (rule pipes_okI[OF ok])
  have f: "f \<in> {preader p, pwriter p}" using pipe_fileE[OF ok x] p by auto
  show "files s' 0 = None" using pipes_okD(1)[OF ok] by (simp add: s')
  show "\<exists>q. pipes s Q = Some q \<and> pbuffer q' = pbuffer q \<and> plock q' = plock q" if "pipes s' Q = Some q'" for Q q'
    using that by (auto simp: s' split: if_splits)
  show "file_linked (pipes s') g y" if g: "files s' g = Some y" for g y
  proof -
    have l: "file_linked (pipes s) g y" "g \<noteq> f" "g \<noteq> 0" using g pipes_okD(1)[OF ok] pipes_okD(2)[OF ok, of g y] unfolding s' by (metis fun_upd_apply option.distinct(1))+
    then have "\<not> (ofops y = FOPS_PIPE \<and> odata y = odata x)" using p f other by (auto simp: file_linked_def without_def split: if_splits)
    then show ?thesis using l(1) by (auto simp: file_linked_def s')
  qed
  show "pipe_wf q \<and> pipe_linked (files s') Q q \<and> mutexes s' (plock q) = Some \<lparr> mowner = 0, mutex = 0 \<rparr>" if q': "pipes s' Q = Some q" for Q q
  proof -
    have q: "pipes s Q = Some q" "Q \<noteq> odata x" using q' by (auto simp: s' split: if_splits)
    have "pipe_linked (files s') Q q"
      by (rule pipe_linked_mono[OF pipes_okD(7)[OF ok q(1)]]) (use ends_unique[OF ok x(1) q] in \<open>auto simp: s'\<close>)
    moreover have "plock q \<noteq> plock p" using pipes_okD(9)[OF ok q(1) p q(2)] by (auto simp: pipe_addrs_def)
    ultimately show ?thesis using pipes_okD(5,6)[OF ok q(1)] by (simp add: s')
  qed
qed

lemma map_le_Some: "f \<subseteq>\<^sub>m g \<Longrightarrow> f a = Some v \<Longrightarrow> g a = Some v"
  by (metis domI map_le_def)

text \<open>What \<open>pipe_close\<close> does with a pipe whose ends it has found.\<close>

lemma pipe_close_unfold:
  assumes "files s f = Some x" "f \<noteq> 0" "odata x \<noteq> 0" "pipes s (odata x) = Some p" "f \<in> {preader p, pwriter p}"
  shows "pipe_close free fd f s = (let p' = (if ocount x = 1 then without f p else p); s1 = s\<lparr> pipes := (pipes s)(odata x \<mapsto> p') \<rparr> in
    if preader p' = 0 \<and> pwriter p' = 0 then do {
      s2 \<leftarrow> mutex_destroy free (plock p') s1;
      h \<leftarrow> free (pbuffer p') (mheap s2);
      h' \<leftarrow> free (odata x) h;
      Some (Inr 0, s2\<lparr> mheap := h', pipes := (pipes s2)(odata x := None) \<rparr>) }
    else Some (Inr 0, s1))"
proof -
  have e: "preader p = f \<or> pwriter p = f" using assms(5) by auto
  have w: "(if preader p = f then (if ocount x = 1 then p\<lparr> preader := 0 \<rparr> else p) else (if ocount x = 1 then p\<lparr> pwriter := 0 \<rparr> else p)) =
      (if ocount x = 1 then without f p else p)" by (simp add: without_def)
  show ?thesis unfolding pipe_close_def Let_def assms(1,4) Option.bind.bind_lunit w using assms(2,3) e by simp
qed

context allocator
begin

lemma pipe_close_ok:
  assumes ok: "pipes_ok s" and i: "inv (mheap s) B k" and own: "pblocks psz (pipes s) \<subseteq>\<^sub>m B"
    and x: "files s f = Some x" "ofops x = FOPS_PIPE" "0 < ocount x"
  shows "\<exists>s1 R. pipe_close free fd f s = Some (Inr 0, s1) \<and> same_fds s s1 \<and> files s1 = files s \<and> R \<subseteq> dom (pblocks psz (pipes s)) \<and>
    inv (mheap s1) (B |` (- R)) k \<and> pblocks psz (pipes s1) = pblocks psz (pipes s) |` (- R) \<and> pipes_ok (s1\<lparr> files := dropped f (files s) \<rparr>)"
proof -
  let ?P = "odata x"
  obtain p where p: "pipes s ?P = Some p" "f \<in> {preader p, pwriter p}" "f \<noteq> 0" "?P \<noteq> 0" "preader p \<noteq> pwriter p" by (rule pipe_fileE[OF ok x(1,2)])
  show ?thesis
  proof (cases "ocount x = 1")
    case False
    have "\<not> (preader p = 0 \<and> pwriter p = 0)" using p(5) by auto
    then have "pipe_close free fd f s = Some (Inr 0, s)"
      using False p(1) by (auto simp: pipe_close_unfold[OF x(1) p(3,4,1,2)] fun_upd_idem)
    moreover have "pipes_ok (s\<lparr> files := dropped f (files s) \<rparr>)" using pipes_ok_count[OF ok x(1)] x(1) False by (simp add: dropped_def)
    ultimately show ?thesis using i by (intro exI[of _ s] exI[of _ "{}"]) (simp add: same_fds_def restrict_map_def)
  next
    case True
    then have d: "dropped f (files s) = (files s)(f := None)" using x(1) by (simp add: dropped_def)
    note cl = pipe_close_unfold[OF x(1) p(3,4,1,2), of free fd] and one = True
    let ?s1 = "s\<lparr> pipes := (pipes s)(?P \<mapsto> without f p) \<rparr>"
    show ?thesis
    proof (cases "preader (without f p) = 0 \<and> pwriter (without f p) = 0")
      case False
      then have "pipe_close free fd f s = Some (Inr 0, ?s1)"
        using one unfolding cl by (auto simp: Let_def)
      moreover have "pipes_ok (?s1\<lparr> files := dropped f (files s) \<rparr>)" unfolding d
        by (rule pipes_ok_end[OF ok x(1,2) p(1)]) (use False in auto)
      moreover have "pblocks psz (pipes ?s1) = pblocks psz (pipes s)" using pblocks_same[of "pipes s" ?P p "without f p"] p(1) by simp
      ultimately show ?thesis using i by (intro exI[of _ ?s1] exI[of _ "{}"]) (simp add: same_fds_def restrict_map_def)
    next
      case True
      note b = pblocks_own[OF ok p(1), of psz] and dist = pipes_okD(8)[OF ok p(1)]
      have B: "B ?P = Some psz" "B (pbuffer p) = Some PIPE_BUFFER_SIZE" "B (plock p) = Some 8"
        using map_le_Some[OF own] b by simp_all
      obtain h1 where h1: "free (plock p) (mheap s) = Some h1" "inv h1 (B(plock p := None)) k" using free_law[OF i B(3)] by blast
      have "(B(plock p := None)) (pbuffer p) = Some PIPE_BUFFER_SIZE" using B dist by auto
      from free_law[OF h1(2) this] obtain h2 where h2: "free (pbuffer p) h1 = Some h2" "inv h2 ((B(plock p := None))(pbuffer p := None)) k" by blast
      have "((B(plock p := None))(pbuffer p := None)) ?P = Some psz" using B dist by auto
      from free_law[OF h2(2) this] obtain h3 where h3: "free ?P h2 = Some h3" "inv h3 ((B(plock p := None))(pbuffer p := None, ?P := None)) k" by blast
      let ?s2 = "s\<lparr> mheap := h3, mutexes := (mutexes s)(plock p := None), pipes := (pipes s)(?P := None) \<rparr>"
      have "(B(plock p := None))(pbuffer p := None, ?P := None) = B |` (- pipe_addrs ?P p)"
        by (auto simp: pipe_addrs_def restrict_map_def fun_eq_iff)
      moreover have "pipe_close free fd f s = Some (Inr 0, ?s2)"
        using one True h1(1) h2(1) h3(1) pipes_okD(6)[OF ok p(1)] unfolding cl by (simp add: mutex_destroy_def Let_def)
      moreover have "pipes_ok (?s2\<lparr> files := dropped f (files s) \<rparr>)" unfolding d
        by (rule pipes_ok_gone[OF ok x(1,2) p(1)]) (use True in auto)
      moreover have "pipe_addrs ?P p \<subseteq> dom (pblocks psz (pipes s))" using p(1) unfolding pblocks_dom subset_eq by blast
      ultimately show ?thesis using h3(2) pblocks_removed[OF ok p(1), of psz]
        by (intro exI[of _ ?s2] exI[of _ "pipe_addrs ?P p"]) (simp add: same_fds_def)
    qed
  qed
qed

end

interpretation pd: drivers "kmalloc (ops :: 'v vm_ops)" "kfree ops" kmem "\<lambda>m st. st\<lparr> kmem := m \<rparr>" kheap_ok
  "fs_ops (kfree ops) (sleep :: ('v kst, 'z) pipe_st_scheme \<Rightarrow> ('v kst, 'z) pipe_st_scheme) yield PIPE_BUF getchar putchar" pipes_ok "\<lambda>s. pblocks psz (pipes s)"
proof
  fix s :: "('v kst, 'z) pipe_st_scheme" and B k f x fd
  assume a: "pipes_ok s" "kheap_ok (mheap s) B k" "pblocks psz (pipes s) \<subseteq>\<^sub>m B" "files s f = Some x" "0 < ocount x"
  consider "ofops x = FOPS_STDIO" | "ofops x = FOPS_PIPE" using pipes_okD(2)[OF a(1,4)] by (auto simp: file_linked_def)
  then show "\<exists>c s1 R. op_close (fs_ops (kfree ops) sleep yield PIPE_BUF getchar putchar (ofops x)) = Some c \<and> c fd f s = Some (Inr 0, s1) \<and>
      same_fds s s1 \<and> files s1 = files s \<and> R \<subseteq> dom (pblocks psz (pipes s)) \<and> kheap_ok (mheap s1) (B |` (- R)) k \<and>
      pblocks psz (pipes s1) = pblocks psz (pipes s) |` (- R) \<and> pipes_ok (s1\<lparr> files := dropped f (files s) \<rparr>)"
  proof cases
    case 1
    then show ?thesis using a(2) pipes_ok_stdio[OF a(1,4) 1]
      by (intro exI[of _ stdio_close] exI[of _ s] exI[of _ "{}"]) (simp add: fs_ops_def stdio_ops_def stdio_close_def same_fds_def restrict_map_def)
  next
    case 2
    then show ?thesis using kal.pipe_close_ok[OF a(1-4) 2 a(5), of ops fd] by (simp add: fs_ops_def pipe_ops_def)
  qed
qed (use pipes_ok_frame pipes_ok_count in auto)

subsection \<open>Reading and writing between the ends\<close>

text \<open>Locking a free mutex, changing the pipe and unlocking leaves the mutex as it was.\<close>

lemma lock_free:
  assumes "m \<noteq> 0" "\<not> in_isr s" "mutexes s m = Some \<lparr> mowner = 0, mutex = 0 \<rparr>"
  shows "mutex_lock yield m s = Some (s\<lparr> mutexes := (mutexes s)(m \<mapsto> \<lparr> mowner = this_task s, mutex = 1 \<rparr>) \<rparr>)"
  using assms by (simp add: mutex_lock_def lock_loop.simps bts_def)

lemma unlock_held:
  assumes "m \<noteq> 0" "\<not> in_isr s" "mutexes s m = Some \<lparr> mowner = this_task s, mutex = 1 \<rparr>"
  shows "mutex_unlock m s = Some (s\<lparr> mutexes := (mutexes s)(m \<mapsto> \<lparr> mowner = 0, mutex = 0 \<rparr>) \<rparr>)"
  using assms by (simp add: mutex_unlock_def)

lemma pipes_ok_changed:
  assumes ok: "pipes_ok s" and p: "pipes s P = Some p" and p': "pipe_wf p'" "preader p' = preader p" "pwriter p' = pwriter p" "plock p' = plock p" "pbuffer p' = pbuffer p"
  shows "pipes_ok (s\<lparr> pipes := (pipes s)(P \<mapsto> p'), umem := m \<rparr>)" (is "pipes_ok ?s")
proof (rule pipes_okI[OF ok])
  show "file_linked (pipes ?s) f x" if "files ?s f = Some x" for f x
    using pipes_okD(2)[OF ok, of f x] that p p' by (auto simp: file_linked_def)
  show "pipe_wf q \<and> pipe_linked (files ?s) Q q \<and> mutexes ?s (plock q) = Some \<lparr> mowner = 0, mutex = 0 \<rparr>" if q: "pipes ?s Q = Some q" for Q q
  proof (cases "Q = P")
    case True
    then show ?thesis using q pipes_okD(6,7)[OF ok p] p' by (simp add: pipe_linked_def)
  next
    case False
    then show ?thesis using q pipes_okD(5-7)[OF ok, of Q q] by simp
  qed
  show "\<exists>q. pipes s Q = Some q \<and> pbuffer q' = pbuffer q \<and> plock q' = plock q" if "pipes ?s Q = Some q'" for Q q'
    using that p p' by (cases "Q = P") auto
qed (use pipes_okD(1)[OF ok] in simp)

lemma read_size_bound: "pipe_wf p \<Longrightarrow> read_size len p \<le> bytes_avail p"
  by (auto simp: read_size_def Let_def)

lemma pipe_read_ok:
  assumes ok: "pipes_ok s" "\<not> in_isr s" and f: "get_filp fd s = Some f" "files s f = Some x" "ofops x = FOPS_PIPE"
    and p: "pipes s (odata x) = Some p" "pwriter p \<noteq> f" "0 < bytes_avail p"
  shows "\<exists>s' p'. pipe_read sleep yield fd buf len s = Some (Inr (int (read_size len p)), s') \<and> pipes s' (odata x) = Some p' \<and>
    queue p' = drop (read_size len p) (queue p) \<and> umem s' = put_bytes buf (take (read_size len p) (queue p)) (umem s) \<and> pipes_ok s' \<and> same_fds s s' \<and> files s' = files s"
proof -
  note q = pipes_okD[OF ok(1)]
  obtain "odev x = DEV_PIPE" "odata x \<noteq> 0" "f \<noteq> 0" by (rule pipe_fileE[OF ok(1) f(2,3)])
  note x = this
  obtain p' where g: "pipe_get (wall_time s) buf len p (umem s) = Some (read_size len p, p', put_bytes buf (take (read_size len p) (queue p)) (umem s))"
      "pipe_wf p'" "queue p' = drop (read_size len p) (queue p)" "preader p' = preader p" "pwriter p' = pwriter p" "plock p' = plock p" "pbuffer p' = pbuffer p"
    using pipe_get_ok[OF q(5)[OF p(1)] p(3), of "wall_time s" buf len "umem s"] by blast
  define s1 where "s1 = s\<lparr> mutexes := (mutexes s)(plock p \<mapsto> \<lparr> mowner = this_task s, mutex = 1 \<rparr>) \<rparr>"
  have l: "mutex_lock yield (plock p) s = Some s1" unfolding s1_def by (rule lock_free[OF q(4)[OF p(1)] ok(2) q(6)[OF p(1)]])
  define s2 where "s2 = s1\<lparr> pipes := (pipes s1)(odata x \<mapsto> p'), umem := put_bytes buf (take (read_size len p) (queue p)) (umem s) \<rparr>"
  define s3 where "s3 = s\<lparr> pipes := (pipes s)(odata x \<mapsto> p'), umem := put_bytes buf (take (read_size len p) (queue p)) (umem s) \<rparr>"
  have "s2\<lparr> mutexes := (mutexes s2)(plock p \<mapsto> \<lparr> mowner = 0, mutex = 0 \<rparr>) \<rparr> = s3"
    using q(6)[OF p(1)] by (simp add: s1_def s2_def s3_def fun_upd_idem)
  moreover have "mutex_unlock (plock p) s2 = Some (s2\<lparr> mutexes := (mutexes s2)(plock p \<mapsto> \<lparr> mowner = 0, mutex = 0 \<rparr>) \<rparr>)"
    by (rule unlock_held[OF q(4)[OF p(1)]]) (use ok(2) in \<open>simp_all add: s1_def s2_def\<close>)
  ultimately have u: "mutex_unlock (plock p') s2 = Some s3" using g(6) by simp
  have w: "wait_data sleep (odata x) s = Some s" using p by (simp add: wait_data.simps)
  have s: "s32 (read_size len p) = int (read_size len p)"
    using read_size_bound[OF q(5)[OF p(1)], of len] pipe_wfD(7)[OF q(5)[OF p(1)]] by simp
  have e: "pipes s1 (odata x) = Some p" "wall_time s1 = wall_time s" "umem s1 = umem s" using p(1) by (simp_all add: s1_def)
  have "pipe_read sleep yield fd buf len s = Some (Inr (int (read_size len p)), s3)"
    unfolding pipe_read_def f(1,2) Option.bind.bind_lunit Let_def using p x w l g(1) u s e by (simp flip: s2_def)
  moreover have "pipes_ok s3" unfolding s3_def by (rule pipes_ok_changed[OF ok(1) p(1) g(2,4-7)])
  ultimately show ?thesis using g(3) by (intro exI[of _ s3] exI[of _ p']) (simp add: s3_def same_fds_def)
qed

lemma write_size_bound: "pipe_wf p \<Longrightarrow> bytes_avail p + len \<le> 65536 \<Longrightarrow> bytes_avail p + write_size len p \<le> 65536"
  by (auto simp: write_size_def Let_def min_def)

lemma pipe_write_ok:
  assumes ok: "pipes_ok s" "\<not> in_isr s" and f: "get_filp fd s = Some f" "files s f = Some x" "ofops x = FOPS_PIPE"
    and p: "pipes s (odata x) = Some p" "preader p \<noteq> f" "files s (preader p) = Some y" "0 < ocount y"
    and len: "0 < len" "bytes_avail p + len \<le> 65536"
  shows "\<exists>s' p'. pipe_write sleep yield PIPE_BUF fd buf len s = Some (Inr (int (write_size len p)), s') \<and> pipes s' (odata x) = Some p' \<and>
    queue p' = queue p @ map (umem s) [buf..<buf + write_size len p] \<and> umem s' = umem s \<and> pipes_ok s' \<and> same_fds s s' \<and> files s' = files s"
proof -
  note q = pipes_okD[OF ok(1)]
  obtain "odev x = DEV_PIPE" "odata x \<noteq> 0" "f \<noteq> 0" by (rule pipe_fileE[OF ok(1) f(2,3)])
  note x = this
  obtain p' where g: "pipe_put (wall_time s) buf len 0 p (umem s) = Some (write_size len p, p')"
      "pipe_wf p'" "queue p' = queue p @ map (umem s) [buf..<buf + write_size len p]" "preader p' = preader p" "pwriter p' = pwriter p" "plock p' = plock p" "pbuffer p' = pbuffer p"
    using pipe_put_ok[OF q(5)[OF p(1)] len(2), of "wall_time s" buf "umem s"] by blast
  define s1 where "s1 = s\<lparr> mutexes := (mutexes s)(plock p \<mapsto> \<lparr> mowner = this_task s, mutex = 1 \<rparr>) \<rparr>"
  have l: "mutex_lock yield (plock p) s = Some s1" unfolding s1_def by (rule lock_free[OF q(4)[OF p(1)] ok(2) q(6)[OF p(1)]])
  define s2 where "s2 = s1\<lparr> pipes := (pipes s1)(odata x \<mapsto> p') \<rparr>"
  define s3 where "s3 = s\<lparr> pipes := (pipes s)(odata x \<mapsto> p') \<rparr>"
  have "s2\<lparr> mutexes := (mutexes s2)(plock p \<mapsto> \<lparr> mowner = 0, mutex = 0 \<rparr>) \<rparr> = s3"
    using q(6)[OF p(1)] by (simp add: s1_def s2_def s3_def fun_upd_idem)
  moreover have "mutex_unlock (plock p) s2 = Some (s2\<lparr> mutexes := (mutexes s2)(plock p \<mapsto> \<lparr> mowner = 0, mutex = 0 \<rparr>) \<rparr>)"
    by (rule unlock_held[OF q(4)[OF p(1)]]) (use ok(2) in \<open>simp_all add: s1_def s2_def\<close>)
  ultimately have u: "mutex_unlock (plock p') s2 = Some s3" using g(6) by simp
  have pr: "preader p \<noteq> 0" using file_nonzero[OF ok(1) p(3)] .
  have nr: "no_reader p s = Some False" using p(3,4) pr by (simp add: no_reader_def)
  have "sub32 65536 (bytes_avail p) = 65536 - bytes_avail p" using pipe_wfD(7)[OF q(5)[OF p(1)]] by simp
  then have "\<not> sub32 65536 (bytes_avail p) < min PIPE_BUF len" using len(2) by auto
  then have w: "wait_room sleep PIPE_BUF len (odata x) s = Some s" by (subst wait_room.simps) (use p(1) in auto)
  have e: "pipes s1 (odata x) = Some p" "wall_time s1 = wall_time s" "umem s1 = umem s" using p(1) by (simp_all add: s1_def)
  have "\<not> write_size len p < len" using write_size_ge[OF q(5)[OF p(1)] len(2)] by simp
  moreover have "s32 (write_size len p) = int (write_size len p)" using write_size_bound[OF q(5)[OF p(1)] len(2)] by simp
  ultimately have fin: "write_loop sleep yield PIPE_BUF (odata x) buf len (write_size len p) s3 = Some (Inr (int (write_size len p)), s3)"
    by (simp add: write_loop.simps)
  have "write_loop sleep yield PIPE_BUF (odata x) buf len 0 s = Some (Inr (int (write_size len p)), s3)"
    by (subst write_loop.simps) (use p(1) len(1) nr w l g(1) u e fin in \<open>simp flip: s2_def\<close>)
  then have "pipe_write sleep yield PIPE_BUF fd buf len s = Some (Inr (int (write_size len p)), s3)"
    unfolding pipe_write_def f(1,2) Option.bind.bind_lunit using p x by simp
  moreover have "pipes_ok s3"
    using pipes_ok_changed[OF ok(1) p(1) g(2,4-7), of "umem s"] by (simp add: s3_def)
  ultimately show ?thesis using g(3) by (intro exI[of _ s3] exI[of _ p']) (simp add: s3_def same_fds_def)
qed

subsection \<open>Concrete states\<close>

text \<open>A task whose descriptor 0 is a standard stream, whose open file lies in a block of the heap; and a task with both ends of a
  pipe that holds ten bytes, one before and nine behind the wrap of its buffer.\<close>

definition fs1 :: "unit kst pipe_st" where
  "fs1 = \<lparr> mheap = heap3, mutexes = Map.empty, in_isr = False, task_switching = True, this_task = 5, tasks = [5],
     fdtable = (\<lambda>t. 3221749772 # replicate 139 0), fdblock = (\<lambda>t. 3221749812), pwd = (\<lambda>t. None), link_count = (\<lambda>t. 0),
     files = [3221749772 \<mapsto> zero_file\<lparr> ocount := 1, ofops := FOPS_STDIO \<rparr>], umem = (\<lambda>a. 0), pipes = Map.empty, wall_time = 0 \<rparr>"

definition pipe_a :: pipe where
  "pipe_a = \<lparr> pbuffer = 1000, preader = 100, pwriter = 200, read_pos = 66535, write_pos = 1009, max_pos = 66536, bytes_avail = 10, plock = 400,
     pmtime = 0, patime = 0, pbytes = (\<lambda>i. 7) \<rparr>"

definition fs2 :: "unit kst pipe_st" where
  "fs2 = fs1\<lparr> mutexes := [400 \<mapsto> \<lparr> mowner = 0, mutex = 0 \<rparr>], fdtable := (\<lambda>t. [100, 200] @ replicate 138 0),
     files := [100 \<mapsto> zero_file\<lparr> ocount := 1, odev := DEV_PIPE, ofops := FOPS_PIPE, odata := 300 \<rparr>,
       200 \<mapsto> zero_file\<lparr> ocount := 1, odev := DEV_PIPE, ofops := FOPS_PIPE, odata := 300 \<rparr>],
     pipes := [300 \<mapsto> pipe_a] \<rparr>"

lemma count_zeros: "f \<noteq> 0 \<Longrightarrow> count_list (replicate n 0) f = 0"
  by (simp add: count_list_0_iff)

lemma fs1_refs: "f \<noteq> 0 \<Longrightarrow> refs fs1 f = (if f = 3221749772 then 1 else 0)"
  by (simp add: refs_def fs1_def count_zeros)

lemma fs1_heap: "kheap_ok heap3 [3221749772 \<mapsto> 8] 1600"
proof -
  have "block areas3 3221749772 8" by (rule blockI[of 3221749760 40]) simp_all
  then have "block areas3 p n \<and> p mod 4 = 0 \<and> 0 < n" if "[3221749772 \<mapsto> 8] p = Some n" for p n
    using that by (auto split: if_splits)
  then show ?thesis
    unfolding kheap_ok_def heap_serves_def
    by (intro exI[of _ areas3] conjI heap3_inv) (auto simp: no_adjacent_free_Cons concrete_heap heap3_def)
qed

lemma fs1_world: "pd.world 40 8 fs1 [3221749772 \<mapsto> 8] 1600"
proof -
  have "fd_ok fs1" unfolding fd_ok_def using fs1_refs by (auto simp: fs1_def zero_file_def)
  moreover have "pipes_ok fs1" by (simp add: pipes_ok_def file_linked_def fs1_def)
  moreover have "kheap_ok (mheap fs1) [3221749772 \<mapsto> 8] 1600" using fs1_heap by (simp add: fs1_def)
  moreover have "file_blocks 8 (files fs1) (pblocks 40 (pipes fs1)) [3221749772 \<mapsto> 8]"
    by (simp add: file_blocks_def fs1_def pblocks_def zero_file_def)
  moreover have "pblocks 40 (pipes fs1) \<subseteq>\<^sub>m [3221749772 \<mapsto> 8]" by (simp add: map_le_def pblocks_def fs1_def dom_def)
  ultimately show ?thesis by (simp add: pd.world_def)
qed

lemma pipe_a_wf: "pipe_wf pipe_a" "roff pipe_a = 65535" "woff pipe_a = 9" "bytes_avail pipe_a = 10"
  by (simp_all add: pipe_wf_def pipe_a_def roff_def woff_def)

lemma pipe_a_queue: "queue pipe_a = replicate 10 7"
  by (rule nth_equalityI) (simp_all add: queue_def ring_nth pipe_a_def)

lemma fs2_ok: "pipes_ok fs2"
  using pipe_a_wf(1) by (auto simp: pipes_ok_def file_linked_def pipe_linked_def fs2_def fs1_def zero_file_def pipe_a_def split: if_splits)

subsection \<open>Properties\<close>

text \<open>C31.  No sequence of \<open>dup\<close>, \<open>dup2\<close> and \<open>close\<close> calls on standard streams and pipes, with whatever descriptors, gets stuck, as long as
  no \<open>dup2\<close> names the same descriptor twice: every call returns, and afterwards the \<open>count\<close> of every open file is the number of
  table entries, over all tasks, that point to it, no entry points to a file that is gone, and no file without an entry is left.\<close>

theorem descriptors_exact:
  assumes "pd.world psz osz s B k" "this_task s \<in> set (tasks s)" "\<forall>c \<in> set cs. \<not> self_dup2 c"
  shows "\<exists>rs s'. fd_calls (kfree ops) (fs_ops (kfree ops) sleep yield PIPE_BUF getchar putchar) cs s = Some (rs, s') \<and> length rs = length cs \<and>
    (\<forall>f. f \<noteq> 0 \<longrightarrow> (case files s' f of None \<Rightarrow> refs s' f = 0 | Some x \<Rightarrow> ocount x = int (refs s' f) \<and> 0 < refs s' f)) \<and> pipes_ok s'"
proof -
  obtain rs s' B' where c: "fd_calls (kfree ops) (fs_ops (kfree ops) sleep yield PIPE_BUF getchar putchar) cs s = Some (rs, s')"
      "length rs = length cs" "pd.world psz osz s' B' k"
    using pd.fd_calls_ok[OF assms] by blast
  note ok = pd.worldD(1)[OF c(3)]
  have "case files s' f of None \<Rightarrow> refs s' f = 0 | Some x \<Rightarrow> ocount x = int (refs s' f) \<and> 0 < refs s' f" if "f \<noteq> 0" for f
    using fd_okD(4,6)[OF ok, of f] that by (cases "files s' f") auto
  then show ?thesis using c pd.worldD(2)[OF c(3)] by blast
qed

theorem descriptors_exact_witness:
  "\<exists>rs s'. fd_calls (kfree no_vm) (fs_ops (kfree no_vm) id id 512 (\<lambda>s. None) (\<lambda>c s. s)) [Dup 0, Dup2 0 7, Close 0, Close 1, Close 7, Close 7] fs1 = Some (rs, s') \<and>
    length rs = 6 \<and> pipes_ok s'"
  using descriptors_exact[OF fs1_world, of "[Dup 0, Dup2 0 7, Close 0, Close 1, Close 7, Close 7]" no_vm id id 512 "\<lambda>s. None" "\<lambda>c s. s"]
  by (force simp: fs1_def)

text \<open>C32.  After a task has forked and its child has been destroyed, every open file has the references it had before, provided that
  the parent has no file at or beyond index 128: \<open>fork\<close> counts each reference once more, and the destruction closes each once.\<close>

theorem fork_exit_roundtrip:
  assumes "pd.world psz osz s B k" "this_task s \<in> set (tasks s)" "set (drop 128 (fdtable s (this_task s))) \<subseteq> {0}"
    and "child \<noteq> 0" "child \<notin> set (tasks s)" "0 < osz" "osz * 128 + 64 \<le> k"
  shows "\<exists>s1 s2. fork_fdtable (kmalloc ops) osz child s = Some s1 \<and>
    destroy_fdtable (kfree ops) (fs_ops (kfree ops) sleep yield PIPE_BUF getchar putchar) child s1 = Some s2 \<and> tasks s2 = tasks s \<and>
    (\<forall>u \<in> set (tasks s). fdtable s2 u = fdtable s u) \<and> (\<forall>f. map_option ocount (files s2 f) = map_option ocount (files s f))"
  using pd.fork_destroy[OF assms] .

theorem fork_exit_roundtrip_witness:
  "\<exists>s1 s2. fork_fdtable (kmalloc no_vm) 8 9 fs1 = Some s1 \<and>
    destroy_fdtable (kfree no_vm) (fs_ops (kfree no_vm) id id 512 (\<lambda>s. None) (\<lambda>c s. s)) 9 s1 = Some s2 \<and> tasks s2 = [5] \<and> files s2 3221749772 \<noteq> None"
proof -
  have "set (drop 128 (fdtable fs1 (this_task fs1))) \<subseteq> {0}" by (auto simp: fs1_def dest: in_set_dropD)
  then obtain s1 s2 where "fork_fdtable (kmalloc no_vm) 8 9 fs1 = Some s1"
      "destroy_fdtable (kfree no_vm) (fs_ops (kfree no_vm) id id 512 (\<lambda>s. None) (\<lambda>c s. s)) 9 s1 = Some s2" "tasks s2 = tasks fs1"
      "\<forall>f. map_option ocount (files s2 f) = map_option ocount (files fs1 f)"
    using fork_exit_roundtrip[OF fs1_world, of 9 no_vm id id 512 "\<lambda>s. None" "\<lambda>c s. s"] by (auto simp: fs1_def)
  moreover from this(4) have "files s2 3221749772 \<noteq> None" by (metis fs1_def map_option_is_None option.distinct(1) fun_upd_same pipe_st.select_convs vfs.select_convs)
  ultimately show ?thesis by (auto simp: fs1_def)
qed

text \<open>\<open>dup\<close> returns \<open>-EBADF\<close> for a descriptor that is not open, \<open>-EMFILE\<close> when all 128 descriptors are taken, and otherwise makes the lowest free
  descriptor refer to the same file; the heap and all other descriptors are unchanged.\<close>

theorem dup_lowest_free:
  assumes "pd.world psz osz s B k" "this_task s \<in> set (tasks s)"
  shows "\<exists>r s'. dup fd s = Some (r, s') \<and> pd.world psz osz s' B k \<and>
    (if fd < 0 \<or> fd > 128 \<or> fdtable s (this_task s) ! nat fd = 0 then r = Inl EBADF \<and> s' = s
     else if \<forall>i < 128. fdtable s (this_task s) ! i \<noteq> 0 then r = Inl EMFILE \<and> s' = s
     else \<exists>i < 128. r = Inr (int i) \<and> fdtable s (this_task s) ! i = 0 \<and> (\<forall>j < i. fdtable s (this_task s) ! j \<noteq> 0) \<and>
       fdtable s' = (fdtable s)(this_task s := (fdtable s (this_task s))[i := fdtable s (this_task s) ! nat fd]))"
  using pd.dup_ok[OF assms] .

theorem dup_lowest_free_witness:
  "\<exists>s'. dup 0 fs1 = Some (Inr 1, s') \<and> pd.world 40 8 s' [3221749772 \<mapsto> 8] 1600"
proof -
  let ?tb = "fdtable fs1 (this_task fs1)"
  have e: "?tb ! 0 \<noteq> 0" "?tb ! 1 = 0" "this_task fs1 \<in> set (tasks fs1)" by (simp_all add: fs1_def)
  have n: "\<not> ((0 :: int) < 0 \<or> (0 :: int) > 128 \<or> ?tb ! nat 0 = 0)" using e(1) by simp
  have "1 < (128 :: nat)" by simp
  then have n2: "\<not> (\<forall>i < 128. ?tb ! i \<noteq> 0)" using e(2) by blast
  obtain r s' i where d: "dup 0 fs1 = Some (r, s')" "pd.world 40 8 s' [3221749772 \<mapsto> 8] 1600" "r = Inr (int i)" "?tb ! i = 0" "\<forall>j < i. ?tb ! j \<noteq> 0"
    using dup_lowest_free[OF fs1_world e(3), of 0, unfolded if_not_P[OF n] if_not_P[OF n2]] by blast
  have "i = 1" using d(4,5) e(1,2) by (metis One_nat_def less_one linorder_neqE_nat)
  then show ?thesis using d by auto
qed



text \<open>C37.  When a task holds a file at index 128, which \<open>new_filp\<close> hands out and \<open>fork\<close> copies, the fork does not count the child's reference: the
  counts are no longer those of the tables.\<close>

theorem fork_misses_last_entry:
  assumes "pd.world psz osz s B k" "this_task s \<in> set (tasks s)" "fdtable s (this_task s) ! 128 \<noteq> 0"
    and "child \<notin> set (tasks s)" "0 < osz" "osz * 128 + 64 \<le> k"
  shows "\<exists>s'. fork_fdtable (kmalloc ops) osz child s = Some s' \<and> \<not> fd_ok s'"
  using pd.fork_fdtable_misses[OF assms] .

text \<open>A task whose only file is at index 128.\<close>

definition fs3 :: "unit kst pipe_st" where
  "fs3 = fs1\<lparr> fdtable := (\<lambda>t. replicate 128 0 @ [3221749772]) \<rparr>"

lemma fs3_world: "pd.world 40 8 fs3 [3221749772 \<mapsto> 8] 1600"
proof -
  have "refs fs3 f = (if f = 3221749772 then 1 else 0)" if "f \<noteq> 0" for f using that by (simp add: refs_def fs3_def fs1_def count_zeros)
  then have "fd_ok fs3" unfolding fd_ok_def by (auto simp: fs3_def fs1_def zero_file_def)
  then show ?thesis using fs1_world by (simp add: pd.world_def fs3_def pipes_ok_def)
qed

theorem fork_misses_last_entry_witness:
  "\<exists>s'. fork_fdtable (kmalloc no_vm) 8 9 fs3 = Some s' \<and> \<not> fd_ok s'"
  by (rule fork_misses_last_entry[OF fs3_world]) (simp_all add: fs3_def fs1_def nth_append)


lemma fs2_fd: "get_filp 0 fs2 = Some 100" "get_filp 1 fs2 = Some 200"
  by (simp_all add: get_filp_def do_get_filp_def fs2_def fs1_def)

lemma fs2_files: "\<not> in_isr fs2" "files fs2 100 = Some (zero_file\<lparr> ocount := 1, odev := DEV_PIPE, ofops := FOPS_PIPE, odata := 300 \<rparr>)"
  "files fs2 200 = Some (zero_file\<lparr> ocount := 1, odev := DEV_PIPE, ofops := FOPS_PIPE, odata := 300 \<rparr>)" "pipes fs2 300 = Some pipe_a" "umem fs2 = (\<lambda>a. 0)"
  "preader pipe_a = 100" "pwriter pipe_a = 200"
  by (simp_all add: fs2_def fs1_def pipe_a_def)


text \<open>C34.  A read from a pipe that holds data delivers the first bytes of the queue, in order, to the caller's buffer, removes exactly these, and returns their number,
  which is \<open>read_size\<close>; it touches nothing else.\<close>

theorem pipe_read_delivers:
  assumes "pipes_ok s" "\<not> in_isr s" "get_filp fd s = Some f" "files s f = Some x" "ofops x = FOPS_PIPE"
    "pipes s (odata x) = Some p" "pwriter p \<noteq> f" "0 < bytes_avail p"
  shows "\<exists>s' p'. pipe_read sleep yield fd buf len s = Some (Inr (int (read_size len p)), s') \<and> pipes s' (odata x) = Some p' \<and>
    queue p' = drop (read_size len p) (queue p) \<and> umem s' = put_bytes buf (take (read_size len p) (queue p)) (umem s) \<and> pipes_ok s' \<and> same_fds s s' \<and> files s' = files s"
  using pipe_read_ok[OF assms] .

theorem pipe_read_delivers_witness:
  "\<exists>s' p'. pipe_read id id 0 5000 1 fs2 = Some (Inr 1, s') \<and> pipes s' 300 = Some p' \<and> queue p' = replicate 9 7 \<and> umem s' 5000 = 7 \<and> umem s' 5001 = 0"
proof -
  have "read_size 1 pipe_a = 1" by (simp add: read_size_def pipe_a_wf)
  then show ?thesis
    using pipe_read_delivers[OF fs2_ok fs2_files(1) fs2_fd(1) fs2_files(2), of pipe_a id id 5000 1] fs2_files pipe_a_wf(4) pipe_a_queue
    by (auto simp: put_bytes_def)
qed

text \<open>C35.  When the data wrap around the end of the buffer, the second copy of a read takes up to \<open>count\<close> bytes again instead of the rest: a read of \<open>len\<close> bytes stores more than
  \<open>len\<close> bytes, beyond the caller's buffer, and returns that larger number.\<close>

theorem pipe_read_overruns:
  assumes "pipes_ok s" "\<not> in_isr s" "get_filp fd s = Some f" "files s f = Some x" "ofops x = FOPS_PIPE"
    "pipes s (odata x) = Some p" "pwriter p \<noteq> f" "65536 - roff p < len" "65536 - roff p + len \<le> bytes_avail p"
  shows "\<exists>s'. pipe_read sleep yield fd buf len s = Some (Inr (int (65536 - roff p + len)), s') \<and> int len < int (65536 - roff p + len) \<and>
    umem s' (buf + len) = queue p ! len"
proof -
  have wf: "pipe_wf p" by (rule pipes_okD(5)[OF assms(1,6)])
  have r: "read_size len p = 65536 - roff p + len" using assms(8,9) by (simp add: read_size_def Let_def)
  have lt: "0 < 65536 - roff p" using pipe_wfD(4)[OF wf] by simp
  have "0 < bytes_avail p" using assms(9) lt by linarith
  from pipe_read_ok[OF assms(1-7) this, of sleep yield buf len] obtain s' where
    s': "pipe_read sleep yield fd buf len s = Some (Inr (int (read_size len p)), s')" "umem s' = put_bytes buf (take (read_size len p) (queue p)) (umem s)" by blast
  have "umem s' (buf + len) = queue p ! len" unfolding s'(2) r put_bytes_def using assms(9) lt by auto
  then show ?thesis using s'(1) lt unfolding r by auto
qed

theorem pipe_read_overruns_witness: "\<exists>s'. pipe_read id id 0 5000 4 fs2 = Some (Inr 5, s') \<and> umem s' 5004 = 7"
  using pipe_read_overruns[OF fs2_ok fs2_files(1) fs2_fd(1) fs2_files(2), of pipe_a 4 id id 5000] fs2_files pipe_a_wf pipe_a_queue by auto

end
