(* ===== verification/Ktime.thy ===== *)
theory Ktime
  imports Kstdlib Vfs "HOL-Library.Signed_Division"
begin

text \<open>
  The clock: \<open>src/kernel/time.c\<close>, and the conversion of time stamps of the FAT file system in \<open>src/kernel/fat/fat.c\<close>.
  The real-time clock chip is an argument: \<open>chip r h\<close> selects register \<open>r\<close> through port 0x70, reads it through
  port 0x71 and goes on to the next state of the hardware.

  The seconds that \<open>kern_mktime\<close> computes are compared with the formula of the POSIX standard.
\<close>

subsection \<open>Reading the clock\<close>

text \<open>The fields of \<open>Time\<close> have 16 bits (the year) and 8 bits; the stores truncate.\<close>

record Time =
  tyear :: nat
  tmonth :: nat
  tday :: nat
  thour :: nat
  tminute :: nat
  tsecond :: nat

abbreviation (input) u8 :: "nat \<Rightarrow> nat" where "u8 n \<equiv> n mod 256"
abbreviation (input) u16 :: "nat \<Rightarrow> nat" where "u16 n \<equiv> n mod 65536"

abbreviation (input) REG_YEAR :: nat where "REG_YEAR \<equiv> 9"
abbreviation (input) REG_MONTH :: nat where "REG_MONTH \<equiv> 8"
abbreviation (input) REG_DAYOFMONTH :: nat where "REG_DAYOFMONTH \<equiv> 7"
abbreviation (input) REG_HOUR :: nat where "REG_HOUR \<equiv> 4"
abbreviation (input) REG_MINUTE :: nat where "REG_MINUTE \<equiv> 2"
abbreviation (input) REG_SECOND :: nat where "REG_SECOND \<equiv> 0"
abbreviation (input) REG_STATUS_B :: nat where "REG_STATUS_B \<equiv> 11"

type_synonym 'h rtc = "nat \<Rightarrow> 'h \<Rightarrow> 8 word \<times> 'h"

definition rtc_update_in_progress :: "'h rtc \<Rightarrow> 'h \<Rightarrow> bool \<times> 'h" where
  "rtc_update_in_progress chip h = (let (v, h') = chip 10 h in (bit v 7, h'))"

definition rtc_get_reg :: "'h rtc \<Rightarrow> nat \<Rightarrow> 'h \<Rightarrow> (nat \<times> 'h) option" where
  "rtc_get_reg chip reg h = do {
     assertK (reg \<le> 11);
     let (v, h') = chip reg h;
     Some (unat v, h') }"

partial_function (option) rtc_wait :: "'h rtc \<Rightarrow> 'h \<Rightarrow> 'h option" where
  "rtc_wait chip h =
    (let (busy, h1) = rtc_update_in_progress chip h in if busy then rtc_wait chip h1 else Some h1)"

definition rtc_get_raw :: "'h rtc \<Rightarrow> 'h \<Rightarrow> (Time \<times> 'h) option" where
  "rtc_get_raw chip h = do {
     h0 \<leftarrow> rtc_wait chip h;
     (y, h1) \<leftarrow> rtc_get_reg chip REG_YEAR h0;
     (mo, h2) \<leftarrow> rtc_get_reg chip REG_MONTH h1;
     (d, h3) \<leftarrow> rtc_get_reg chip REG_DAYOFMONTH h2;
     (ho, h4) \<leftarrow> rtc_get_reg chip REG_HOUR h3;
     (mi, h5) \<leftarrow> rtc_get_reg chip REG_MINUTE h4;
     (s, h6) \<leftarrow> rtc_get_reg chip REG_SECOND h5;
     Some (\<lparr> tyear = y, tmonth = mo, tday = d, thour = ho, tminute = mi, tsecond = s \<rparr>, h6) }"

definition bcd_to_bin :: "nat \<Rightarrow> nat" where
  "bcd_to_bin x = (x div 16) * 10 + x mod 16"

definition bcd_fields :: "Time \<Rightarrow> Time" where
  "bcd_fields t =
    (let y = u16 (bcd_to_bin (tyear t))
     in \<lparr> tyear = u16 (y + (if y < 12 then 2100 else 2000)), tmonth = u8 (bcd_to_bin (tmonth t)),
          tday = u8 (bcd_to_bin (tday t)), thour = u8 (bcd_to_bin (thour t)),
          tminute = u8 (bcd_to_bin (tminute t)), tsecond = u8 (bcd_to_bin (tsecond t)) \<rparr>)"

definition rtc_reformat :: "'h rtc \<Rightarrow> Time \<Rightarrow> 'h \<Rightarrow> (Time \<times> 'h) option" where
  "rtc_reformat chip t h = do {
     (regb, h1) \<leftarrow> rtc_get_reg chip REG_STATUS_B h;
     let is_bcd = \<not> bit regb 2;
     let is_24_hour = bit regb 1;
     let time_is_pm = (\<not> is_24_hour \<and> bit (thour t) 7);
     let t1 = (if time_is_pm then t\<lparr> thour := thour t - 128 \<rparr> else t);
     let t2 = (if is_bcd then bcd_fields t1 else t1);
     Some (if \<not> is_24_hour then
             if time_is_pm \<and> thour t2 = 12 then t2\<lparr> thour := 0 \<rparr>
             else if time_is_pm then t2\<lparr> thour := u8 (thour t2 + 12) \<rparr> else t2
           else t2, h1) }"

text \<open>The clock is read until two readings agree; the reading before the first is all zero.\<close>

partial_function (option) get_time_loop :: "'h rtc \<Rightarrow> Time \<Rightarrow> 'h \<Rightarrow> (Time \<times> 'h) option" where
  "get_time_loop chip prev h = do {
     h1 \<leftarrow> rtc_wait chip h;
     (t, h2) \<leftarrow> rtc_get_raw chip h1;
     if t \<noteq> prev then get_time_loop chip t h2 else Some (t, h2) }"

definition time_zero :: Time where
  "time_zero = \<lparr> tyear = 0, tmonth = 0, tday = 0, thour = 0, tminute = 0, tsecond = 0 \<rparr>"

definition get_time :: "'h rtc \<Rightarrow> 'h \<Rightarrow> (Time \<times> 'h) option" where
  "get_time chip h = do {
     (t, h1) \<leftarrow> get_time_loop chip time_zero h;
     rtc_reformat chip t h1 }"

subsection \<open>Seconds since 1970\<close>

text \<open>Years count from 1900 and months from 0.\<close>

definition div_c :: "int \<Rightarrow> int \<Rightarrow> int \<times> int" where
  "div_c a b = (if b = 0 then (0, 0) else (a sdiv b, a smod b))"

definition DAYS_IN_MONTH :: "nat list" where
  "DAYS_IN_MONTH = [31, 28, 31, 30, 31, 30, 31, 31, 30, 31, 30, 31]"

definition days_in_month :: "nat \<Rightarrow> nat \<Rightarrow> nat option" where
  "days_in_month days_in_feb x = (if x = 1 then Some days_in_feb else rd DAYS_IN_MONTH x)"

definition DAYS_BEFORE_MONTH :: "nat list" where
  "DAYS_BEFORE_MONTH = [0, 31, 59, 90, 120, 151, 181, 212, 243, 273, 304, 334]"

definition ISLEAP :: "nat \<Rightarrow> bool" where
  "ISLEAP y \<longleftrightarrow> y mod 4 = 0 \<and> (y mod 100 \<noteq> 0 \<or> (y + 1900) mod 400 = 0)"

definition DAYS_IN_YEAR :: "nat \<Rightarrow> nat" where
  "DAYS_IN_YEAR y = (if ISLEAP y then 366 else 365)"

partial_function (option) validate_days :: "nat \<Rightarrow> Time \<Rightarrow> Time option" where
  "validate_days days_in_feb t = do {
     d \<leftarrow> days_in_month days_in_feb (tmonth t);
     if tday t > d then do {
       let t1 = t\<lparr> tday := tday t - d, tmonth := u8 (tmonth t + 1) \<rparr>;
       if tmonth t1 = 12 then do {
         let t2 = t1\<lparr> tyear := u16 (tyear t1 + 1), tmonth := 0 \<rparr>;
         validate_days (if DAYS_IN_YEAR (tyear t2) = 366 then 29 else 28) t2 }
       else validate_days days_in_feb t1 }
     else Some t }"

definition validate_structure :: "Time \<Rightarrow> Time option" where
  "validate_structure t = do {
     let t1 = (if tsecond t > 59 then t\<lparr> tminute := u8 (tminute t + nat (fst (div_c (int (tsecond t)) 60))) \<rparr> else t);
     let t2 = (if tminute t1 > 59 then t1\<lparr> thour := u8 (thour t1 + nat (fst (div_c (int (tminute t1)) 60))) \<rparr> else t1);
     let t3 = (if thour t2 > 23 then t2\<lparr> tday := u8 (tday t2 + nat (fst (div_c (int (thour t2)) 24))) \<rparr> else t2);
     let t4 = (if tmonth t3 > 11 then t3\<lparr> tyear := u16 (tyear t3 + nat (fst (div_c (int (tmonth t3)) 12))) \<rparr> else t3);
     validate_days (if DAYS_IN_YEAR (tyear t4) = 366 then 29 else 28) t4 }"

definition kern_mktime :: "Time \<Rightarrow> (int \<times> Time) option" where
  "kern_mktime t0 = do {
     t \<leftarrow> validate_structure t0;
     let tim = int (tsecond t) + int (tminute t) * 60 + int (thour t) * 3600;
     before \<leftarrow> rd DAYS_BEFORE_MONTH (tmonth t);
     let days0 = int (tday t) - 1 + int before;
     let days1 = (if tmonth t > 1 \<and> DAYS_IN_YEAR (tyear t) = 366 then days0 + 1 else days0);
     let days2 =
       (if tyear t > 70 then foldl (\<lambda>d y. d + int (DAYS_IN_YEAR y)) days1 [70..<tyear t]
        else if tyear t < 70 then
          foldl (\<lambda>d y. d - int (DAYS_IN_YEAR y)) days1 (rev [Suc (tyear t)..<70]) - int (DAYS_IN_YEAR (tyear t))
        else days1);
     Some (wrap32 (tim + wrap32 (days2 * 86400)), t) }"

record timeval =
  tv_sec :: int
  tv_usec :: int

text \<open>The time zone is one hour ahead of the clock: \<open>gettimeofday\<close> adds it before the conversion.\<close>

definition gettimeofday :: "'h rtc \<Rightarrow> nat \<Rightarrow> 'h \<Rightarrow> ((errno + timeval) \<times> 'h) option" where
  "gettimeofday chip tp h =
    (if tp = 0 then Some (Inl EFAULT, h)
     else do {
       (kt, h1) \<leftarrow> get_time chip h;
       assertK (tmonth kt > 0);
       let kt1 = kt\<lparr> tmonth := tmonth kt - 1, tyear := u16 (tyear kt + 65536 - 1900), thour := u8 (thour kt + 1) \<rparr>;
       (t, kt2) \<leftarrow> kern_mktime kt1;
       Some (Inr \<lparr> tv_sec = t, tv_usec = 0 \<rparr>, h1) })"

definition kern_time :: "'h rtc \<Rightarrow> 'h \<Rightarrow> (int \<times> 'h) option" where
  "kern_time chip h = do {
     (r, h1) \<leftarrow> gettimeofday chip 1 h;
     case r of Inr tv \<Rightarrow> Some (tv_sec tv, h1) | Inl _ \<Rightarrow> None }"

text \<open>The stamps in a directory entry of the FAT file system; the entry holds no time of the last access.\<close>

record fat32_date_t =
  fday :: nat
  fmonth :: nat
  fyear :: nat

record fat32_time_t =
  fsecond :: nat
  fminute :: nat
  fhour :: nat

record fat_stamps =
  mod_date :: fat32_date_t
  mod_time :: fat32_time_t
  create_date :: fat32_date_t
  create_time :: fat32_time_t
  access_date :: fat32_date_t

abbreviation (input) FAT_MTIME :: nat where "FAT_MTIME \<equiv> 0"
abbreviation (input) FAT_CTIME :: nat where "FAT_CTIME \<equiv> 1"
abbreviation (input) FAT_ATIME :: nat where "FAT_ATIME \<equiv> 2"

definition fat_calc_time :: "fat_stamps \<Rightarrow> nat \<Rightarrow> int option" where
  "fat_calc_time e type = do {
     (fdate, ftime) \<leftarrow> (if type = FAT_MTIME then Some (mod_date e, Some (mod_time e))
       else if type = FAT_CTIME then Some (create_date e, Some (create_time e))
       else if type = FAT_ATIME then Some (access_date e, None) else None);
     let ts = \<lparr> tyear = u16 (1980 + fyear fdate - 1900), tmonth = u8 (fmonth fdate + 256 - 1), tday = fday fdate,
                thour = 0, tminute = 0, tsecond = 0 \<rparr>;
     let ts1 = (case ftime of None \<Rightarrow> ts
       | Some f \<Rightarrow> ts\<lparr> thour := fhour f, tminute := fminute f, tsecond := u8 (fsecond f * 2) \<rparr>);
     (t, ts2) \<leftarrow> kern_mktime ts1;
     Some t }"

subsection \<open>The calendar\<close>

text \<open>The Gregorian calendar and the formula for \<open>Seconds Since the Epoch\<close> of the POSIX standard, with a day of the year
  that is computed from the lengths of the months.\<close>

definition leap :: "nat \<Rightarrow> bool" where
  "leap Y \<longleftrightarrow> 4 dvd Y \<and> (100 dvd Y \<longrightarrow> 400 dvd Y)"

definition month_length :: "nat \<Rightarrow> nat \<Rightarrow> nat" where
  "month_length Y m = (if m = 1 then (if leap Y then 29 else 28) else if m \<in> {3, 5, 8, 10} then 30 else 31)"

definition tm_yday :: "Time \<Rightarrow> int" where
  "tm_yday t = int (\<Sum>m\<leftarrow>[0..<tmonth t]. month_length (tyear t + 1900) m) + int (tday t) - 1"

definition year_days :: "int \<Rightarrow> int" where
  "year_days y = (y - 70) * 365 + (y - 69) div 4 - (y - 1) div 100 + (y + 299) div 400"

definition posix_seconds :: "Time \<Rightarrow> int" where
  "posix_seconds t = int (tsecond t) + int (tminute t) * 60 + int (thour t) * 3600 +
     (tm_yday t + year_days (int (tyear t))) * 86400"

definition calendar_day :: "Time \<Rightarrow> bool" where
  "calendar_day t \<longleftrightarrow> tmonth t < 12 \<and> 1 \<le> tday t \<and> tday t \<le> month_length (tyear t + 1900) (tmonth t)"

definition calendar_time :: "Time \<Rightarrow> bool" where
  "calendar_time t \<longleftrightarrow> calendar_day t \<and> thour t < 24 \<and> tminute t < 60 \<and> tsecond t < 60"

lemma ISLEAP_leap: "ISLEAP y = leap (y + 1900)"
  using dvd_add_left_iff[of 4 1900 y] dvd_add_left_iff[of 100 1900 y]
  unfolding ISLEAP_def leap_def mod_eq_0_iff_dvd by simp

lemma div_step:
  fixes a n :: int
  assumes "n > 0"
  shows "(a + 1) div n = a div n + (if (a + 1) mod n = 0 then 1 else 0)"
proof (cases "(a + 1) mod n = 0")
  case True
  then obtain k where k: "a + 1 = n * k" by auto
  then have "a = n * (k - 1) + (n - 1)" by (simp add: algebra_simps)
  then have "a div n = k - 1" using assms by (intro int_div_pos_eq[where r = "n - 1"]) auto
  then show ?thesis using k assms by simp
next
  case False
  have "a mod n + 1 < n"
  proof (rule ccontr)
    assume "\<not> ?thesis"
    then have "a mod n = n - 1" using pos_mod_bound[OF assms, of a] by linarith
    then have "(a + 1) mod n = 0" using mod_add_left_eq[of a n 1] by simp
    then show False using False by simp
  qed
  then have "(a + 1) div n = a div n"
    using assms by (intro int_div_pos_eq[where r = "a mod n + 1"]) (simp_all add: mult.commute)
  then show ?thesis using False by simp
qed

lemma year_days_step: "year_days (int y + 1) = year_days (int y) + int (DAYS_IN_YEAR y)"
proof -
  have "(int y + 300 + 4 * 400) mod 400 = (int y + 300) mod 400" by (rule mod_mult_self1)
  then have "(int y + 299 + 1) mod 400 = int (y + 1900) mod 400" by (simp add: add.commute)
  also have "\<dots> = int ((y + 1900) mod 400)" by (simp only: zmod_int of_nat_numeral)
  finally have c: "(int y + 299 + 1) mod 400 = 0 \<longleftrightarrow> (y + 1900) mod 400 = 0" by simp
  have "(int y - 68 + 17 * 4) mod 4 = (int y - 68) mod 4" by (rule mod_mult_self1)
  then have "(int y - 69 + 1) mod 4 = int (y mod 4)" by (simp add: zmod_int)
  then have a: "(int y - 69 + 1) mod 4 = 0 \<longleftrightarrow> y mod 4 = 0" by simp
  have "(int y - 1 + 1) mod 100 = int (y mod 100)" by (simp add: zmod_int)
  then have b: "(int y - 1 + 1) mod 100 = 0 \<longleftrightarrow> y mod 100 = 0" by simp
  have "400 dvd y + 1900 \<Longrightarrow> 100 dvd y" using dvd_trans[of 100 400 "y + 1900"] dvd_add_left_iff[of 100 1900 y] by simp
  moreover have "100 dvd y \<Longrightarrow> 4 dvd y" using dvd_trans[of 4 100 y] by simp
  ultimately have "(y + 1900) mod 400 = 0 \<Longrightarrow> y mod 100 = 0" "y mod 100 = 0 \<Longrightarrow> y mod 4 = 0"
    unfolding mod_eq_0_iff_dvd by simp_all
  note imp = this
  have e: "int y + 1 - 69 = int y - 69 + 1" "int y + 1 - 1 = int y - 1 + 1" "int y + 1 + 299 = int y + 299 + 1" by simp_all
  note step = div_step[of 4 "int y - 69", unfolded a] div_step[of 100 "int y - 1", unfolded b] div_step[of 400 "int y + 299", unfolded c]
  show ?thesis unfolding year_days_def DAYS_IN_YEAR_def ISLEAP_def e using imp
    by (simp only: step zero_less_numeral) (simp split: if_split)
qed

lemma year_days_70 [simp]: "year_days 70 = 0"
  by (simp add: year_days_def)

lemma days_from_70: "70 \<le> y \<Longrightarrow> foldl (\<lambda>d y. d + int (DAYS_IN_YEAR y)) d [70..<y] = d + year_days (int y)"
proof (induction y rule: dec_induct)
  case (step n)
  then show ?case using year_days_step[of n] by (simp add: add.commute)
qed simp

lemma days_to_70:
  "y < 70 \<Longrightarrow> foldl (\<lambda>d y. d - int (DAYS_IN_YEAR y)) d (rev [Suc y..<70]) - int (DAYS_IN_YEAR y) = d + year_days (int y)"
proof (induction "69 - y" arbitrary: y)
  case 0
  then have "y = 69" by simp
  then show ?case using year_days_step[of 69] by simp
next
  case (Suc k)
  then have y: "k = 69 - Suc y" "Suc y < 70" by simp_all
  have "[Suc y..<70] = Suc y # [Suc (Suc y)..<70]" using y(2) by (rule upt_conv_Cons)
  then show ?case using Suc(1)[OF y] year_days_step[of y] by (simp add: algebra_simps)
qed

lemma month_numbers: "m < 12 \<Longrightarrow> m \<in> {0, 1, 2, 3, 4, 5, 6, 7, 8, 9, 10, 11 :: nat}"
  by (auto simp: eval_nat_numeral less_Suc_eq)

lemma days_in_month_length:
  assumes "m < 12"
  shows "days_in_month (if DAYS_IN_YEAR y = 366 then 29 else 28) m = Some (month_length (y + 1900) m)"
  using month_numbers[OF assms]
  by (elim insertE emptyE)
    (auto simp: days_in_month_def DAYS_IN_MONTH_def month_length_def DAYS_IN_YEAR_def ISLEAP_leap rd_def)

lemma days_before_month:
  assumes "m < 12"
  shows "rd DAYS_BEFORE_MONTH m = Some ((\<Sum>k\<leftarrow>[0..<m]. month_length Y k) - (if m > 1 \<and> leap Y then 1 else 0))"
  using month_numbers[OF assms]
  by (elim insertE emptyE; hypsubst) (simp_all add: DAYS_BEFORE_MONTH_def month_length_def rd_def upt_rec)

lemma sum_months_pos: "m > 1 \<Longrightarrow> 0 < (\<Sum>k\<leftarrow>[0..<m]. month_length Y k)"
proof -
  assume "m > 1"
  then have "[0..<m] = 0 # [1..<m]" by (simp add: upt_conv_Cons)
  then show ?thesis by (simp add: month_length_def)
qed

subsection \<open>Conversion of calendar times\<close>

abbreviation (input) feb :: "nat \<Rightarrow> nat" where "feb y \<equiv> (if DAYS_IN_YEAR y = 366 then 29 else 28)"

lemma u32_wrap32: "u32 (a + wrap32 b) = u32 (a + b)"
proof -
  have "wrap32 b mod 4294967296 = b mod 4294967296" by (simp add: wrap32_def s32_def u32_def)
  then have "(a + wrap32 b) mod 4294967296 = (a + b) mod 4294967296" by (metis mod_add_right_eq)
  then show ?thesis by (simp add: u32_def)
qed

lemma wrap32_add: "wrap32 (a + wrap32 b) = wrap32 (a + b)"
  unfolding wrap32_def[of "a + wrap32 b"] wrap32_def[of "a + b"] u32_wrap32 ..

lemma month_length_bounds: "28 \<le> month_length Y m" "month_length Y m \<le> 31"
  by (auto simp: month_length_def)

lemma validate_days_id: "calendar_day t \<Longrightarrow> validate_days (feb (tyear t)) t = Some t"
  by (subst validate_days.simps) (simp add: calendar_day_def days_in_month_length)

text \<open>A day behind the last of its month becomes the first of the next month, and of the next year in December.\<close>

lemma tm_yday_next_month:
  "tm_yday (t\<lparr> tmonth := Suc (tmonth t), tday := 1 \<rparr>) = tm_yday t - int (tday t) + int (month_length (tyear t + 1900) (tmonth t)) + 1"
  by (simp add: tm_yday_def)

lemma year_length:
  "(\<Sum>m\<leftarrow>[0..<11]. month_length (y + 1900) m) + 31 = DAYS_IN_YEAR y"
proof -
  have "[0..<11] = [0, 1, 2, 3, 4, 5, 6, 7, 8, 9, 10 :: nat]" by (simp add: upt_rec)
  then show ?thesis by (simp add: month_length_def DAYS_IN_YEAR_def ISLEAP_leap)
qed

lemma validate_days_carry:
  assumes t: "calendar_day t" and y: "tyear t < 65535"
  shows "\<exists>t'. validate_days (feb (tyear t)) (t\<lparr> tday := tday t + 1 \<rparr>) = Some t' \<and> calendar_day t' \<and>
    posix_seconds t' = posix_seconds t + 86400"
proof (cases "tday t < month_length (tyear t + 1900) (tmonth t)")
  case True
  then have "calendar_day (t\<lparr> tday := tday t + 1 \<rparr>)" using t by (simp add: calendar_day_def)
  with validate_days_id[OF this] show ?thesis by (simp add: posix_seconds_def tm_yday_def algebra_simps)
next
  case False
  then have d: "tday t = month_length (tyear t + 1900) (tmonth t)" and m: "tmonth t < 12" using t by (auto simp: calendar_day_def)
  show ?thesis
  proof (cases "tmonth t = 11")
    case True
    let ?t = "t\<lparr> tday := 1, tyear := tyear t + 1, tmonth := 0 \<rparr>"
    have c: "calendar_day ?t" by (simp add: calendar_day_def month_length_def)
    have "validate_days (feb (tyear t)) (t\<lparr> tday := tday t + 1 \<rparr>) = Some ?t"
      using validate_days_id[OF c] d m y True days_in_month_length[OF m, of "tyear t"]
      by (subst validate_days.simps) (simp add: Let_def split: if_splits)
    moreover have "posix_seconds ?t = posix_seconds t + 86400"
      using year_days_step[of "tyear t"] year_length[of "tyear t"] d True
      by (simp add: posix_seconds_def tm_yday_def month_length_def algebra_simps)
    ultimately show ?thesis using c by blast
  next
    case False
    let ?t = "t\<lparr> tday := 1, tmonth := Suc (tmonth t) \<rparr>"
    have c: "calendar_day ?t" using m False month_length_bounds(1)[of "tyear t + 1900" "Suc (tmonth t)"] by (simp add: calendar_day_def)
    have "validate_days (feb (tyear t)) (t\<lparr> tday := tday t + 1 \<rparr>) = Some ?t"
      using validate_days_id[OF c] d m False days_in_month_length[OF m, of "tyear t"]
      by (subst validate_days.simps) (simp add: Let_def)
    moreover have "posix_seconds ?t = posix_seconds t + 86400"
      using d by (simp add: posix_seconds_def tm_yday_def algebra_simps)
    ultimately show ?thesis using c by blast
  qed
qed

lemma validate_structure_days:
  assumes "calendar_day t" "tsecond t < 60" "tminute t < 60" "thour t < 24"
  shows "validate_structure t = Some t"
  using assms validate_days_id[OF assms(1)] by (simp add: validate_structure_def calendar_day_def Let_def)

lemma kern_mktime_valid:
  assumes v: "validate_structure t0 = Some t" and t: "calendar_day t"
  shows "kern_mktime t0 = Some (wrap32 (posix_seconds t), t)"
proof -
  let ?n = "\<Sum>m\<leftarrow>[0..<tmonth t]. month_length (tyear t + 1900) m"
  let ?l = "tmonth t > 1 \<and> DAYS_IN_YEAR (tyear t) = 366"
  let ?days1 = "if ?l then int (tday t) - 1 + int (?n - (if ?l then 1 else 0)) + 1 else int (tday t) - 1 + int (?n - (if ?l then 1 else 0))"
  have m: "tmonth t < 12" using t by (simp add: calendar_day_def)
  have L: "leap (tyear t + 1900) \<longleftrightarrow> DAYS_IN_YEAR (tyear t) = 366" by (simp add: DAYS_IN_YEAR_def ISLEAP_leap)
  have "?days1 = tm_yday t" using sum_months_pos[of "tmonth t" "tyear t + 1900"]
    by (cases ?l) (auto simp: tm_yday_def of_nat_diff Suc_le_eq)
  moreover have "(if tyear t > 70 then foldl (\<lambda>d y. d + int (DAYS_IN_YEAR y)) d [70..<tyear t]
        else if tyear t < 70 then foldl (\<lambda>d y. d - int (DAYS_IN_YEAR y)) d (rev [Suc (tyear t)..<70]) - int (DAYS_IN_YEAR (tyear t))
        else d) = d + year_days (int (tyear t))" for d
    using days_from_70[of "tyear t" d] days_to_70[of "tyear t" d] by (cases "tyear t = 70") auto
  ultimately show ?thesis
    unfolding kern_mktime_def v
    by (simp only: bind.bind_lunit days_before_month[OF m, of "tyear t + 1900", unfolded L] Let_def posix_seconds_def wrap32_add)
qed

text \<open>C38.  \<open>kern_mktime\<close> computes the seconds that the POSIX standard prescribes, for every time of the Gregorian
  calendar from 1900 on, before and after 1970, and leaves the time as it is.  The result has 32 bits.\<close>

theorem kern_mktime_posix:
  "calendar_time t \<Longrightarrow> kern_mktime t = Some (wrap32 (posix_seconds t), t)"
  by (rule kern_mktime_valid) (auto simp: calendar_time_def intro: validate_structure_days)

theorem kern_mktime_posix_witness:
  "kern_mktime \<lparr> tyear = 100, tmonth = 1, tday = 29, thour = 12, tminute = 34, tsecond = 56 \<rparr> =
     Some (951827696, \<lparr> tyear = 100, tmonth = 1, tday = 29, thour = 12, tminute = 34, tsecond = 56 \<rparr>)"
  using kern_mktime_posix[of "\<lparr> tyear = 100, tmonth = 1, tday = 29, thour = 12, tminute = 34, tsecond = 56 \<rparr>"]
  by (simp add: calendar_time_def calendar_day_def month_length_def leap_def posix_seconds_def tm_yday_def year_days_def
      wrap32_def u32_def s32_def)

subsection \<open>The clock chip\<close>

text \<open>A chip that shows one time: no update is in progress, the registers hold the digits of the time in binary coded
  decimal, and the status register says so and says that hours go up to 23.  Years and months count as people do.\<close>

definition bcd :: "nat \<Rightarrow> nat" where
  "bcd n = 16 * (n div 10) + n mod 10"

definition rtc_shows :: "'h rtc \<Rightarrow> Time \<Rightarrow> bool" where
  "rtc_shows chip t \<longleftrightarrow> (\<forall>h. \<not> bit (fst (chip 10 h)) 7 \<and>
     unat (fst (chip REG_YEAR h)) = bcd (tyear t mod 100) \<and> unat (fst (chip REG_MONTH h)) = bcd (tmonth t) \<and>
     unat (fst (chip REG_DAYOFMONTH h)) = bcd (tday t) \<and> unat (fst (chip REG_HOUR h)) = bcd (thour t) \<and>
     unat (fst (chip REG_MINUTE h)) = bcd (tminute t) \<and> unat (fst (chip REG_SECOND h)) = bcd (tsecond t) \<and>
     \<not> bit (unat (fst (chip REG_STATUS_B h))) 2 \<and> bit (unat (fst (chip REG_STATUS_B h))) 1)"

definition to_unix :: "Time \<Rightarrow> Time" where
  "to_unix t = t\<lparr> tmonth := tmonth t - 1, tyear := tyear t - 1900 \<rparr>"

lemma bcd_to_bin_bcd: "n < 100 \<Longrightarrow> bcd_to_bin (bcd n) = n"
proof -
  assume "n < 100"
  have "n mod 10 < 16" using mod_less_divisor[of 10 n] by linarith
  then have "bcd n div 16 = n div 10" "bcd n mod 16 = n mod 10" by (simp_all add: bcd_def)
  then show ?thesis by (simp add: bcd_to_bin_def)
qed

definition raw_time :: "Time \<Rightarrow> Time" where
  "raw_time t = \<lparr> tyear = bcd (tyear t mod 100), tmonth = bcd (tmonth t), tday = bcd (tday t), thour = bcd (thour t),
     tminute = bcd (tminute t), tsecond = bcd (tsecond t) \<rparr>"

lemma rtc_wait_shows: "rtc_shows chip t \<Longrightarrow> rtc_wait chip h = Some (snd (chip 10 h))"
  by (subst rtc_wait.simps) (simp add: rtc_shows_def rtc_update_in_progress_def case_prod_beta)

lemma rtc_get_raw_shows: "rtc_shows chip t \<Longrightarrow> \<exists>h'. rtc_get_raw chip h = Some (raw_time t, h')"
  by (simp add: rtc_get_raw_def rtc_wait_shows rtc_get_reg_def case_prod_beta raw_time_def rtc_shows_def)

lemma get_time_loop_shows:
  assumes "rtc_shows chip t"
  shows "\<exists>h'. get_time_loop chip prev h = Some (raw_time t, h')"
proof -
  have once: "\<exists>h'. get_time_loop chip (raw_time t) h = Some (raw_time t, h')" for h
    using rtc_get_raw_shows[OF assms, of "snd (chip 10 h)"]
    by (subst get_time_loop.simps) (auto simp: rtc_wait_shows[OF assms])
  obtain h' where "rtc_get_raw chip (snd (chip 10 h)) = Some (raw_time t, h')"
    using rtc_get_raw_shows[OF assms] by blast
  then show ?thesis using once[of h'] by (subst get_time_loop.simps) (simp add: rtc_wait_shows[OF assms])
qed

text \<open>The two digits of the year stand for the years 2012 to 2111.\<close>

lemma two_digit_year:
  assumes "2012 \<le> y" "y < (2112 :: nat)"
  shows "y mod 100 + (if y mod 100 < 12 then 2100 else 2000) = y"
proof (cases "y < 2100")
  case True
  have "(y - 2000 + 20 * 100) mod 100 = (y - 2000) mod 100" by (rule mod_mult_self1)
  then have "y mod 100 = y - 2000" using True assms by simp
  then show ?thesis using True assms by simp
next
  case False
  have "(y - 2100 + 21 * 100) mod 100 = (y - 2100) mod 100" by (rule mod_mult_self1)
  then have "y mod 100 = y - 2100" using False assms by simp
  then show ?thesis using False assms by simp
qed

lemma get_time_shows:
  assumes sh: "rtc_shows chip t" and y: "2012 \<le> tyear t" "tyear t < 2112"
    and r: "tmonth t < 100" "tday t < 100" "thour t < 100" "tminute t < 100" "tsecond t < 100"
  shows "\<exists>h'. get_time chip h = Some (t, h')"
proof -
  obtain h' where "get_time_loop chip time_zero h = Some (raw_time t, h')" using get_time_loop_shows[OF sh] by blast
  moreover have "bcd_fields (raw_time t) = t"
    using y r two_digit_year[OF y] by (simp add: bcd_fields_def raw_time_def bcd_to_bin_bcd)
  ultimately show ?thesis using sh by (simp add: get_time_def rtc_reformat_def rtc_get_reg_def rtc_shows_def case_prod_beta)
qed

text \<open>C39.  \<open>gettimeofday\<close> is one hour ahead of the clock, and one day more in the last hour of the day: the hour becomes 24,
  \<open>validate_structure\<close> carries it into the day but leaves the hour at 24, so it is counted twice.\<close>

theorem gettimeofday_last_hour:
  assumes sh: "rtc_shows chip t" and t: "calendar_time (to_unix t)"
    and y: "2012 \<le> tyear t" "tyear t < 2112" and m: "1 \<le> tmonth t" and tp: "tp \<noteq> 0"
  shows "\<exists>h'. gettimeofday chip tp h =
    Some (Inr \<lparr> tv_sec = wrap32 (posix_seconds (to_unix t) + 3600 + (if thour t = 23 then 86400 else 0)), tv_usec = 0 \<rparr>, h')"
proof -
  let ?u = "(to_unix t)\<lparr> thour := thour t + 1 \<rparr>"
  note c = t[unfolded calendar_time_def calendar_day_def to_unix_def]
  have d: "tday t < 100" using c month_length_bounds(2)[of "tyear t - 1900 + 1900" "tmonth t - 1"] by simp
  have k: "calendar_day ?u" "tsecond ?u < 60" "tminute ?u < 60" "tyear ?u < 65535"
    using t y by (auto simp: calendar_time_def calendar_day_def to_unix_def)
  have p: "posix_seconds ?u = posix_seconds (to_unix t) + 3600"
    by (simp add: posix_seconds_def tm_yday_def to_unix_def)
  have "tmonth t - 1 < 12" using c by simp
  then have "tmonth t < 100" by linarith
  then obtain h' where h': "get_time chip h = Some (t, h')" using get_time_shows[OF sh y] c d by auto
  obtain u where u: "kern_mktime ?u = Some (wrap32 (posix_seconds ?u + (if thour t = 23 then 86400 else 0)), u)"
  proof (cases "thour t = 23")
    case True
    obtain t' where t': "validate_days (feb (tyear ?u)) (?u\<lparr> tday := tday ?u + 1 \<rparr>) = Some t'" "calendar_day t'"
      "posix_seconds t' = posix_seconds ?u + 86400" using validate_days_carry[OF k(1,4)] by blast
    have "validate_structure ?u = Some t'"
      using t'(1) k True d by (simp add: validate_structure_def Let_def div_c_def to_unix_def calendar_day_def)
    from kern_mktime_valid[OF this t'(2)] show ?thesis using that True t'(3) by simp
  next
    case False
    then have "thour ?u < 24" using c by auto
    from kern_mktime_valid[OF validate_structure_days[OF k(1-3) this] k(1)] show ?thesis using that False by simp
  qed
  have "kern_mktime (t\<lparr> tmonth := tmonth t - 1, tyear := u16 (tyear t + 65536 - 1900), thour := u8 (thour t + 1) \<rparr>) =
      Some (wrap32 (posix_seconds (to_unix t) + 3600 + (if thour t = 23 then 86400 else 0)), u)"
  proof -
    have "tyear t + 65536 - 1900 = (tyear t - 1900) + 65536" using y by simp
    then have "u16 (tyear t + 65536 - 1900) = tyear t - 1900" using y by (simp only: mod_add_self2) simp
    moreover have "u8 (thour t + 1) = thour t + 1" using c by simp
    ultimately show ?thesis using u[unfolded p] by (simp add: to_unix_def)
  qed
  then show ?thesis using h' m tp by (simp add: gettimeofday_def del: One_nat_def)
qed

definition new_year_chip :: "unit rtc" where
  "new_year_chip r h = ((if r = REG_YEAR then 35 else if r = REG_MONTH then 18 else if r = REG_DAYOFMONTH then 49
     else if r = REG_HOUR then 35 else if r = REG_MINUTE then 48 else if r = REG_STATUS_B then 2 else 0), h)"

theorem gettimeofday_last_hour_witness:
  "gettimeofday new_year_chip 1 () = Some (Inr \<lparr> tv_sec = 1704155400, tv_usec = 0 \<rparr>, ())"
proof -
  let ?t = "\<lparr> tyear = 2023, tmonth = 12, tday = 31, thour = 23, tminute = 30, tsecond = 0 \<rparr>"
  have "rtc_shows new_year_chip ?t" by (simp add: rtc_shows_def new_year_chip_def bcd_def bit_numeral_rec bit_0)
  moreover have "calendar_time (to_unix ?t)"
    by (simp add: calendar_time_def calendar_day_def to_unix_def month_length_def)
  moreover have "posix_seconds (to_unix ?t) = 1704065400"
  proof -
    have "[0..<11] = [0, 1, 2, 3, 4, 5, 6, 7, 8, 9, 10 :: nat]" by (simp add: upt_rec)
    then show ?thesis by (simp add: posix_seconds_def to_unix_def tm_yday_def year_days_def month_length_def leap_def)
  qed
  ultimately show ?thesis using gettimeofday_last_hour[of new_year_chip ?t 1 "()"]
    by (simp add: wrap32_def u32_def s32_def)
qed

lemma validate_days_month: "11 < tmonth t \<Longrightarrow> validate_days f t = None"
  by (subst validate_days.simps) (simp add: days_in_month_def rd_def DAYS_IN_MONTH_def)

lemma validate_structure_month: "11 < tmonth t \<Longrightarrow> validate_structure t = None"
proof -
  assume m: "11 < tmonth t"
  have k: "tmonth (if c then s\<lparr> tminute := x \<rparr> else s) = tmonth s" "tmonth (if c then s\<lparr> thour := x \<rparr> else s) = tmonth s"
    "tmonth (if c then s\<lparr> tday := x \<rparr> else s) = tmonth s" "tmonth (if c then s\<lparr> tyear := x \<rparr> else s) = tmonth s"
    for c x and s :: Time by simp_all
  show ?thesis unfolding validate_structure_def Let_def by (rule validate_days_month) (simp only: k m)
qed



end
