(* ===== verification/Spec2Isabelle.thy ===== *)
theory Spec2Isabelle
  imports Kheap Kstring Kstdlib Klist Kpath Kmutex Pipe Ktime
begin

text \<open>
  A verification development for the exscapeOS kernel, a monolithic x86 kernel written in C.

  \<^bold>\<open>The program.\<close>  At the bottom \<open>pmm.c\<close> hands out physical frames from a bitmap and \<open>vmm.c\<close> maps them
  into address spaces.  \<open>heap.c\<close> carves blocks out of mapped memory, keeps its free areas in the
  \<open>ordered_array.c\<close> and asks the memory managers for more pages when it is full.  Everything above
  takes its memory from \<open>kmalloc\<close>: the doubly linked lists of \<open>list.c\<close>, the mutexes of \<open>mutex.c\<close>, the
  open files of \<open>vfs.c\<close> and the pipes of \<open>pipe.c\<close>.  \<open>vfs.c\<close> dispatches reads, writes and closes to the
  operations a driver has stored in the open file (\<open>stdio.c\<close>, \<open>pipe.c\<close>, the file systems), \<open>task.c\<close>
  copies and releases descriptor tables when tasks fork and exit, and \<open>src/lib\<close> has the string,
  number, formatting and path functions that all of them call.

  \<^bold>\<open>Conventions\<close> (\<open>Prelude\<close>, \<open>Kmem\<close>).  A routine that may fail to return, because an assertion fails, the
  kernel panics, a null pointer is used or a loop goes on for ever, is a function into an \<open>option\<close> type,
  and \<open>None\<close> is the call that does not return.  An error number handed to the caller is a value of
  \<open>errno + int\<close>.  A 32-bit unsigned value is a natural number below \<open>W32\<close> with the wrap-around written
  out (\<open>add32\<close>, \<open>sub32\<close>, \<open>mul32\<close>); signed values are read with \<open>s32\<close>.  Memory that the code reads and
  writes at arbitrary addresses is a function from addresses to bytes (\<open>mem\<close>); structures that are
  only used through typed pointers are records in stores that are indexed by their address.  Loops whose
  end depends on the memory are \<open>partial_function (option)\<close>, so no fuel is needed and \<open>None\<close> covers a loop
  that never ends; the theorems show that the calls return.  The structural loops are \<open>fun\<close>.

  \<^bold>\<open>Memory.\<close>
  \<^item> \<open>Ordered_Array\<close>: \<open>ordered_array.c\<close>, and the locale \<open>pointer_index\<close> of what the heap needs of it.
  \<^item> \<open>Heap\<close>: the functions of \<open>heap.c\<close> on a record with the heap descriptor, its index and the bytes of
    kernel memory; the page operations are the argument \<open>vm_ops\<close>.  \<open>Heap_Inv\<close>, \<open>Heap_Ops\<close>, \<open>Heap_Free\<close> and
    \<open>Heap_Main\<close> have the invariant (areas tile the heap, the index holds exactly the free ones, no two
    neighbours are free) and its preservation; \<open>Heap_Vm\<close> has the locale \<open>heap_paging\<close>, the contract of
    the page operations, and growth and shrinking under it; \<open>Heap_Props\<close> the allocation property and
    a concrete heap.
  \<^item> \<open>Pmm\<close>: \<open>pmm.c\<close> with its bitmap of 32-bit words, and the locale \<open>frame_pool\<close>.
  \<^item> \<open>Vmm\<close>: page tables, \<open>vmm_map_kernel\<close>, \<open>vmm_unmap\<close> and the kernel half of \<open>vmm_alloc_kernel\<close>; it
    interprets \<open>heap_paging\<close>.
  \<^item> \<open>Kheap\<close>: the heap on the memory managers (\<open>kmalloc\<close>, \<open>kfree\<close>, \<open>krealloc\<close>, \<open>heap_create\<close>,
    \<open>validate_heap_index\<close>): every allocation returns an exclusive block, a free merges, the tail of a
    large heap is given back, and the assertions of the code never fail on a well formed heap.
  \<^item> \<open>Kalloc\<close>: the locale \<open>allocator\<close>, the contract of \<open>kmalloc\<close> and \<open>kfree\<close> for their callers, interpreted
    on the kernel heap.

  \<^bold>\<open>Libraries.\<close>
  \<^item> \<open>Kstring\<close> (\<open>string.c\<close>): each function on bytes in memory, with specifications over the strings that
    the memory holds.
  \<^item> \<open>Kstdlib\<close> (\<open>stdlib.c\<close>, \<open>vsprintf.c\<close>): number conversion and formatted output.
  \<^item> \<open>Kpath\<close> (\<open>path.c\<close>): joining, splitting and normalising path names, against a stack of components.

  \<^bold>\<open>Kernel objects.\<close>
  \<^item> \<open>Klist\<close> (\<open>list.c\<close>): nodes and lists in stores, related to sequences of nodes and elements by an
    invariant that every operation keeps (a refinement).
  \<^item> \<open>Kmutex\<close> (\<open>mutex.c\<close>): the operations, and an interleaving of the memory accesses of any number of
    tasks as an inductive step relation.
  \<^item> \<open>Vfs\<close> (\<open>vfs.c\<close>, the descriptor parts of \<open>task.c\<close>): open files, descriptor tables, reference counts,
    fork and exit.  The locale \<open>drivers\<close>, which extends \<open>allocator\<close>, says what \<open>vfs.c\<close> relies on in the
    operations stored in an open file.
  \<^item> \<open>Kstdio\<close> (\<open>stdio.c\<close>): the standard streams and the line editor of their reads.
  \<^item> \<open>Ring\<close>, \<open>Pipe\<close> (\<open>pipe.c\<close>): ring buffers and pipes; reading and writing implement a queue of bytes.
    \<open>Pipe\<close> interprets \<open>drivers\<close> on the pipe and stream drivers and the kernel heap, and so has the
    properties of descriptors over the whole stack.
  \<^item> \<open>Ktime\<close> (\<open>time.c\<close>, \<open>fat_calc_time\<close> of \<open>fat.c\<close>): reading the clock chip, which is an argument, and the
    conversion of calendar times to seconds, against the formula of the POSIX standard.

  \<^bold>\<open>Bounds.\<close>  There are no artificial bounds: sizes are those of the code (128 descriptors, 4096-byte
  pipes and pages, 1024 page tables, 32-bit addresses).  Statements about memory assume that a buffer does
  not wrap around the end of the address space.

  \<^bold>\<open>Not modelled.\<close>  The drivers of hardware (disks, network card, serial port, interrupt controllers), the
  processor tables and assembly entry code, the file systems on disk, the loader of executables, the
  network stack, the kernel's shell and the user programs.  Waiting for other tasks is an argument that
  transforms the state, so any schedule may be put there, but the scheduler itself is not a model.
\<close>

end
